(* ===== verification/Netip.thy ===== *)
theory Netip
  imports Prelude
begin

unbundle bit_operations_syntax

text \<open>
  The part of Go's \<^verbatim>\<open>net/netip\<close> and \<^verbatim>\<open>net\<close> packages that the sources
  call: addresses, prefixes, their parsers and printers, and
  \<^verbatim>\<open>net.SplitHostPort\<close> / \<^verbatim>\<open>net.JoinHostPort\<close>.  These are standard
  library functions, translated from their documented behaviour and their implementation;
  everything in \<^verbatim>\<open>internal/acl\<close> rests on them.
\<close>

section \<open>Addresses\<close>

text \<open>
  \<^verbatim>\<open>netip.Addr\<close>: the zero value, an IPv4 address, or an IPv6 address with a zone
  (empty when there is none).
\<close>

datatype addr = AddrZero | Addr4 "32 word" | Addr6 "128 word" string

fun IsValid :: "addr \<Rightarrow> bool" where
  "IsValid AddrZero = False"
| "IsValid _ = True"

fun Is4 :: "addr \<Rightarrow> bool" where
  "Is4 (Addr4 _) = True"
| "Is4 _ = False"

fun Is6 :: "addr \<Rightarrow> bool" where
  "Is6 (Addr6 _ _) = True"
| "Is6 _ = False"

fun Is4In6 :: "addr \<Rightarrow> bool" where
  "Is4In6 (Addr6 a _) \<longleftrightarrow> drop_bit 32 a = 0xffff"
| "Is4In6 _ \<longleftrightarrow> False"

fun Zone :: "addr \<Rightarrow> string" where
  "Zone (Addr6 _ z) = z"
| "Zone _ = []"

fun Unmap :: "addr \<Rightarrow> addr" where
  "Unmap (Addr6 a z) = (if drop_bit 32 a = 0xffff then Addr4 (ucast a) else Addr6 a z)"
| "Unmap a = a"

fun BitLen :: "addr \<Rightarrow> nat" where
  "BitLen AddrZero = 0"
| "BitLen (Addr4 _) = 32"
| "BitLen (Addr6 _ _) = 128"

fun withoutZone :: "addr \<Rightarrow> addr" where
  "withoutZone (Addr6 a _) = Addr6 a []"
| "withoutZone a = a"

section \<open>Prefixes\<close>

text \<open>\<^verbatim>\<open>netip.Prefix\<close>: a zone-less address and a length; \<open>None\<close> is the invalid length.\<close>

record prefix =
  pfx_addr :: addr
  pfx_bits :: "nat option"

definition PrefixZero :: prefix where
  "PrefixZero = \<lparr>pfx_addr = AddrZero, pfx_bits = None\<rparr>"

definition PrefixFrom :: "addr \<Rightarrow> nat \<Rightarrow> prefix" where
  "PrefixFrom a bits =
     \<lparr>pfx_addr = withoutZone a,
      pfx_bits = (if IsValid a \<and> bits \<le> BitLen a then Some bits else None)\<rparr>"

text \<open>\<^verbatim>\<open>Prefix.Bits\<close>: the length, \<^verbatim>\<open>-1\<close> when invalid.\<close>

definition Bits :: "prefix \<Rightarrow> int" where
  "Bits p = (case pfx_bits p of None \<Rightarrow> -1 | Some n \<Rightarrow> int n)"

fun PrefixIsValid :: "prefix \<Rightarrow> bool" where
  "PrefixIsValid p = (pfx_bits p \<noteq> None)"

definition Contains :: "prefix \<Rightarrow> addr \<Rightarrow> bool" where
  "Contains p ip =
     (case pfx_bits p of None \<Rightarrow> False
      | Some n \<Rightarrow>
          (case (pfx_addr p, ip) of
             (Addr4 b, Addr4 a) \<Rightarrow> drop_bit (32 - n) (a XOR b) = 0
           | (Addr6 b _, Addr6 a z) \<Rightarrow> z = [] \<and> (a XOR b) AND NOT (mask (128 - n)) = 0
           | _ \<Rightarrow> False))"

text \<open>\<^verbatim>\<open>Addr.Prefix(b)\<close>: the address with its host bits cleared.\<close>

definition AddrPrefix :: "addr \<Rightarrow> nat \<Rightarrow> prefix result" where
  "AddrPrefix ip b =
     (case withoutZone ip of
        AddrZero \<Rightarrow> Inr PrefixZero
      | Addr4 a \<Rightarrow>
          if b > 32 then Inl (ErrNew ''prefix length too large for IPv4'')
          else Inr (PrefixFrom (Addr4 (a AND NOT (mask (32 - b)))) b)
      | Addr6 a z \<Rightarrow>
          if b > 128 then Inl (ErrNew ''prefix length too large for IPv6'')
          else Inr (PrefixFrom (Addr6 (a AND NOT (mask (128 - b))) z) b))"

text \<open>\<^verbatim>\<open>m, _ := p.ip.Prefix(p.Bits())\<close>; a negative length is an error and gives the zero prefix.\<close>

definition Masked :: "prefix \<Rightarrow> prefix" where
  "Masked p =
     (case pfx_bits p of None \<Rightarrow> PrefixZero
      | Some n \<Rightarrow> (case AddrPrefix (pfx_addr p) n of Inl _ \<Rightarrow> PrefixZero | Inr m \<Rightarrow> m))"

section \<open>Parsing addresses\<close>

text \<open>Base-256 and base-65536 values, most significant field first.\<close>

definition fields_val :: "nat \<Rightarrow> nat list \<Rightarrow> nat" where
  "fields_val b fs = foldl (\<lambda>v f. v * b + f) 0 fs"

text \<open>
  \<^verbatim>\<open>parseIPv4Fields\<close>: the loop over the bytes, with the byte before, the value and the
  number of digits of the current octet, and the octets already complete.
\<close>

fun parseIPv4_loop :: "string \<Rightarrow> char option \<Rightarrow> nat \<Rightarrow> nat \<Rightarrow> nat list \<Rightarrow> nat list result" where
  "parseIPv4_loop [] prev val digLen fs =
     (if length fs < 3 then Inl (ErrNew ''IPv4 address too short'')
      else Inr (fs @ [val]))"
| "parseIPv4_loop (c # s) prev val digLen fs =
     (if is_digit c then
        if digLen = 1 \<and> val = 0 then Inl (ErrNew ''IPv4 field has octet with leading zero'')
        else if val * 10 + digit_val c > 255 then Inl (ErrNew ''IPv4 field has value >255'')
        else parseIPv4_loop s (Some c) (val * 10 + digit_val c) (Suc digLen) fs
      else if c = CHR ''.'' then
        if prev = None \<or> s = [] \<or> prev = Some CHR ''.''
        then Inl (ErrNew ''IPv4 field must have at least one digit'')
        else if length fs = 3 then Inl (ErrNew ''IPv4 address too long'')
        else parseIPv4_loop s (Some c) 0 0 (fs @ [val])
      else Inl (ErrNew ''unexpected character''))"

definition parseIPv4Fields :: "string \<Rightarrow> nat list result" where
  "parseIPv4Fields s = parseIPv4_loop s None 0 0 []"

definition parseIPv4 :: "string \<Rightarrow> addr result" where
  "parseIPv4 s = rbind (parseIPv4Fields s) (\<lambda>fs. Inr (Addr4 (of_nat (fields_val 256 fs))))"

definition hex_val :: "char \<Rightarrow> nat option" where
  "hex_val c =
     (if is_digit c then Some (byte c - byte CHR ''0'')
      else if between CHR ''a'' CHR ''f'' c then Some (byte c - byte CHR ''a'' + 10)
      else if between CHR ''A'' CHR ''F'' c then Some (byte c - byte CHR ''A'' + 10)
      else None)"

text \<open>One group of hex digits: its value, its number of digits and what follows; at most four digits.\<close>

fun hex_run :: "string \<Rightarrow> nat \<Rightarrow> nat \<Rightarrow> (nat \<times> nat \<times> string) result" where
  "hex_run [] acc off = Inr (acc, off, [])"
| "hex_run (c # s) acc off =
     (case hex_val c of
        None \<Rightarrow> Inr (acc, off, c # s)
      | Some d \<Rightarrow>
          if off > 3 then Inl (ErrNew ''each group must have 4 or fewer digits'')
          else hex_run s (acc * 16 + d) (Suc off))"

text \<open>
  The loop of \<^verbatim>\<open>parseIPv6\<close> over the 16-bit groups.  The first argument is the number
  of groups that still fit; the result is what is left of the string, the groups, and the
  position of the ellipsis.
\<close>

fun parseIPv6_loop ::
  "nat \<Rightarrow> string \<Rightarrow> nat list \<Rightarrow> nat option \<Rightarrow> (string \<times> nat list \<times> nat option) result" where
  "parseIPv6_loop 0 s gs ell = Inr (s, gs, ell)"
| "parseIPv6_loop (Suc n) s gs ell =
     (case hex_run s 0 0 of
        Inl e \<Rightarrow> Inl e
      | Inr (acc, off, s1) \<Rightarrow>
          if off = 0 then Inl (ErrNew ''each colon-separated field must have at least one digit'')
          else if s1 \<noteq> [] \<and> hd s1 = CHR ''.'' then
            if ell = None \<and> length gs \<noteq> 6
            then Inl (ErrNew ''embedded IPv4 address must replace the final 2 fields of the address'')
            else if length gs > 6
            then Inl (ErrNew ''too many hex fields to fit an embedded IPv4 at the end of the address'')
            else (case parseIPv4Fields s of
                    Inl e \<Rightarrow> Inl e
                  | Inr fs \<Rightarrow>
                      Inr ([], gs @ [fs ! 0 * 256 + fs ! 1, fs ! 2 * 256 + fs ! 3], ell))
          else if s1 = [] then Inr ([], gs @ [acc], ell)
          else if hd s1 \<noteq> CHR '':'' then Inl (ErrNew ''unexpected character, want colon'')
          else if tl s1 = [] then Inl (ErrNew ''colon must be followed by more characters'')
          else if hd (tl s1) = CHR '':'' then
            if ell \<noteq> None then Inl (ErrNew ''multiple :: in address'')
            else if tl (tl s1) = [] then Inr ([], gs @ [acc], Some (Suc (length gs)))
            else parseIPv6_loop n (tl (tl s1)) (gs @ [acc]) (Some (Suc (length gs)))
          else parseIPv6_loop n (tl s1) (gs @ [acc]) ell)"

text \<open>After the loop: the whole string is used, and the ellipsis stands for at least one group.\<close>

definition parseIPv6_end :: "string \<times> nat list \<times> nat option \<Rightarrow> nat list result" where
  "parseIPv6_end r =
     (case r of (s, gs, ell) \<Rightarrow>
        if s \<noteq> [] then Inl (ErrNew ''trailing garbage after address'')
        else if length gs < 8 then
          (case ell of
             None \<Rightarrow> Inl (ErrNew ''address string too short'')
           | Some k \<Rightarrow> Inr (take k gs @ replicate (8 - length gs) 0 @ drop k gs))
        else if ell \<noteq> None
        then Inl (ErrNew ''the :: must expand to at least one field of zeros'')
        else Inr gs)"

definition parseIPv6_groups :: "string \<Rightarrow> nat list result" where
  "parseIPv6_groups s =
     (if HasPrefix s ''::'' then
        if drop 2 s = [] then Inr (replicate 8 0)
        else rbind (parseIPv6_loop 8 (drop 2 s) [] (Some 0)) parseIPv6_end
      else rbind (parseIPv6_loop 8 s [] None) parseIPv6_end)"

definition parseIPv6 :: "string \<Rightarrow> addr result" where
  "parseIPv6 s =
     (case Cut s CHR ''%'' of (body, zone, found) \<Rightarrow>
        if found \<and> zone = [] then Inl (ErrNew ''zone must be a non-empty string'')
        else rbind (parseIPv6_groups body)
               (\<lambda>gs. Inr (Addr6 (of_nat (fields_val 65536 gs)) zone)))"

text \<open>\<^verbatim>\<open>netip.ParseAddr\<close>: the first dot, colon or percent sign selects the notation.\<close>

definition ParseAddr :: "string \<Rightarrow> addr result" where
  "ParseAddr s =
     (case List.find (\<lambda>c. c \<in> set ''.:%'') s of
        None \<Rightarrow> Inl (ErrNew ''unable to parse IP'')
      | Some c \<Rightarrow>
          if c = CHR ''.'' then parseIPv4 s
          else if c = CHR '':'' then parseIPv6 s
          else Inl (ErrNew ''missing IPv6 address''))"

definition ParsePrefix :: "string \<Rightarrow> prefix result" where
  "ParsePrefix s =
     (case LastIndexByte s CHR ''/'' of
        None \<Rightarrow> Inl (ErrNew ''no slash'')
      | Some i \<Rightarrow>
          (case ParseAddr (take i s) of
             Inl e \<Rightarrow> Inl e
           | Inr ip \<Rightarrow>
               if Is6 ip \<and> Zone ip \<noteq> []
               then Inl (ErrNew ''IPv6 zones cannot be present in a prefix'')
               else
                 (let bitsStr = drop (Suc i) s in
                  if length bitsStr > 1 \<and> \<not> between CHR ''1'' CHR ''9'' (hd bitsStr)
                  then Inl (ErrNew ''bad bits after slash'')
                  else
                    (case atoi_unsigned bitsStr of
                       None \<Rightarrow> Inl (ErrNew ''bad bits after slash'')
                     | Some bits \<Rightarrow>
                         if bits > BitLen ip then Inl (ErrNew ''prefix length out of range'')
                         else Inr (PrefixFrom ip bits)))))"

section \<open>Printing addresses\<close>

definition hex_digit :: "nat \<Rightarrow> char" where
  "hex_digit d = (if d < 10 then digit_char d else char_of (byte CHR ''a'' + (d - 10)))"

fun hex_str :: "nat \<Rightarrow> string" where
  "hex_str n = (if n < 16 then [hex_digit n] else hex_str (n div 16) @ [hex_digit (n mod 16)])"

declare hex_str.simps [simp del]

definition v4octets :: "32 word \<Rightarrow> nat list" where
  "v4octets a = map (\<lambda>i. unat a div 256 ^ (3 - i) mod 256) [0, 1, 2, 3]"

definition v6groups :: "128 word \<Rightarrow> nat list" where
  "v6groups a = map (\<lambda>i. unat a div 65536 ^ (7 - i) mod 65536) [0, 1, 2, 3, 4, 5, 6, 7]"

definition string4 :: "32 word \<Rightarrow> string" where
  "string4 a = Join ''.'' (map itoa (v4octets a))"

text \<open>The longest run of at least two zero groups, the first one on ties.\<close>

definition zero_run :: "nat list \<Rightarrow> nat \<Rightarrow> nat" where
  "zero_run gs i = length (takeWhile (\<lambda>g. g = 0) (drop i gs))"

fun best_zero_run :: "nat list \<Rightarrow> nat list \<Rightarrow> (nat \<times> nat) option \<Rightarrow> (nat \<times> nat) option" where
  "best_zero_run gs [] best = best"
| "best_zero_run gs (i # is) best =
     (let l = zero_run gs i; cur = (case best of None \<Rightarrow> 0 | Some (a, b) \<Rightarrow> b - a)
      in best_zero_run gs is (if l \<ge> 2 \<and> l > cur then Some (i, i + l) else best))"

definition string6 :: "128 word \<Rightarrow> string" where
  "string6 a =
     (let gs = v6groups a in
      case best_zero_run gs [0, 1, 2, 3, 4, 5, 6, 7] None of
        None \<Rightarrow> Join '':'' (map hex_str gs)
      | Some (s, e) \<Rightarrow>
          Join '':'' (map hex_str (take s gs)) @ ''::'' @ Join '':'' (map hex_str (drop e gs)))"

text \<open>\<^verbatim>\<open>Addr.String\<close>.\<close>

fun addr_String :: "addr \<Rightarrow> string" where
  "addr_String AddrZero = ''invalid IP''"
| "addr_String (Addr4 a) = string4 a"
| "addr_String (Addr6 a z) =
     (if drop_bit 32 a = 0xffff then ''::ffff:'' @ string4 (ucast a) else string6 a)
       @ (if z = [] then [] else CHR ''%'' # z)"

definition prefix_String :: "prefix \<Rightarrow> string" where
  "prefix_String p =
     (case pfx_bits p of None \<Rightarrow> ''invalid Prefix''
      | Some n \<Rightarrow> addr_String (pfx_addr p) @ CHR ''/'' # itoa n)"

text \<open>\<^verbatim>\<open>netip.AddrPortFrom(a, port).String()\<close>.\<close>

definition addrport_String :: "addr \<Rightarrow> nat \<Rightarrow> string" where
  "addrport_String a port =
     (case a of
        AddrZero \<Rightarrow> ''invalid AddrPort''
      | Addr4 _ \<Rightarrow> addr_String a @ CHR '':'' # itoa port
      | Addr6 _ _ \<Rightarrow> CHR ''['' # addr_String a @ '']:'' @ itoa port)"

section \<open>Addresses with ports\<close>

text \<open>\<^verbatim>\<open>netip.ParseAddrPort\<close>.\<close>

definition ParseAddrPort :: "string \<Rightarrow> (addr \<times> nat) result" where
  "ParseAddrPort s =
     (case LastIndexByte s CHR '':'' of
        None \<Rightarrow> Inl (ErrNew ''not an ip:port'')
      | Some i \<Rightarrow>
          (let ip = take i s; port = drop (Suc i) s in
           if ip = [] then Inl (ErrNew ''no IP'')
           else if port = [] then Inl (ErrNew ''no port'')
           else if hd ip = CHR ''['' \<and> (length ip < 2 \<or> last ip \<noteq> CHR '']'')
           then Inl (ErrNew ''missing ]'')
           else
             (let v6 = (hd ip = CHR ''[''); ip' = (if v6 then butlast (tl ip) else ip) in
              case atoi_unsigned port of
                None \<Rightarrow> Inl (ErrNew ''invalid port'')
              | Some n \<Rightarrow>
                  if n > 65535 then Inl (ErrNew ''invalid port'')
                  else
                    (case ParseAddr ip' of
                       Inl e \<Rightarrow> Inl e
                     | Inr a \<Rightarrow>
                         if v6 \<and> Is4 a
                         then Inl (ErrNew ''square brackets can only be used with IPv6 addresses'')
                         else if \<not> v6 \<and> Is6 a
                         then Inl (ErrNew ''IPv6 addresses must be surrounded by square brackets'')
                         else Inr (a, n)))))"

text \<open>\<^verbatim>\<open>net.JoinHostPort\<close> and \<^verbatim>\<open>net.SplitHostPort\<close>.\<close>

definition JoinHostPort :: "string \<Rightarrow> string \<Rightarrow> string" where
  "JoinHostPort host port =
     (if CHR '':'' \<in> set host then CHR ''['' # host @ '']:'' @ port
      else host @ CHR '':'' # port)"

definition SplitHostPort :: "string \<Rightarrow> (string \<times> string) result" where
  "SplitHostPort hostport =
     (case LastIndexByte hostport CHR '':'' of
        None \<Rightarrow> Inl (ErrNew ''missing port in address'')
      | Some i \<Rightarrow>
          if HasPrefix hostport ''['' then
            (case IndexByte hostport CHR '']'' of
               None \<Rightarrow> Inl (ErrNew ''missing ']' in address'')
             | Some e \<Rightarrow>
                 if Suc e = length hostport then Inl (ErrNew ''missing port in address'')
                 else if Suc e \<noteq> i then
                   Inl (ErrNew (if hostport ! Suc e = CHR '':'' then ''too many colons in address''
                                else ''missing port in address''))
                 else if CHR ''['' \<in> set (drop 1 hostport)
                 then Inl (ErrNew ''unexpected '[' in address'')
                 else if CHR '']'' \<in> set (drop (Suc e) hostport)
                 then Inl (ErrNew ''unexpected ']' in address'')
                 else Inr (drop 1 (take e hostport), drop (Suc i) hostport))
          else
            (let host = take i hostport in
             if CHR '':'' \<in> set host then Inl (ErrNew ''too many colons in address'')
             else if CHR ''['' \<in> set hostport then Inl (ErrNew ''unexpected '[' in address'')
             else if CHR '']'' \<in> set hostport then Inl (ErrNew ''unexpected ']' in address'')
             else Inr (host, drop (Suc i) hostport)))"

section \<open>Evaluation\<close>

lemmas parseIPv6_loop_numeral = parseIPv6_loop.simps(2) [of "pred_numeral k" for k, folded numeral_eq_Suc]

lemmas [eval_simps] =
  PrefixZero_def PrefixFrom_def Bits_def Contains_def AddrPrefix_def Masked_def fields_val_def
  parseIPv4Fields_def parseIPv4_def hex_val_def parseIPv6_end_def parseIPv6_groups_def
  parseIPv6_def ParseAddr_def ParsePrefix_def hex_digit_def hex_str.simps v4octets_def
  v6groups_def string4_def zero_run_def string6_def prefix_String_def addrport_String_def
  ParseAddrPort_def JoinHostPort_def SplitHostPort_def parseIPv6_loop_numeral

section \<open>Prefixes and the addresses they contain\<close>

lemma xor_eq_0_iff: "(a XOR b = 0) \<longleftrightarrow> (a::'a::len word) = b"
  by (metis xor.left_neutral xor_self_eq xor.assoc xor.right_neutral)

lemma and_not_mask_eq: "(x::'a::len word) AND NOT (mask k) = push_bit k (drop_bit k x)"
  by (rule bit_word_eqI) (auto simp: bit_simps)

lemma push_drop_zero: "k \<le> LENGTH('a) \<Longrightarrow> push_bit k (drop_bit k (x::'a::len word)) = 0 \<longleftrightarrow> drop_bit k x = 0"
proof
  assume "push_bit k (drop_bit k x) = 0"
  then have "drop_bit k (push_bit k (drop_bit k x)) = 0" by simp
  moreover have "drop_bit k (push_bit k (drop_bit k x)) = drop_bit k x"
    by (rule bit_word_eqI) (auto simp: bit_simps dest: bit_imp_le_length)
  ultimately show "drop_bit k x = 0" by simp
qed simp

lemma drop_bit_xor_0: "drop_bit k (a XOR b) = 0 \<longleftrightarrow> drop_bit k a = drop_bit k (b::'a::len word)"
  by (simp add: xor_eq_0_iff)

lemma Contains_4 [simp]:
  "Contains \<lparr>pfx_addr = Addr4 b, pfx_bits = Some n\<rparr> (Addr4 a) \<longleftrightarrow> drop_bit (32 - n) a = drop_bit (32 - n) b"
  by (simp add: Contains_def xor_eq_0_iff)

lemma Contains_6 [simp]:
  "Contains \<lparr>pfx_addr = Addr6 b y, pfx_bits = Some n\<rparr> (Addr6 a z) \<longleftrightarrow> z = [] \<and> drop_bit (128 - n) a = drop_bit (128 - n) b"
proof -
  have "push_bit k (drop_bit k (a XOR b)) = 0 \<longleftrightarrow> drop_bit k a = drop_bit k b" if "k \<le> 128" for k
    using that by (simp add: push_drop_zero xor_eq_0_iff del: drop_bit_xor) (simp add: xor_eq_0_iff)
  then show ?thesis by (simp add: Contains_def and_not_mask_eq)
qed
 
lemma Contains_simps [simp]:
  "\<not> Contains \<lparr>pfx_addr = Addr4 b, pfx_bits = n\<rparr> (Addr6 a z)"
  "\<not> Contains \<lparr>pfx_addr = Addr6 c y, pfx_bits = n\<rparr> (Addr4 d)"
  "\<not> Contains p AddrZero"
  "\<not> Contains \<lparr>pfx_addr = AddrZero, pfx_bits = n\<rparr> x"
  "\<not> Contains \<lparr>pfx_addr = x, pfx_bits = None\<rparr> w"
  by (auto simp: Contains_def split: option.splits addr.splits)

lemma unat_drop_bit: "unat (drop_bit k (x::'a::len word)) = unat x div 2 ^ k"
proof -
  have "unat (drop_bit k x) = drop_bit k (unat x)"
    by (simp add: unsigned_drop_bit_eq take_bit_nat_eq_self)
  then show ?thesis by (simp only: drop_bit_eq_div)
qed

lemma drop_bit_eq_interval:
  fixes a b :: "'a::len word"
  assumes "b AND NOT (mask k) = b"
  shows "drop_bit k a = drop_bit k b \<longleftrightarrow> unat b \<le> unat a \<and> unat a < unat b + 2 ^ k"
proof -
  have b: "unat b = 2 ^ k * (unat b div 2 ^ k)"
  proof -
    have "unat b = unat (push_bit k (drop_bit k b))" using assms by (simp add: and_not_mask_eq)
    also have "\<dots> = take_bit LENGTH('a) (push_bit k (unat b div 2 ^ k))"
      by (simp only: unsigned_push_bit_eq unat_drop_bit)
    also have "\<dots> = push_bit k (unat b div 2 ^ k)"
      by (rule take_bit_nat_eq_self) (metis (no_types, lifting) div_times_less_eq_dividend le_less_trans push_bit_eq_mult unsigned_less)
    finally show ?thesis by (simp add: push_bit_eq_mult mult.commute)
  qed
  have "drop_bit k a = drop_bit k b \<longleftrightarrow> unat a div 2 ^ k = unat b div 2 ^ k"
    by (simp add: word_unat_eq_iff unat_drop_bit)
  also have "\<dots> \<longleftrightarrow> unat b \<le> unat a \<and> unat a < unat b + 2 ^ k"
  proof
    assume "unat a div 2 ^ k = unat b div 2 ^ k"
    then have "unat a = unat b + unat a mod 2 ^ k"
      using b mult_div_mod_eq [of "2 ^ k" "unat a"] by simp
    moreover have "unat a mod 2 ^ k < 2 ^ k" by simp
    ultimately show "unat b \<le> unat a \<and> unat a < unat b + 2 ^ k" by linarith
  next
    assume "unat b \<le> unat a \<and> unat a < unat b + 2 ^ k"
    then show "unat a div 2 ^ k = unat b div 2 ^ k"
      using b by (intro div_nat_eqI) (auto simp: mult.commute)
  qed
  finally show ?thesis .
qed

text \<open>A prefix as the sources accept it: valid, without zone, host bits clear.\<close>

definition prefix_wf :: "prefix \<Rightarrow> bool" where
  "prefix_wf p \<longleftrightarrow>
     (\<exists>n. pfx_bits p = Some n \<and> IsValid (pfx_addr p) \<and> n \<le> BitLen (pfx_addr p)) \<and>
     Zone (pfx_addr p) = [] \<and> Masked p = p"

lemma withoutZone_id [simp]: "Zone a = [] \<Longrightarrow> withoutZone a = a"
  by (cases a) auto

lemma Unmap_idem [simp]: "Unmap (Unmap a) = Unmap a"
  by (cases a) auto

lemma Is4In6_Unmap [simp]: "\<not> Is4In6 (Unmap a)"
  by (cases a) auto

lemma IsValid_Unmap [simp]: "IsValid (Unmap a) = IsValid a"
  by (cases a) auto

lemma Unmap_id_iff: "Unmap a = a \<longleftrightarrow> \<not> Is4In6 a"
  by (cases a) auto

lemma Masked_4 [simp]:
  "Masked \<lparr>pfx_addr = Addr4 a, pfx_bits = Some n\<rparr> =
     (if n \<le> 32 then \<lparr>pfx_addr = Addr4 (a AND NOT (mask (32 - n))), pfx_bits = Some n\<rparr> else PrefixZero)"
  by (simp add: Masked_def AddrPrefix_def PrefixFrom_def)

lemma Masked_6 [simp]:
  "Masked \<lparr>pfx_addr = Addr6 a z, pfx_bits = Some n\<rparr> =
     (if n \<le> 128 then \<lparr>pfx_addr = Addr6 (a AND NOT (mask (128 - n))) [], pfx_bits = Some n\<rparr> else PrefixZero)"
  by (simp add: Masked_def AddrPrefix_def PrefixFrom_def)

lemma prefix_wf_cases:
  assumes "prefix_wf p"
  obtains (v4) b n where "p = \<lparr>pfx_addr = Addr4 b, pfx_bits = Some n\<rparr>" "n \<le> 32" "b AND NOT (mask (32 - n)) = b"
  | (v6) b n where "p = \<lparr>pfx_addr = Addr6 b [], pfx_bits = Some n\<rparr>" "n \<le> 128" "b AND NOT (mask (128 - n)) = b"
proof (cases p)
  case (fields a bits)
  with assms obtain n where n: "bits = Some n" "n \<le> BitLen a" "Zone a = []" "IsValid a" "Masked p = p"
    by (auto simp: prefix_wf_def)
  then show thesis using fields v4 v6 by (cases a) (auto split: if_splits)
qed

lemma prefix_wf_unique:
  assumes "prefix_wf p" "prefix_wf q" "Contains p a" "Contains q a" "pfx_bits p = pfx_bits q"
  shows "p = q"
  using assms(1)
proof (cases rule: prefix_wf_cases)
  case (v4 b n)
  then obtain a' where a': "a = Addr4 a'" using assms(3) by (cases a) auto
  from assms(2) show ?thesis
  proof (cases rule: prefix_wf_cases)
    case w4: (v4 c m)
    with v4 a' assms(3-5) have "drop_bit (32 - n) b = drop_bit (32 - n) c" by auto
    then have "b AND NOT (mask (32 - n)) = c AND NOT (mask (32 - n))" by (simp add: and_not_mask_eq)
    then show ?thesis using v4 w4 assms(5) by auto
  next
    case (v6 c m)
    with a' assms(4) show ?thesis by simp
  qed
next
  case (v6 b n)
  then obtain a' where a': "a = Addr6 a' []" using assms(3) by (cases a) auto
  from assms(2) show ?thesis
  proof (cases rule: prefix_wf_cases)
    case w6: (v6 c m)
    with v6 a' assms(3-5) have "drop_bit (128 - n) b = drop_bit (128 - n) c" by auto
    then have "b AND NOT (mask (128 - n)) = c AND NOT (mask (128 - n))" by (simp add: and_not_mask_eq)
    then show ?thesis using v6 w6 assms(5) by auto
  next
    case (v4 c m)
    with a' assms(4) show ?thesis by simp
  qed
qed

text \<open>What a prefix stands for: the addresses of its family in an interval of its size.\<close>

fun addr_nat :: "addr \<Rightarrow> nat" where
  "addr_nat AddrZero = 0"
| "addr_nat (Addr4 a) = unat a"
| "addr_nat (Addr6 a _) = unat a"

lemma Contains_interval:
  assumes "prefix_wf p" "pfx_bits p = Some n"
  shows "Contains p a \<longleftrightarrow>
     BitLen a = BitLen (pfx_addr p) \<and> Zone a = [] \<and>
     addr_nat (pfx_addr p) \<le> addr_nat a \<and>
     addr_nat a < addr_nat (pfx_addr p) + 2 ^ (BitLen (pfx_addr p) - n)"
  using assms(1)
proof (cases rule: prefix_wf_cases)
  case (v4 b m)
  with assms show ?thesis
    by (cases a) (auto simp: drop_bit_eq_interval)
next
  case (v6 b m)
  with assms show ?thesis
    by (cases a) (auto simp: drop_bit_eq_interval)
qed

end
