(* ===== verification/Regexp.thy ===== *)
theory Regexp
  imports Prelude
begin

text \<open>
  The part of Go's \<^verbatim>\<open>regexp\<close> package that \<^verbatim>\<open>compileNamePattern\<close> relies
  on: \<^verbatim>\<open>QuoteMeta\<close>, a parser for a fragment of the expression syntax that covers
  every expression built from a wildcard pattern, and \<^verbatim>\<open>MatchString\<close>.  The
  fragment also has alternation, groups, \<^verbatim>\<open>?\<close> and the flag \<^verbatim>\<open>(?i)\<close>, so
  that it can stand for the engine on operator-written expressions in examples.  What is
  outside the fragment is refused (\<open>None\<close>).

  Subjects are host names, which are ASCII, so bytes and runes agree.
\<close>

section \<open>Expressions\<close>

datatype re =
    REmpty
  | RBol                   \<comment> \<open>\<^verbatim>\<open>^\<close>, the beginning of the text\<close>
  | REol                   \<comment> \<open>\<^verbatim>\<open>$\<close>, the end of the text\<close>
  | RAny                   \<comment> \<open>\<^verbatim>\<open>.\<close>\<close>
  | RLit bool char         \<comment> \<open>a character; the flag is case folding\<close>
  | RClass bool "char list" \<comment> \<open>a class; the flag is negation\<close>
  | RCat re re
  | RAlt re re
  | RStar re
  | RPlus re
  | ROpt re

definition lit_matches :: "bool \<Rightarrow> char \<Rightarrow> char \<Rightarrow> bool" where
  "lit_matches f c d \<longleftrightarrow> (if f then lower_char c = lower_char d else c = d)"

definition class_matches :: "bool \<Rightarrow> char list \<Rightarrow> char \<Rightarrow> bool" where
  "class_matches neg cs d \<longleftrightarrow> (d \<in> set cs) \<noteq> neg"

section \<open>Parsing\<close>

definition re_special :: "string" where
  "re_special = [CHR 0x5C] @ ''.+*?()|[]{}^$''"

definition QuoteMeta :: "string \<Rightarrow> string" where
  "QuoteMeta s = concat (map (\<lambda>c. if c \<in> set re_special then [CHR 0x5C, c] else [c]) s)"

text \<open>A class of plain characters, from after its opening bracket to after its closing one.\<close>

definition class_char :: "char \<Rightarrow> bool" where
  "class_char c \<longleftrightarrow> between CHR ''a'' CHR ''z'' c \<or> between CHR ''A'' CHR ''Z'' c \<or> is_digit c
     \<or> c = CHR ''_'' \<or> c = CHR ''.''"

definition re_class :: "string \<Rightarrow> (re \<times> string) option" where
  "re_class s =
     (let (t, neg) = CutPrefix s ''^''; cs = takeWhile class_char t; u = dropWhile class_char t
      in if cs \<noteq> [] \<and> HasPrefix u '']'' then Some (RClass neg cs, tl u) else None)"

text \<open>A repetition operator after an expression.\<close>

definition re_postfix :: "re \<Rightarrow> string \<Rightarrow> re \<times> string" where
  "re_postfix r s =
     (case s of
        [] \<Rightarrow> (r, s)
      | c # t \<Rightarrow>
          if c = CHR ''*'' then (RStar r, t)
          else if c = CHR ''+'' then (RPlus r, t)
          else if c = CHR ''?'' then (ROpt r, t)
          else (r, s))"

text \<open>
  Recursive descent: an alternation, and a concatenation that is built in \<open>acc\<close>.  The
  first argument is fuel, the second the case-folding flag in force.
\<close>

fun re_alt :: "nat \<Rightarrow> bool \<Rightarrow> string \<Rightarrow> (re \<times> bool \<times> string) option"
and re_cat :: "nat \<Rightarrow> bool \<Rightarrow> re \<Rightarrow> string \<Rightarrow> (re \<times> bool \<times> string) option" where
  "re_alt 0 f s = None"
| "re_alt (Suc n) f s =
     (case re_cat n f REmpty s of
        None \<Rightarrow> None
      | Some (r, f1, t) \<Rightarrow>
          if HasPrefix t ''|'' then
            (case re_alt n f1 (tl t) of
               None \<Rightarrow> None
             | Some (r2, f2, u) \<Rightarrow> Some (RAlt r r2, f2, u))
          else Some (r, f1, t))"
| "re_cat 0 f acc s = None"
| "re_cat (Suc n) f acc [] = Some (acc, f, [])"
| "re_cat (Suc n) f acc (c # t) =
     (if c = CHR ''|'' \<or> c = CHR '')'' then Some (acc, f, c # t)
      else if HasPrefix (c # t) ''(?i)'' then re_cat n True acc (drop 3 t)
      else if c = CHR ''('' then
        (if HasPrefix t ''?'' \<and> \<not> HasPrefix t ''?:'' then None
         else
           (case re_alt n f (if HasPrefix t ''?:'' then drop 2 t else t) of
              None \<Rightarrow> None
            | Some (r, f1, u) \<Rightarrow>
                if HasPrefix u '')'' then
                  (let (r', v) = re_postfix r (tl u) in re_cat n f (RCat acc r') v)
                else None))
      else if c = CHR ''['' then
        (if f then None
         else
           (case re_class t of
              None \<Rightarrow> None
            | Some (r, u) \<Rightarrow> (let (r', v) = re_postfix r u in re_cat n f (RCat acc r') v)))
      else if c = CHR 0x5C then
        (case t of
           [] \<Rightarrow> None
         | d # u \<Rightarrow>
             if d \<in> set re_special
             then (let (r', v) = re_postfix (RLit f d) u in re_cat n f (RCat acc r') v)
             else None)
      else if c \<in> set ''*+?{}]'' then None
      else
        (let r = (if c = CHR ''^'' then RBol else if c = CHR ''$'' then REol
                  else if c = CHR ''.'' then RAny else RLit f c);
             (r', v) = re_postfix r t
         in re_cat n f (RCat acc r') v))"

text \<open>\<^verbatim>\<open>regexp.Compile\<close> on the fragment.\<close>

definition re_parse :: "string \<Rightarrow> re option" where
  "re_parse s =
     (case re_alt (2 * length s + 2) False s of
        None \<Rightarrow> None
      | Some (r, f, t) \<Rightarrow> if t = [] then Some r else None)"

section \<open>Matching\<close>

text \<open>
  \<open>ends s r i\<close> lists the positions at which a match of \<open>r\<close> in \<open>s\<close> that begins at
  \<open>i\<close> can end.  The iteration for \<^verbatim>\<open>*\<close> takes steps that consume something, at most
  \<open>length s\<close> of them.
\<close>

fun star_ends :: "(nat \<Rightarrow> nat list) \<Rightarrow> nat \<Rightarrow> nat \<Rightarrow> nat list" where
  "star_ends f 0 i = [i]"
| "star_ends f (Suc n) i = i # concat (map (star_ends f n) (filter (\<lambda>j. i < j) (f i)))"

definition step_if :: "string \<Rightarrow> nat \<Rightarrow> (char \<Rightarrow> bool) \<Rightarrow> nat list" where
  "step_if s i p = (if i < length s \<and> p (s ! i) then [Suc i] else [])"

primrec ends :: "string \<Rightarrow> re \<Rightarrow> nat \<Rightarrow> nat list" where
  "ends s REmpty i = [i]"
| "ends s RBol i = (if i = 0 then [i] else [])"
| "ends s REol i = (if i = length s then [i] else [])"
| "ends s RAny i = step_if s i (\<lambda>c. c \<noteq> CHR 0x0A)"
| "ends s (RLit f c) i = step_if s i (lit_matches f c)"
| "ends s (RClass neg cs) i = step_if s i (class_matches neg cs)"
| "ends s (RCat r1 r2) i = remdups (concat (map (ends s r2) (ends s r1 i)))"
| "ends s (RAlt r1 r2) i = ends s r1 i @ ends s r2 i"
| "ends s (RStar r) i = remdups (star_ends (ends s r) (length s) i)"
| "ends s (RPlus r) i = remdups (concat (map (star_ends (ends s r) (length s)) (ends s r i)))"
| "ends s (ROpt r) i = i # ends s r i"

text \<open>\<^verbatim>\<open>Regexp.MatchString\<close>: a match anywhere in the text.\<close>

definition MatchString :: "re \<Rightarrow> string \<Rightarrow> bool" where
  "MatchString r s \<longleftrightarrow> list_ex (\<lambda>i. ends s r i \<noteq> []) [0..<Suc (length s)]"

section \<open>What an expression matches\<close>

text \<open>The pairs of positions between which an expression matches.\<close>

primrec sem :: "string \<Rightarrow> re \<Rightarrow> (nat \<times> nat) set" where
  "sem s REmpty = {(i, i) | i. i \<le> length s}"
| "sem s RBol = {(0, 0)}"
| "sem s REol = {(length s, length s)}"
| "sem s RAny = {(i, Suc i) | i. i < length s \<and> s ! i \<noteq> CHR 0x0A}"
| "sem s (RLit f c) = {(i, Suc i) | i. i < length s \<and> lit_matches f c (s ! i)}"
| "sem s (RClass neg cs) = {(i, Suc i) | i. i < length s \<and> class_matches neg cs (s ! i)}"
| "sem s (RCat r1 r2) = sem s r1 O sem s r2"
| "sem s (RAlt r1 r2) = sem s r1 \<union> sem s r2"
| "sem s (RStar r) = {(i, j). i \<le> length s \<and> (i, j) \<in> (sem s r)\<^sup>*}"
| "sem s (RPlus r) = (sem s r)\<^sup>+"
| "sem s (ROpt r) = {(i, i) | i. i \<le> length s} \<union> sem s r"

lemma sem_REmpty_left:
  assumes "\<And>i j. (i, j) \<in> sem s r \<Longrightarrow> i \<le> length s"
  shows "sem s (RCat REmpty r) = sem s r"
  using assms by auto

lemma rtrancl_bounds:
  assumes "\<And>i j. (i, j) \<in> R \<Longrightarrow> i \<le> j \<and> j \<le> L" and "(i, j) \<in> R\<^sup>*"
  shows "i \<le> j \<and> (i \<le> L \<longrightarrow> j \<le> (L::nat))"
  using assms(2) by induction (use assms(1) order_trans in \<open>blast+\<close>)

lemma sem_bounds: "(i, j) \<in> sem s r \<Longrightarrow> i \<le> j \<and> j \<le> length s"
proof (induction r arbitrary: i j)
  case (RStar r)
  then show ?case using rtrancl_bounds [of "sem s r" "length s" i j] by auto
next
  case (RPlus r)
  then obtain k where k: "(i, k) \<in> (sem s r)\<^sup>*" "(k, j) \<in> sem s r" by (auto dest: tranclD2)
  have "i \<le> k" using rtrancl_bounds [of "sem s r" "length s" i k] RPlus.IH k(1) by blast
  with RPlus.IH [OF k(2)] show ?case by simp
next
  case (RCat r1 r2)
  then show ?case by (fastforce dest: order_trans)
qed auto

lemma star_ends_rtrancl:
  assumes f: "\<And>i j. i \<le> L \<Longrightarrow> j \<in> set (f i) \<longleftrightarrow> (i, j) \<in> R"
    and R: "\<And>i j. (i, j) \<in> R \<Longrightarrow> i \<le> j \<and> j \<le> L"
    and "i \<le> L" "L - i \<le> n"
  shows "j \<in> set (star_ends f n i) \<longleftrightarrow> (i, j) \<in> R\<^sup>*"
proof
  show "(i, j) \<in> R\<^sup>*" if "j \<in> set (star_ends f n i)"
    using that \<open>i \<le> L\<close>
  proof (induction n arbitrary: i)
    case (Suc n)
    then consider "j = i" | k where "k \<in> set (f i)" "j \<in> set (star_ends f n k)" by auto
    then show ?case
    proof cases
      case 2
      then have "(i, k) \<in> R" using f Suc.prems by blast
      moreover have "(k, j) \<in> R\<^sup>*" using Suc.IH 2 R calculation by blast
      ultimately show ?thesis by simp
    qed simp
  qed simp
next
  assume "(i, j) \<in> R\<^sup>*"
  then show "j \<in> set (star_ends f n i)"
    using assms(3,4)
  proof (induction arbitrary: n rule: converse_rtrancl_induct)
    case base
    then show ?case by (cases n) auto
  next
    case (step i k)
    from R [OF step(1)] have k: "i \<le> k" "k \<le> L" by auto
    show ?case
    proof (cases "i = k")
      case True
      then show ?thesis using step.IH step.prems by blast
    next
      case False
      with k step.prems obtain m where m: "n = Suc m" "L - k \<le> m" by (cases n) auto
      have "j \<in> set (star_ends f m k)" using step.IH k m by blast
      moreover have "k \<in> set (f i)" using f step.prems step(1) by blast
      ultimately show ?thesis using False k m by auto
    qed
  qed
qed

lemma ends_sem: "i \<le> length s \<Longrightarrow> j \<in> set (ends s r i) \<longleftrightarrow> (i, j) \<in> sem s r"
proof (induction r arbitrary: i j)
  case (RCat r1 r2)
  then show ?case by (auto dest: sem_bounds) (meson RCat.IH(2) relcompI sem_bounds)+
next
  case (RStar r)
  then show ?case
    using star_ends_rtrancl [of "length s" "ends s r" "sem s r" i "length s" j] sem_bounds
    by auto
next
  case (RPlus r)
  have star: "j \<in> set (star_ends (ends s r) (length s) k) \<longleftrightarrow> (k, j) \<in> (sem s r)\<^sup>*" if "k \<le> length s" for k
    using star_ends_rtrancl [of "length s" "ends s r" "sem s r" k "length s" j] sem_bounds RPlus.IH that
    by auto
  have "j \<in> set (ends s (RPlus r) i) \<longleftrightarrow> (\<exists>k. (i, k) \<in> sem s r \<and> (k, j) \<in> (sem s r)\<^sup>*)"
  proof -
    have "j \<in> set (ends s (RPlus r) i) \<longleftrightarrow>
        (\<exists>k. k \<in> set (ends s r i) \<and> j \<in> set (star_ends (ends s r) (length s) k))" by auto
    also have "\<dots> \<longleftrightarrow> (\<exists>k. (i, k) \<in> sem s r \<and> (k, j) \<in> (sem s r)\<^sup>*)"
      using RPlus.IH [OF RPlus.prems] star sem_bounds by (intro ex_cong1) blast
    finally show ?thesis .
  qed
  then show ?case by (auto intro: rtrancl_into_trancl2 dest: tranclD)
qed (auto simp: step_if_def)

lemma MatchString_sem: "MatchString r s \<longleftrightarrow> (\<exists>i j. (i, j) \<in> sem s r)"
proof -
  have "ends s r i \<noteq> [] \<longleftrightarrow> (\<exists>j. (i, j) \<in> sem s r)" if "i \<le> length s" for i
  proof -
    have "ends s r i \<noteq> [] \<longleftrightarrow> (\<exists>j. j \<in> set (ends s r i))" by (cases "ends s r i") auto
    then show ?thesis using ends_sem [OF that] by blast
  qed
  moreover have "MatchString r s \<longleftrightarrow> (\<exists>i \<le> length s. ends s r i \<noteq> [])"
    unfolding MatchString_def list_ex_iff set_upt by (auto simp: less_Suc_eq_le)
  ultimately have "MatchString r s \<longleftrightarrow> (\<exists>i \<le> length s. \<exists>j. (i, j) \<in> sem s r)" by blast
  then show ?thesis using sem_bounds by (meson order_trans)
qed

section \<open>Wildcards\<close>

text \<open>
  \<open>glob p s\<close>: \<open>s\<close> is \<open>p\<close> with every asterisk replaced by some text without a dot.
\<close>

fun glob :: "string \<Rightarrow> string \<Rightarrow> bool" where
  "glob [] s \<longleftrightarrow> s = []"
| "glob (c # p) s \<longleftrightarrow>
     (if c = CHR ''*''
      then list_ex (\<lambda>k. glob p (drop k s)) [0..<Suc (length (takeWhile (\<lambda>x. x \<noteq> CHR ''.'') s))]
      else s \<noteq> [] \<and> hd s = c \<and> glob p (tl s))"

lemma dotfree_prefix_iff:
  "k \<le> length (takeWhile (\<lambda>x. x \<noteq> c) s) \<longleftrightarrow> k \<le> length s \<and> c \<notin> set (take k s)"
proof
  assume k: "k \<le> length (takeWhile (\<lambda>x. x \<noteq> c) s)"
  then have "take k s = take k (takeWhile (\<lambda>x. x \<noteq> c) s)"
    by (metis takeWhile_eq_take take_take min.absorb1)
  then have "set (take k s) \<subseteq> set (takeWhile (\<lambda>x. x \<noteq> c) s)" by (metis set_take_subset)
  then show "k \<le> length s \<and> c \<notin> set (take k s)"
    using k length_takeWhile_le [of "\<lambda>x. x \<noteq> c" s] by (auto dest: set_takeWhileD)
next
  assume k: "k \<le> length s \<and> c \<notin> set (take k s)"
  have "takeWhile (\<lambda>x. x \<noteq> c) (take k s @ drop k s) = take k s @ takeWhile (\<lambda>x. x \<noteq> c) (drop k s)"
    by (rule takeWhile_append2) (use k in auto)
  then have "length (takeWhile (\<lambda>x. x \<noteq> c) s) = length (take k s) + length (takeWhile (\<lambda>x. x \<noteq> c) (drop k s))"
    by (metis append_take_drop_id length_append)
  then show "k \<le> length (takeWhile (\<lambda>x. x \<noteq> c) s)" using k by simp
qed

lemma glob_star: "glob (CHR ''*'' # p) s \<longleftrightarrow> (\<exists>u v. s = u @ v \<and> CHR ''.'' \<notin> set u \<and> glob p v)"
proof -
  have "glob (CHR ''*'' # p) s \<longleftrightarrow> (\<exists>k. k \<le> length s \<and> CHR ''.'' \<notin> set (take k s) \<and> glob p (drop k s))"
    by (auto simp: list_ex_iff dotfree_prefix_iff less_Suc_eq_le simp del: upt_Suc)
  also have "\<dots> \<longleftrightarrow> (\<exists>u v. s = u @ v \<and> CHR ''.'' \<notin> set u \<and> glob p v)"
    by (metis append_eq_conv_conj append_take_drop_id le_add1 length_append)
  finally show ?thesis .
qed

lemma glob_char: "c \<noteq> CHR ''*'' \<Longrightarrow> glob (c # p) s \<longleftrightarrow> (\<exists>v. s = c # v \<and> glob p v)"
  by (cases s) auto

declare glob.simps(2) [simp del]

lemma glob_append: "glob (p @ q) s \<longleftrightarrow> (\<exists>u v. s = u @ v \<and> glob p u \<and> glob q v)"
proof (induction p arbitrary: s)
  case Nil
  then show ?case by simp
next
  case (Cons c p)
  show ?case
  proof (cases "c = CHR ''*''")
    case True
    then show ?thesis by (simp add: glob_star Cons.IH) (metis append.assoc)
  next
    case False
    then show ?thesis by (simp add: glob_char Cons.IH) (metis append_Cons)
  qed
qed

lemma glob_dotfree: "glob p s \<Longrightarrow> CHR ''.'' \<notin> set p \<Longrightarrow> CHR ''.'' \<notin> set s"
proof (induction p arbitrary: s)
  case Nil
  then show ?case by simp
next
  case (Cons c p)
  then show ?case by (cases "c = CHR ''*''") (auto simp: glob_star glob_char)
qed

text \<open>An asterisk never crosses a dot: the labels match one by one.\<close>

lemma glob_dot:
  assumes "CHR ''.'' \<notin> set p"
  shows "glob (p @ CHR ''.'' # q) s \<longleftrightarrow>
     (\<exists>u v. s = u @ CHR ''.'' # v \<and> CHR ''.'' \<notin> set u \<and> glob p u \<and> glob q v)"
  using assms glob_dotfree by (fastforce simp: glob_append glob_char)

lemma glob_labels_Join:
  "ps \<noteq> [] \<Longrightarrow> \<forall>p \<in> set ps. CHR ''.'' \<notin> set p \<Longrightarrow>
   glob (Join ''.'' ps) s \<longleftrightarrow> list_all2 glob ps (Split CHR ''.'' s)"
proof (induction ps arbitrary: s rule: induct_list012)
  case 1
  then show ?case by simp
next
  case (2 p)
  show ?case
  proof
    assume "glob (Join ''.'' [p]) s"
    then show "list_all2 glob [p] (Split CHR ''.'' s)" using 2 glob_dotfree [of p s] by simp
  next
    assume "list_all2 glob [p] (Split CHR ''.'' s)"
    then obtain l where l: "Split CHR ''.'' s = [l]" "glob p l"
      by (cases "Split CHR ''.'' s") auto
    then have "s = l" using Join_Split [of "CHR ''.''" s] by simp
    with l show "glob (Join ''.'' [p]) s" by simp
  qed
next
  case (3 p q ps)
  have "glob (Join ''.'' (p # q # ps)) s \<longleftrightarrow>
      (\<exists>u v. s = u @ CHR ''.'' # v \<and> CHR ''.'' \<notin> set u \<and> glob p u \<and> list_all2 glob (q # ps) (Split CHR ''.'' v))"
    using 3 by (simp add: glob_dot)
  also have "\<dots> \<longleftrightarrow> list_all2 glob (p # q # ps) (Split CHR ''.'' s)"
  proof
    assume "\<exists>u v. s = u @ CHR ''.'' # v \<and> CHR ''.'' \<notin> set u \<and> glob p u \<and> list_all2 glob (q # ps) (Split CHR ''.'' v)"
    then show "list_all2 glob (p # q # ps) (Split CHR ''.'' s)" by auto
  next
    assume a: "list_all2 glob (p # q # ps) (Split CHR ''.'' s)"
    then obtain u ls where ls: "Split CHR ''.'' s = u # ls" "glob p u" "list_all2 glob (q # ps) ls"
      by (auto simp: list_all2_Cons1)
    then have "ls \<noteq> []" by auto
    then obtain l ls' where "ls = l # ls'" by (cases ls) auto
    then have "s = u @ CHR ''.'' # Join ''.'' ls" using Join_Split [of "CHR ''.''" s] ls by simp
    moreover have "\<forall>l \<in> set ls. CHR ''.'' \<notin> set l" "CHR ''.'' \<notin> set u"
      using Split_no_sep [of _ "CHR ''.''" s] ls by auto
    moreover have "Split CHR ''.'' (Join ''.'' ls) = ls"
      using Split_Join \<open>ls \<noteq> []\<close> calculation by blast
    ultimately show "\<exists>u v. s = u @ CHR ''.'' # v \<and> CHR ''.'' \<notin> set u \<and> glob p u \<and> list_all2 glob (q # ps) (Split CHR ''.'' v)"
      using ls by metis
  qed
  finally show ?case .
qed

lemma glob_labels: "glob p s \<longleftrightarrow> list_all2 glob (Split CHR ''.'' p) (Split CHR ''.'' s)"
  using glob_labels_Join [of "Split CHR ''.'' p" s, unfolded Join_Split]
    Split_no_sep [of _ "CHR ''.''" p] Split_nonempty by blast


text \<open>The expression an asterisk or a plain character of a pattern becomes.\<close>

definition wild_atom :: "char \<Rightarrow> re" where
  "wild_atom c = (if c = CHR ''*'' then RStar (RClass True ''.'') else RLit False c)"

lemma sem_class_star:
  "(i, j) \<in> sem s (RStar (RClass True ''.'')) \<longleftrightarrow>
     i \<le> j \<and> j \<le> length s \<and> CHR ''.'' \<notin> set (take (j - i) (drop i s))"
proof -
  let ?R = "sem s (RClass True ''.'')"
  have "(i, j) \<in> ?R\<^sup>* \<longleftrightarrow> CHR ''.'' \<notin> set (take (j - i) (drop i s))"
    if "i \<le> j" "j \<le> length s" for i j
    using that
  proof (induction "j - i" arbitrary: j)
    case 0
    then show ?case by simp
  next
    case (Suc n)
    then obtain k where k: "j = Suc k" "n = k - i" "i \<le> k" "k < length s" by (cases j) auto
    have "(i, j) \<in> ?R\<^sup>* \<longleftrightarrow> (i, k) \<in> ?R\<^sup>* \<and> s ! k \<noteq> CHR ''.''"
    proof
      assume "(i, j) \<in> ?R\<^sup>*"
      then obtain m where "(i, m) \<in> ?R\<^sup>*" "(m, j) \<in> ?R" using Suc.hyps(2) by (auto elim: rtranclE)
      then show "(i, k) \<in> ?R\<^sup>* \<and> s ! k \<noteq> CHR ''.''" using k by (auto simp: class_matches_def)
    next
      assume "(i, k) \<in> ?R\<^sup>* \<and> s ! k \<noteq> CHR ''.''"
      moreover have "(k, j) \<in> ?R" using calculation k by (auto simp: class_matches_def)
      ultimately show "(i, j) \<in> ?R\<^sup>*" by (auto intro: rtrancl_into_rtrancl)
    qed
    moreover have "take (j - i) (drop i s) = take (k - i) (drop i s) @ [s ! k]"
      using k by (simp add: Suc_diff_le take_Suc_conv_app_nth)
    ultimately show ?case using Suc.hyps(1) [of k] k by auto
  qed
  then show ?thesis using sem_bounds [of i j s "RStar (RClass True ''.'')"]
    by (auto simp del: sem.simps(6))
qed

text \<open>A concatenation of atoms after \<open>acc\<close> matches where \<open>acc\<close> does and the rest is in the wildcard language.\<close>

lemma sem_wild_atoms:
  "(i, j) \<in> sem s (foldl RCat acc (map wild_atom p)) \<longleftrightarrow>
     (\<exists>k. (i, k) \<in> sem s acc \<and> k \<le> j \<and> j \<le> length s \<and> glob p (take (j - k) (drop k s)))"
proof (induction p arbitrary: acc)
  case Nil
  have "take (j - k) (drop k s) = [] \<longleftrightarrow> k = j" if "k \<le> j" "j \<le> length s" for k
    using that by auto
  then show ?case using sem_bounds by (auto simp del: take_eq_Nil)
next
  case (Cons c p)
  have step: "(\<exists>m. (k, m) \<in> sem s (wild_atom c) \<and> m \<le> j \<and> j \<le> length s \<and> glob p (take (j - m) (drop m s)))
      \<longleftrightarrow> k \<le> j \<and> j \<le> length s \<and> glob (c # p) (take (j - k) (drop k s))" (is "?L \<longleftrightarrow> ?R") for k
  proof (cases "c = CHR ''*''")
    case True
    show ?thesis
    proof
      assume ?L
      then obtain m where m: "k \<le> m" "m \<le> j" "j \<le> length s" "CHR ''.'' \<notin> set (take (m - k) (drop k s))"
          "glob p (take (j - m) (drop m s))"
        using True by (auto simp: wild_atom_def sem_class_star simp del: sem.simps)
      have "take (j - k) (drop k s) = take (m - k) (drop k s) @ take (j - m) (drop m s)"
      proof -
        have "j - k = (m - k) + (j - m)" using m by simp
        then show ?thesis using m(1) by (simp only: take_add drop_drop) simp
      qed
      then show ?R using m True by (auto simp: glob_star)
    next
      assume ?R
      then obtain u v where uv: "take (j - k) (drop k s) = u @ v" "CHR ''.'' \<notin> set u" "glob p v" "k \<le> j" "j \<le> length s"
        using True by (auto simp: glob_star)
      let ?m = "k + length u"
      have len: "j - k = length u + length v" using uv by (metis length_append length_drop length_take min.absorb2 diff_le_mono)
      have "take (?m - k) (drop k s) = u" using uv(1) len by (metis add_diff_cancel_left' append_eq_conv_conj le_add1 min.absorb1 take_take)
      moreover have "take (j - ?m) (drop ?m s) = v"
        using uv(1) len by (metis add.commute append_eq_conv_conj diff_diff_left drop_drop drop_take add_diff_cancel_left')
      moreover have "?m \<le> j" using len uv by linarith
      ultimately have "(k, ?m) \<in> sem s (wild_atom c) \<and> ?m \<le> j \<and> j \<le> length s \<and> glob p (take (j - ?m) (drop ?m s))"
        using True uv by (auto simp: wild_atom_def sem_class_star simp del: sem.simps)
      then show ?L by blast
    qed
  next
    case False
    then have "?L \<longleftrightarrow> k < length s \<and> s ! k = c \<and> Suc k \<le> j \<and> j \<le> length s \<and> glob p (take (j - Suc k) (drop (Suc k) s))"
      by (auto simp: wild_atom_def lit_matches_def)
    also have "\<dots> \<longleftrightarrow> ?R"
    proof -
      have "take (j - k) (drop k s) = (if k < j \<and> k < length s then s ! k # take (j - Suc k) (drop (Suc k) s) else [])"
        by (cases "k < length s") (auto simp: Cons_nth_drop_Suc [symmetric] Suc_diff_Suc [symmetric] take_Cons')
      then show ?thesis using False by (auto simp: glob_char)
    qed
    finally show ?thesis .
  qed
  show ?case by (simp add: Cons.IH) (use step in blast)
qed


text \<open>The whole of a pattern with no leading asterisk, anchored at both ends.\<close>

lemma MatchString_wild:
  "MatchString (RCat (foldl RCat (RCat REmpty RBol) (map wild_atom p)) REol) s \<longleftrightarrow> glob p s"
proof -
  have "MatchString (RCat (foldl RCat (RCat REmpty RBol) (map wild_atom p)) REol) s \<longleftrightarrow>
      (\<exists>i. (i, length s) \<in> sem s (foldl RCat (RCat REmpty RBol) (map wild_atom p)))"
    by (auto simp: MatchString_sem)
  also have "\<dots> \<longleftrightarrow> glob p s"
    by (auto simp: sem_wild_atoms sem_REmpty_left [of s RBol, simplified])
  finally show ?thesis .
qed

text \<open>\<^verbatim>\<open>(?:[^.]+\.)+\<close>: one or more non-empty labels, each followed by a dot.\<close>

definition label_dot :: re where
  "label_dot = RCat (RCat REmpty (RPlus (RClass True ''.''))) (RLit False CHR ''.'')"

definition dotted :: "string list \<Rightarrow> string" where
  "dotted ls = concat (map (\<lambda>l. l @ ''.'') ls)"

definition is_label :: "string \<Rightarrow> bool" where
  "is_label l \<longleftrightarrow> l \<noteq> [] \<and> CHR ''.'' \<notin> set l"

lemma sem_plus_star: "(i, j) \<in> sem s (RPlus r) \<longleftrightarrow> (\<exists>k. (i, k) \<in> sem s r \<and> (k, j) \<in> sem s (RStar r))"
  using sem_bounds by (fastforce dest: tranclD intro: rtrancl_into_trancl2)

lemma sem_label_dot:
  assumes "i \<le> length s"
  shows "(i, j) \<in> sem s label_dot \<longleftrightarrow>
     (\<exists>l. is_label l \<and> drop i s = l @ CHR ''.'' # drop j s \<and> j = i + length l + 1)"
proof
  assume "(i, j) \<in> sem s label_dot"
  then obtain k where k: "(i, k) \<in> sem s (RPlus (RClass True ''.''))" "j = Suc k" "k < length s" "s ! k = CHR ''.''"
    by (auto simp: label_dot_def lit_matches_def simp del: sem.simps(6,9,10))
  then have ik: "i < length s" "s ! i \<noteq> CHR ''.''" "Suc i \<le> k"
      "CHR ''.'' \<notin> set (take (k - Suc i) (drop (Suc i) s))"
    by (auto simp: sem_plus_star sem_class_star class_matches_def simp del: sem.simps(9,10))
  let ?l = "take (k - i) (drop i s)"
  have "?l = s ! i # take (k - Suc i) (drop (Suc i) s)"
    using ik by (simp add: Cons_nth_drop_Suc [symmetric] Suc_diff_Suc [symmetric])
  then have "is_label ?l" using ik by (simp add: is_label_def)
  moreover have "drop i s = ?l @ CHR ''.'' # drop j s"
    using k ik id_take_nth_drop [of "k - i" "drop i s"] by simp
  ultimately show "\<exists>l. is_label l \<and> drop i s = l @ CHR ''.'' # drop j s \<and> j = i + length l + 1"
    using k ik by (intro exI [of _ ?l]) auto
next
  assume "\<exists>l. is_label l \<and> drop i s = l @ CHR ''.'' # drop j s \<and> j = i + length l + 1"
  then obtain l where l: "is_label l" "drop i s = l @ CHR ''.'' # drop j s" "j = i + length l + 1" by blast
  then obtain a m where a: "l = a # m" by (cases l) (auto simp: is_label_def)
  let ?k = "i + length l"
  have len: "i + length l < length s" using l(2) assms by (metis add.commute length_append length_drop length_Cons less_add_Suc1 less_diff_conv add_Suc_right)
  have "s ! ?k = CHR ''.''" using l(2) len by (metis add.commute nth_append_length nth_drop assms)
  moreover have "s ! i = a" using l(2) a len by (metis append_Cons nth_Cons_0 nth_drop add.right_neutral assms)
  moreover have "take (?k - Suc i) (drop (Suc i) s) = m"
    using l(2) a by (metis add_Suc_right append_Cons append_eq_conv_conj diff_add_inverse drop_Suc list.sel(3) length_Cons plus_1_eq_Suc tl_drop drop_drop add.commute add_Suc)
  ultimately have "(i, ?k) \<in> sem s (RPlus (RClass True ''.''))"
    using len a l(1) by (auto simp: sem_plus_star sem_class_star class_matches_def is_label_def simp del: sem.simps(9,10))
  then show "(i, j) \<in> sem s label_dot"
    using len l(3) \<open>s ! ?k = CHR ''.''\<close> assms
    by (auto simp: label_dot_def lit_matches_def simp del: sem.simps(6,9,10) intro!: relcompI)
qed


lemma sem_labels:
  "(0, j) \<in> sem s (RPlus label_dot) \<longleftrightarrow>
     (\<exists>ls. ls \<noteq> [] \<and> (\<forall>l \<in> set ls. is_label l) \<and> s = dotted ls @ drop j s \<and> j = length (dotted ls))"
proof
  assume "(0, j) \<in> sem s (RPlus label_dot)"
  then have "(0, j) \<in> (sem s label_dot)\<^sup>+" by simp
  then show "\<exists>ls. ls \<noteq> [] \<and> (\<forall>l \<in> set ls. is_label l) \<and> s = dotted ls @ drop j s \<and> j = length (dotted ls)"
  proof induction
    case (base j)
    then obtain l where "is_label l" "drop 0 s = l @ CHR ''.'' # drop j s" "j = 0 + length l + 1"
      using sem_label_dot by blast
    then show ?case by (intro exI [of _ "[l]"]) (simp add: dotted_def)
  next
    case (step k j)
    then obtain ls where ls: "ls \<noteq> []" "\<forall>l \<in> set ls. is_label l" "s = dotted ls @ drop k s" "k = length (dotted ls)"
      by blast
    have "k \<le> length s" using ls(3,4) by (metis append_eq_conv_conj le_add1 length_append)
    then obtain l where "is_label l" "drop k s = l @ CHR ''.'' # drop j s" "j = k + length l + 1"
      using sem_label_dot step.hyps(2) by blast
    then show ?case using ls by (intro exI [of _ "ls @ [l]"]) (auto simp: dotted_def)
  qed
next
  assume "\<exists>ls. ls \<noteq> [] \<and> (\<forall>l \<in> set ls. is_label l) \<and> s = dotted ls @ drop j s \<and> j = length (dotted ls)"
  then obtain ls where "ls \<noteq> []" "\<forall>l \<in> set ls. is_label l" "s = dotted ls @ drop j s" "j = length (dotted ls)"
    by blast
  then have "(0, j) \<in> (sem s label_dot)\<^sup>+"
  proof (induction ls arbitrary: j rule: rev_nonempty_induct)
    case (single l)
    then have "(0, j) \<in> sem s label_dot"
      by (subst sem_label_dot) (auto simp: dotted_def)
    then show ?case by blast
  next
    case (snoc l ls)
    let ?k = "length (dotted ls)"
    have s: "s = dotted ls @ l @ CHR ''.'' # drop j s" using snoc.prems by (simp add: dotted_def)
    then have d: "drop ?k s = l @ CHR ''.'' # drop j s" by (metis append_eq_conv_conj)
    then have "s = dotted ls @ drop ?k s" using s by simp
    then have "(0, ?k) \<in> (sem s label_dot)\<^sup>+" using snoc by auto
    moreover have "?k \<le> length s" using s by (metis le_add1 length_append)
    moreover have "(?k, j) \<in> sem s label_dot"
      using d snoc.prems calculation(2) by (subst sem_label_dot) (auto simp: dotted_def)
    ultimately show ?case by simp
  qed
  then show "(0, j) \<in> sem s (RPlus label_dot)" by simp
qed

text \<open>The whole of a pattern that begins with \<^verbatim>\<open>*.\<close>.\<close>

definition subdomain_glob :: "string \<Rightarrow> string \<Rightarrow> bool" where
  "subdomain_glob p s \<longleftrightarrow> (\<exists>ls t. ls \<noteq> [] \<and> (\<forall>l \<in> set ls. is_label l) \<and> s = dotted ls @ t \<and> glob p t)"

lemma MatchString_subdomain:
  "MatchString (RCat (foldl RCat (RCat (RCat REmpty RBol) (RPlus label_dot)) (map wild_atom p)) REol) s
     \<longleftrightarrow> subdomain_glob p s"
proof -
  let ?acc = "RCat (RCat REmpty RBol) (RPlus label_dot)"
  have acc: "(i, k) \<in> sem s ?acc \<longleftrightarrow> i = 0 \<and> (0, k) \<in> sem s (RPlus label_dot)" for i k
    using sem_REmpty_left [of s RBol] by (auto simp del: sem.simps(10))
  have "MatchString (RCat (foldl RCat ?acc (map wild_atom p)) REol) s \<longleftrightarrow>
      (\<exists>i. (i, length s) \<in> sem s (foldl RCat ?acc (map wild_atom p)))"
    by (auto simp: MatchString_sem)
  also have "\<dots> \<longleftrightarrow> (\<exists>k \<le> length s. (0, k) \<in> sem s (RPlus label_dot) \<and> glob p (drop k s))"
    by (simp add: sem_wild_atoms acc del: sem.simps) auto
  also have "\<dots> \<longleftrightarrow> subdomain_glob p s"
  proof
    assume "\<exists>k \<le> length s. (0, k) \<in> sem s (RPlus label_dot) \<and> glob p (drop k s)"
    then show "subdomain_glob p s" unfolding sem_labels subdomain_glob_def by blast
  next
    assume "subdomain_glob p s"
    then obtain ls t where "ls \<noteq> []" "\<forall>l \<in> set ls. is_label l" "s = dotted ls @ t" "glob p t"
      unfolding subdomain_glob_def by blast
    then show "\<exists>k \<le> length s. (0, k) \<in> sem s (RPlus label_dot) \<and> glob p (drop k s)"
      unfolding sem_labels by (intro exI [of _ "length (dotted ls)"]) auto
  qed
  finally show ?thesis .
qed

section \<open>The expressions built from wildcard patterns\<close>

definition wild_char :: "char \<Rightarrow> bool" where
  "wild_char c \<longleftrightarrow> c = CHR ''*'' \<or> c = CHR ''.'' \<or> c \<notin> set re_special"

definition wild_enc :: "char \<Rightarrow> string" where
  "wild_enc c = (if c = CHR ''*'' then ''[^.]*'' else if c = CHR ''.'' then [CHR 0x5C, CHR ''.''] else [c])"

lemma wild_simps [simp]:
  "wild_enc CHR ''*'' = ''[^.]*''"
  "wild_enc CHR ''.'' = [CHR 0x5C, CHR ''.'']"
  "c \<noteq> CHR ''*'' \<Longrightarrow> c \<noteq> CHR ''.'' \<Longrightarrow> wild_enc c = [c]"
  "wild_atom CHR ''*'' = RStar (RClass True ''.'')"
  "c \<noteq> CHR ''*'' \<Longrightarrow> wild_atom c = RLit False c"
  by (simp_all add: wild_enc_def wild_atom_def)

lemma ReplaceAll_QuoteMeta:
  "list_all wild_char p \<Longrightarrow>
   ReplaceAll (QuoteMeta p) [CHR 0x5C, CHR ''*''] ''[^.]*'' = concat (map wild_enc p)"
proof (induction p)
  case Nil
  then show ?case by (simp add: QuoteMeta_def)
next
  case (Cons c p)
  let ?R = "\<lambda>s. ReplaceAll s [CHR 0x5C, CHR ''*''] ''[^.]*''"
  have Q: "QuoteMeta (c # p) = (if c \<in> set re_special then [CHR 0x5C, c] else [c]) @ QuoteMeta p"
    by (simp add: QuoteMeta_def)
  have IH: "?R (QuoteMeta p) = concat (map wild_enc p)" using Cons by simp
  consider "c = CHR ''*''" | "c = CHR ''.''" | "c \<notin> set re_special" using Cons.prems by (auto simp: wild_char_def)
  then show ?case
  proof cases
    case 3
    then have "c \<noteq> CHR 0x5C" "c \<noteq> CHR ''*''" "c \<noteq> CHR ''.''" by (auto simp: re_special_def)
    then show ?thesis using 3 IH Q by simp
  qed (use IH Q in \<open>simp_all add: re_special_def\<close>)
qed

lemma re_postfix_none:
  "s = [] \<or> hd s \<notin> set ''*+?'' \<Longrightarrow> re_postfix r s = (r, s)"
  by (cases s) (auto simp: re_postfix_def)

lemma hd_wild_enc:
  "list_all wild_char p \<Longrightarrow> hd (concat (map wild_enc p) @ ''$'') \<notin> set ''*+?''"
  by (cases p) (auto simp: wild_enc_def wild_char_def re_special_def)

lemma re_cat_wild:
  "list_all wild_char p \<Longrightarrow> length p + 2 \<le> n \<Longrightarrow>
   re_cat n False acc (concat (map wild_enc p) @ ''$'') =
     Some (RCat (foldl RCat acc (map wild_atom p)) REol, False, [])"
proof (induction p arbitrary: n acc)
  case Nil
  then obtain m where "n = Suc (Suc m)" by (metis add_2_eq_Suc' le_Suc_ex add.commute list.size(3) add_0)
  then show ?case by (simp add: re_postfix_def)
next
  case (Cons c p)
  then obtain m where n: "n = Suc m" "length p + 2 \<le> m" by (cases n) auto
  have IH: "\<And>acc. re_cat m False acc (concat (map wild_enc p) @ ''$'') =
     Some (RCat (foldl RCat acc (map wild_atom p)) REol, False, [])" using Cons n by simp
  have hd: "re_postfix r (concat (map wild_enc p) @ ''$'') = (r, concat (map wild_enc p) @ ''$'')" for r
    by (rule re_postfix_none) (use hd_wild_enc [of p] Cons.prems in simp)
  consider "c = CHR ''*''" | "c = CHR ''.''" | "c \<notin> set re_special" using Cons.prems by (auto simp: wild_char_def)
  then show ?case
  proof cases
    case 1
    then show ?thesis using n IH
      by (simp add: Let_def re_class_def CutPrefix_def class_char_def re_postfix_def
          between_def is_digit_def)
  next
    case 2
    then show ?thesis using n IH hd by (simp add: re_special_def)
  next
    case 3
    then have "c \<notin> set ([CHR 0x5C] @ ''.+*?()|[]{}^$'')" by (simp add: re_special_def)
    then show ?thesis using n IH hd by simp
  qed
qed

lemma length_wild_enc: "length p \<le> length (concat (map wild_enc p))"
  by (induction p) (auto simp: wild_enc_def)

lemma re_parse_wild:
  assumes "list_all wild_char p"
  shows "re_parse (''^'' @ concat (map wild_enc p) @ ''$'') =
     Some (RCat (foldl RCat (RCat REmpty RBol) (map wild_atom p)) REol)"
proof -
  let ?s = "concat (map wild_enc p) @ ''$''"
  have "re_postfix RBol ?s = (RBol, ?s)"
    by (rule re_postfix_none) (use hd_wild_enc [of p] assms in simp)
  moreover have "re_cat (2 * length ?s + 2) False (RCat REmpty RBol) ?s =
      Some (RCat (foldl RCat (RCat REmpty RBol) (map wild_atom p)) REol, False, [])"
    by (rule re_cat_wild) (use assms length_wild_enc [of p] in auto)
  ultimately show ?thesis by (simp add: re_parse_def)
qed

lemma re_parse_subdomain:
  assumes "list_all wild_char p"
  shows "re_parse ((''^(?:[^.]+'' @ [CHR 0x5C] @ ''.)+'') @ concat (map wild_enc p) @ ''$'') =
     Some (RCat (foldl RCat (RCat (RCat REmpty RBol) (RPlus label_dot)) (map wild_atom p)) REol)"
proof -
  let ?s = "concat (map wild_enc p) @ ''$''"
  let ?pre = "''^(?:[^.]+'' @ [CHR 0x5C] @ ''.)+''"
  obtain k where k: "k = 2 * length ?s + 21" by blast
  let ?fuel = "Suc (Suc (Suc (Suc k)))"
  have fuel: "2 * length (?pre @ ?s) + 2 = Suc (Suc (Suc ?fuel))" using k by simp
  have "re_cat ?fuel False (RCat (RCat REmpty RBol) (RPlus label_dot)) ?s =
      Some (RCat (foldl RCat (RCat (RCat REmpty RBol) (RPlus label_dot)) (map wild_atom p)) REol, False, [])"
    by (rule re_cat_wild) (use assms k length_wild_enc [of p] in auto)
  then show ?thesis
    unfolding re_parse_def fuel
    by (simp add: re_class_def Let_def CutPrefix_def class_char_def re_postfix_def
        between_def is_digit_def label_dot_def re_special_def)
qed

end
