(* ===== verification/Rules.thy ===== *)
theory Rules
  imports Netip Regexp
begin

text \<open>
  \<^verbatim>\<open>internal/acl/rules.go\<close>: patterns and how they are compiled, rule sets and how
  they are matched, hosts, prefixes and ports and how they are validated, and the list of
  non-public address ranges.

  An operator-written \<^verbatim>\<open>~regex\<close> is compiled by \<^verbatim>\<open>regexp.Compile\<close>, which is
  the parameter \<open>regexp_Compile\<close> of \<open>ruleSet_add\<close> and its callers: it gets the exact
  expression the code builds and answers an error or a matcher.
\<close>

type_synonym matcher = "string \<Rightarrow> bool"
type_synonym re_engine = "string \<Rightarrow> matcher result"

section \<open>Destinations and rule sets\<close>

record destination =
  dst_name :: string
  dst_addr :: addr

record nameRule =
  nr_pattern :: string
  nr_match :: matcher

record addrRule =
  ar_pattern :: string
  ar_prefix :: prefix

text \<open>
  The two maps are association lists: the code never overwrites a key, and it asks whether
  the suffix map is empty.
\<close>

record ruleSet =
  rs_exact :: "(string \<times> string) list"
  rs_suffix :: "(string \<times> string) list"
  rs_names :: "nameRule list"
  rs_any :: string
  rs_addrs :: "addrRule list"

definition ruleSet_empty :: ruleSet where
  "ruleSet_empty = \<lparr>rs_exact = [], rs_suffix = [], rs_names = [], rs_any = [], rs_addrs = []\<rparr>"

section \<open>Matching\<close>

text \<open>The results \<^verbatim>\<open>(pattern, true)\<close> and \<^verbatim>\<open>("", false)\<close> are \<open>Some pattern\<close> and \<open>None\<close>.\<close>

function matchSuffix :: "(string \<times> string) list \<Rightarrow> string \<Rightarrow> string option" where
  "matchSuffix m d =
     (case map_of m d of
        Some p \<Rightarrow> Some p
      | None \<Rightarrow>
          (case IndexByte d CHR ''.'' of
             None \<Rightarrow> None
           | Some i \<Rightarrow> matchSuffix m (drop (Suc i) d)))"
  by pat_completeness auto
termination
  by (relation "measure (\<lambda>(m, d). length d)") (auto dest: IndexByte_split(3))

declare matchSuffix.simps [simp del]

fun match_names :: "nameRule list \<Rightarrow> string \<Rightarrow> string option" where
  "match_names [] n = None"
| "match_names (r # rs) n = (if nr_match r n then Some (nr_pattern r) else match_names rs n)"

definition matchName :: "ruleSet \<Rightarrow> string \<Rightarrow> string option" where
  "matchName rs n =
     (case map_of (rs_exact rs) n of
        Some p \<Rightarrow> Some p
      | None \<Rightarrow>
          (case (if rs_suffix rs \<noteq> [] then matchSuffix (rs_suffix rs) n else None) of
             Some p \<Rightarrow> Some p
           | None \<Rightarrow>
               (case match_names (rs_names rs) n of
                  Some p \<Rightarrow> Some p
                | None \<Rightarrow> (if rs_any rs \<noteq> [] then Some (rs_any rs) else None))))"

fun match_addrs :: "addrRule list \<Rightarrow> addr \<Rightarrow> string option" where
  "match_addrs [] a = None"
| "match_addrs (r # rs) a = (if Contains (ar_prefix r) a then Some (ar_pattern r) else match_addrs rs a)"

definition matchAddr :: "ruleSet \<Rightarrow> addr \<Rightarrow> string option" where
  "matchAddr rs a = match_addrs (rs_addrs rs) a"

definition ruleSet_match :: "ruleSet \<Rightarrow> destination \<Rightarrow> string option" where
  "ruleSet_match rs d =
     (if IsValid (dst_addr d) then matchAddr rs (dst_addr d) else matchName rs (dst_name d))"

section \<open>Host names\<close>

definition host_char :: "char \<Rightarrow> bool" where
  "host_char c \<longleftrightarrow> between CHR ''a'' CHR ''z'' c \<or> between CHR ''A'' CHR ''Z'' c \<or> is_digit c
     \<or> c = CHR ''-'' \<or> c = CHR ''_'' \<or> c = CHR ''.''"

fun checkHostChars :: "string \<Rightarrow> bool \<Rightarrow> unit result" where
  "checkHostChars [] wild = Inr ()"
| "checkHostChars (c # s) wild =
     (if host_char c then checkHostChars s wild
      else if c = CHR ''*'' \<and> wild then checkHostChars s wild
      else Inl (ErrFmt ''invalid character %q'' [[c]]))"

definition isNumeric :: "string \<Rightarrow> bool" where
  "isNumeric l =
     (case CutPrefix l ''0x'' of
        (h, True) \<Rightarrow> h = [] \<or> list_all (\<lambda>c. is_digit c \<or> between CHR ''a'' CHR ''f'' c) h
      | (_, False) \<Rightarrow> list_all is_digit l \<and> l \<noteq> [])"

text \<open>The loop over the labels; the result is \<^verbatim>\<open>allNumeric\<close>.\<close>

fun validate_labels :: "bool \<Rightarrow> string list \<Rightarrow> bool \<Rightarrow> bool result" where
  "validate_labels wild [] allNumeric = Inr allNumeric"
| "validate_labels wild (l # ls) allNumeric =
     (if l = [] then Inl (ErrNew ''empty label'')
      else if length l > 63 then Inl (ErrNew ''label too long'')
      else if ContainsByte l CHR ''*'' \<and> \<not> wild then Inl (ErrNew ''\"*\" not allowed here'')
      else if hd l = CHR ''-'' \<or> last l = CHR ''-''
      then Inl (ErrNew ''label starts or ends with a hyphen'')
      else validate_labels wild ls (if \<not> isNumeric l \<and> l \<noteq> ''*'' then False else allNumeric))"

definition validateHostname :: "string \<Rightarrow> bool \<Rightarrow> unit result" where
  "validateHostname name wild =
     (if name = [] then Inl (ErrNew ''empty hostname'')
      else if length name > 253 then Inl (ErrNew ''hostname too long'')
      else
        (let labels = Split CHR ''.'' name in
         case validate_labels wild labels True of
           Inl e \<Rightarrow> Inl e
         | Inr allNumeric \<Rightarrow>
             if isNumeric (last labels)
             then Inl (ErrNew ''numeric top-level label (IP addresses must be in standard notation)'')
             else if wild \<and> allNumeric
             then Inl (ErrNew ''looks like an IP wildcard; use CIDR notation such as 192.168.1.0/24'')
             else Inr ()))"

definition parseHost :: "string \<Rightarrow> destination result" where
  "parseHost h =
     (case ParseAddr h of
        Inr a \<Rightarrow>
          if Zone a \<noteq> [] then Inl (ErrNew ''zoned address'')
          else Inr \<lparr>dst_name = [], dst_addr = Unmap a\<rparr>
      | Inl _ \<Rightarrow>
          (case checkHostChars h False of
             Inl e \<Rightarrow> Inl e
           | Inr _ \<Rightarrow>
               (let name = ToLower (TrimSuffix h ''.'') in
                case validateHostname name False of
                  Inl e \<Rightarrow> Inl e
                | Inr _ \<Rightarrow> Inr \<lparr>dst_name = name, dst_addr = AddrZero\<rparr>)))"

section \<open>Prefixes\<close>

definition isIPLike :: "string \<Rightarrow> bool" where
  "isIPLike s = (case ParseAddr s of Inl _ \<Rightarrow> False | Inr _ \<Rightarrow> True)"

definition checkPrefix :: "prefix \<Rightarrow> prefix result" where
  "checkPrefix pfx =
     (if Is4In6 (pfx_addr pfx)
      then Inl (ErrNew ''use plain IPv4 notation instead of IPv4-mapped IPv6'')
      else if pfx \<noteq> Masked pfx
      then Inl (ErrFmt ''host bits set (did you mean %s or %s/%d?)''
             [prefix_String (Masked pfx), addr_String (pfx_addr pfx), itoa (BitLen (pfx_addr pfx))])
      else Inr pfx)"

definition parsePrefix :: "string \<Rightarrow> prefix result" where
  "parsePrefix s0 =
     (let s = TrimSpace s0 in
      if ContainsByte s CHR ''/'' then
        (case ParsePrefix s of Inl e \<Rightarrow> Inl e | Inr pfx \<Rightarrow> checkPrefix pfx)
      else
        (case ParseAddr s of
           Inl e \<Rightarrow> Inl e
         | Inr a \<Rightarrow>
             if Zone a \<noteq> [] then Inl (ErrNew ''zoned addresses are not supported'')
             else checkPrefix (PrefixFrom a (BitLen a))))"

section \<open>Compiling patterns\<close>

datatype patternKind = exactName | domainSuffix | anyName | wildcard

text \<open>
  The expression built from a wildcard pattern.  \<^verbatim>\<open>regexp.MustCompile\<close> panics on an
  expression it cannot compile; the panic is the error \<open>ErrFmt ''panic: regexp: Compile''\<close>.
\<close>

definition wildcard_expr :: "string \<Rightarrow> string" where
  "wildcard_expr p =
     (case CutPrefix p ''*.'' of
        (r, True) \<Rightarrow> (''^(?:[^.]+'' @ [CHR 0x5C] @ ''.)+'')
          @ ReplaceAll (QuoteMeta r) [CHR 0x5C, CHR ''*''] ''[^.]*'' @ ''$''
      | (_, False) \<Rightarrow> ''^'' @ ReplaceAll (QuoteMeta p) [CHR 0x5C, CHR ''*''] ''[^.]*'' @ ''$'')"

definition MustCompile :: "string \<Rightarrow> matcher result" where
  "MustCompile expr =
     (case re_parse expr of
        None \<Rightarrow> Inl (ErrFmt ''panic: regexp: Compile'' [expr])
      | Some r \<Rightarrow> Inr (MatchString r))"

definition compileNamePattern :: "string \<Rightarrow> (patternKind \<times> string \<times> matcher option) result" where
  "compileNamePattern p0 =
     (case checkHostChars p0 True of
        Inl e \<Rightarrow> Inl e
      | Inr _ \<Rightarrow>
          (let p = ToLower (TrimSuffix p0 ''.'') in
           if p = ''*'' then Inr (anyName, [], None)
           else
             (case CutPrefix p ''.'' of
                (base, True) \<Rightarrow>
                  (case validateHostname base False of
                     Inl e \<Rightarrow> Inl e
                   | Inr _ \<Rightarrow> Inr (domainSuffix, base, None))
              | (_, False) \<Rightarrow>
                  if \<not> ContainsByte p CHR ''*'' then
                    (case validateHostname p False of
                       Inl e \<Rightarrow> Inl e
                     | Inr _ \<Rightarrow> Inr (exactName, p, None))
                  else if hd p = CHR ''*'' \<and> \<not> HasPrefix p ''*.'' then
                    Inl (ErrFmt ''a leading \"*\" must be followed by \".\" (did you mean \"*.%s\"?)''
                           [TrimLeftByte CHR ''*'' p])
                  else
                    (case validateHostname p True of
                       Inl e \<Rightarrow> Inl e
                     | Inr _ \<Rightarrow>
                         (case MustCompile (wildcard_expr p) of
                            Inl e \<Rightarrow> Inl e
                          | Inr m \<Rightarrow> Inr (wildcard, [], Some m))))))"

text \<open>An insertion that keeps the first pattern of a key.\<close>

definition map_add_new :: "(string \<times> string) list \<Rightarrow> string \<Rightarrow> string \<Rightarrow> (string \<times> string) list" where
  "map_add_new m k p = (case map_of m k of None \<Rightarrow> m @ [(k, p)] | Some _ \<Rightarrow> m)"

definition ruleSet_add_name ::
  "ruleSet \<Rightarrow> string \<Rightarrow> patternKind \<times> string \<times> matcher option \<Rightarrow> ruleSet" where
  "ruleSet_add_name rs p c =
     (case c of (kind, name, m) \<Rightarrow>
        (case kind of
           exactName \<Rightarrow> rs\<lparr>rs_exact := map_add_new (rs_exact rs) name p\<rparr>
         | domainSuffix \<Rightarrow> rs\<lparr>rs_suffix := map_add_new (rs_suffix rs) name p\<rparr>
         | anyName \<Rightarrow> (if rs_any rs = [] then rs\<lparr>rs_any := p\<rparr> else rs)
         | wildcard \<Rightarrow>
             (case m of
                None \<Rightarrow> rs
              | Some f \<Rightarrow> rs\<lparr>rs_names := rs_names rs @ [\<lparr>nr_pattern = p, nr_match = f\<rparr>]\<rparr>)))"

definition ruleSet_add :: "re_engine \<Rightarrow> ruleSet \<Rightarrow> string \<Rightarrow> ruleSet result" where
  "ruleSet_add regexp_Compile rs pattern =
     (let p = TrimSpace pattern in
      if p = [] then Inl (ErrNew ''empty pattern'')
      else
        (case CutPrefix p ''~'' of
           (expr, True) \<Rightarrow>
             if expr = [] then Inl (ErrNew ''empty regex'')
             else
               (case regexp_Compile (''(?i)^(?:'' @ expr @ '')$'') of
                  Inl e \<Rightarrow> Inl e
                | Inr m \<Rightarrow> Inr (rs\<lparr>rs_names := rs_names rs @ [\<lparr>nr_pattern = p, nr_match = m\<rparr>]\<rparr>))
         | (_, False) \<Rightarrow>
             if ContainsAny p '':/'' \<or> isIPLike p then
               (case parsePrefix p of
                  Inl e \<Rightarrow> Inl (ErrWrap ''not a valid IP or CIDR (hostname patterns can't include a scheme, port or path): %w'' [] e)
                | Inr pfx \<Rightarrow> Inr (rs\<lparr>rs_addrs := rs_addrs rs @ [\<lparr>ar_pattern = p, ar_prefix = pfx\<rparr>]\<rparr>))
             else
               (case compileNamePattern p of
                  Inl e \<Rightarrow> Inl e
                | Inr c \<Rightarrow> Inr (ruleSet_add_name rs p c))))"

definition compileRules :: "re_engine \<Rightarrow> string list \<Rightarrow> ruleSet result" where
  "compileRules regexp_Compile patterns =
     foldM (\<lambda>rs p. wrap_err (\<lambda>e. ErrWrap ''%q: %w'' [p] e) (ruleSet_add regexp_Compile rs p))
       ruleSet_empty patterns"

section \<open>Ports\<close>

type_synonym port = "16 word"

record portRange =
  pr_lo :: port
  pr_hi :: port

definition portRange_contains :: "portRange \<Rightarrow> port \<Rightarrow> bool" where
  "portRange_contains r p \<longleftrightarrow> pr_lo r \<le> p \<and> p \<le> pr_hi r"

definition parsePort :: "string \<Rightarrow> port result" where
  "parsePort s =
     (if s = [] \<or> length s > 5 \<or> hd s = CHR ''0'' then Inl (ErrNew ''invalid port'')
      else if \<not> list_all is_digit s then Inl (ErrNew ''invalid port'')
      else
        (case atoi_unsigned s of
           None \<Rightarrow> Inl (ErrNew ''port out of range'')
         | Some n \<Rightarrow>
             if n < 1 \<or> n > 65535 then Inl (ErrNew ''port out of range'')
             else Inr (of_nat n)))"

definition parsePortRange :: "string \<Rightarrow> portRange result" where
  "parsePortRange s =
     (case Cut (TrimSpace s) CHR ''-'' of (loS, hiS, isRange) \<Rightarrow>
        (case parsePort loS of
           Inl e \<Rightarrow> Inl e
         | Inr lo \<Rightarrow>
             if isRange then
               (case parsePort hiS of
                  Inl e \<Rightarrow> Inl e
                | Inr hi \<Rightarrow>
                    if hi < lo then Inl (ErrNew ''range end before start'')
                    else Inr \<lparr>pr_lo = lo, pr_hi = hi\<rparr>)
             else Inr \<lparr>pr_lo = lo, pr_hi = lo\<rparr>))"

section \<open>Non-public addresses\<close>

definition nonPublic_cidrs :: "string list" where
  "nonPublic_cidrs =
     [''0.0.0.0/8'', ''10.0.0.0/8'', ''100.64.0.0/10'', ''127.0.0.0/8'', ''169.254.0.0/16'',
      ''172.16.0.0/12'', ''192.0.0.0/24'', ''192.88.99.0/24'', ''192.168.0.0/16'',
      ''198.18.0.0/15'', ''224.0.0.0/4'', ''240.0.0.0/4'', ''::/96'', ''::ffff:0:0/96'',
      ''64:ff9b::/96'', ''64:ff9b:1::/48'', ''2001::/32'', ''2002::/16'', ''fc00::/7'',
      ''fe80::/10'', ''fec0::/10'', ''ff00::/8'']"

text \<open>\<^verbatim>\<open>netip.MustParsePrefix\<close> panics when a literal does not parse: the left side of the sum.\<close>

definition nonPublic_init :: "prefix list result" where
  "nonPublic_init = mapM ParsePrefix nonPublic_cidrs"

definition nonPublic :: "prefix list" where
  "nonPublic = (case nonPublic_init of Inl _ \<Rightarrow> [] | Inr ps \<Rightarrow> ps)"

definition isPublic :: "addr \<Rightarrow> bool" where
  "isPublic a = list_all (\<lambda>p. \<not> Contains p a) nonPublic"

section \<open>Domain suffixes\<close>

text \<open>The domain itself, or a name below it.\<close>

definition in_domain :: "string \<Rightarrow> string \<Rightarrow> bool" where
  "in_domain n d \<longleftrightarrow> n = d \<or> HasSuffix n (CHR ''.'' # d)"

lemma in_domain_iff: "in_domain n d \<longleftrightarrow> n = d \<or> (\<exists>l. n = l @ CHR ''.'' # d)"
  by (simp add: in_domain_def HasSuffix_iff)

lemma in_domain_below:
  assumes x: "CHR ''.'' \<notin> set x"
  shows "(\<exists>l. x @ CHR ''.'' # y = l @ CHR ''.'' # d) \<longleftrightarrow> in_domain y d"
proof
  assume "\<exists>l. x @ CHR ''.'' # y = l @ CHR ''.'' # d"
  then obtain l where l: "x @ CHR ''.'' # y = l @ CHR ''.'' # d" by blast
  show "in_domain y d"
  proof (cases "CHR ''.'' \<in> set l")
    case True
    then obtain a b where ab: "l = a @ CHR ''.'' # b" "CHR ''.'' \<notin> set a" by (meson split_list_first)
    then have "x @ CHR ''.'' # y = a @ CHR ''.'' # (b @ CHR ''.'' # d)" using l by simp
    then have "y = b @ CHR ''.'' # d" using x ab sep_append_inject by blast
    then show ?thesis by (auto simp: in_domain_iff)
  next
    case False
    then show ?thesis using l x sep_append_inject by (auto simp: in_domain_iff)
  qed
next
  assume "in_domain y d"
  then show "\<exists>l. x @ CHR ''.'' # y = l @ CHR ''.'' # d"
    unfolding in_domain_iff by (metis append.assoc append_Cons)
qed

lemma in_domain_step:
  assumes "IndexByte n CHR ''.'' = Some i"
  shows "in_domain n d \<longleftrightarrow> n = d \<or> in_domain (drop (Suc i) n) d"
  using IndexByte_split [OF assms] in_domain_below [of "take i n" "drop (Suc i) n" d]
  by (simp add: in_domain_iff)

lemma in_domain_no_dot: "CHR ''.'' \<notin> set n \<Longrightarrow> in_domain n d \<longleftrightarrow> n = d"
  by (auto simp: in_domain_iff)

lemma in_domain_length: "in_domain n d \<Longrightarrow> length d \<le> length n"
  by (auto simp: in_domain_iff)

text \<open>The loop finds the pattern of the longest domain in the map.\<close>

lemma matchSuffix_Some:
  "matchSuffix m n = Some p \<longleftrightarrow>
     (\<exists>d. in_domain n d \<and> map_of m d = Some p \<and>
          (\<forall>e. in_domain n e \<longrightarrow> map_of m e \<noteq> None \<longrightarrow> length e \<le> length d))"
proof (induction m n rule: matchSuffix.induct)
  case (1 m n)
  note simp = matchSuffix.simps [of m n]
  show ?case
  proof (cases "map_of m n")
    case (Some q)
    have "in_domain n d \<and> (\<forall>e. in_domain n e \<longrightarrow> map_of m e \<noteq> None \<longrightarrow> length e \<le> length d) \<longleftrightarrow> d = n" for d
      using Some by (auto simp: in_domain_iff)
    then have "(\<exists>d. in_domain n d \<and> map_of m d = Some p \<and>
          (\<forall>e. in_domain n e \<longrightarrow> map_of m e \<noteq> None \<longrightarrow> length e \<le> length d)) \<longleftrightarrow> map_of m n = Some p"
      by metis
    then show ?thesis using Some simp by simp
  next
    case None
    show ?thesis
    proof (cases "IndexByte n CHR ''.''")
      case dot: None
      then show ?thesis using None simp by (auto simp: in_domain_no_dot)
    next
      case (Some i)
      then have "matchSuffix m n = Some p \<longleftrightarrow> matchSuffix m (drop (Suc i) n) = Some p"
        using None simp by simp
      moreover have "in_domain n d \<and> map_of m d \<noteq> None \<longleftrightarrow> in_domain (drop (Suc i) n) d \<and> map_of m d \<noteq> None" for d
        using in_domain_step [OF Some] None by auto
      ultimately show ?thesis using 1 [OF None Some] by (metis option.distinct(1))
    qed
  qed
qed

lemma matchSuffix_None: "matchSuffix m n = None \<longleftrightarrow> (\<forall>d. in_domain n d \<longrightarrow> map_of m d = None)"
proof (induction m n rule: matchSuffix.induct)
  case (1 m n)
  have refl: "in_domain n n" by (simp add: in_domain_def)
  show ?case
  proof (cases "map_of m n")
    case (Some q)
    then show ?thesis using refl by (auto simp: matchSuffix.simps [of m n])
  next
    case None
    show ?thesis
    proof (cases "IndexByte n CHR ''.''")
      case dot: None
      then have "matchSuffix m n = None" using None matchSuffix.simps [of m n]
        by (simp del: IndexByte_None_iff)
      then show ?thesis using None dot by (simp add: in_domain_no_dot)
    next
      case (Some i)
      have "matchSuffix m n = matchSuffix m (drop (Suc i) n)"
        using None Some by (simp add: matchSuffix.simps [of m n])
      then show ?thesis using 1 [OF None Some] in_domain_step [OF Some] None by auto
    qed
  qed
qed

section \<open>What a pattern means\<close>

text \<open>
  The documented meaning of one pattern, read off its text: which host names and which
  addresses it stands for.  This is the reference the compiled rule sets are compared with.
\<close>

definition is_regex :: "string \<Rightarrow> bool" where
  "is_regex p \<longleftrightarrow> HasPrefix p ''~''"

definition is_addr_pattern :: "string \<Rightarrow> bool" where
  "is_addr_pattern p \<longleftrightarrow> \<not> is_regex p \<and> (ContainsAny p '':/'' \<or> isIPLike p)"

definition name_pattern_spec :: "string \<Rightarrow> string \<Rightarrow> bool" where
  "name_pattern_spec q n \<longleftrightarrow>
     (if q = ''*'' then True
      else if HasPrefix q ''.'' then in_domain n (tl q)
      else if CHR ''*'' \<notin> set q then n = q
      else if HasPrefix q ''*.'' then subdomain_glob (drop 2 q) n
      else glob q n)"

definition pattern_spec_name :: "re_engine \<Rightarrow> string \<Rightarrow> string \<Rightarrow> bool" where
  "pattern_spec_name regexp_Compile pattern n \<longleftrightarrow>
     (let p = TrimSpace pattern in
      if is_regex p then
        (case regexp_Compile (''(?i)^(?:'' @ tl p @ '')$'') of Inl _ \<Rightarrow> False | Inr m \<Rightarrow> m n)
      else \<not> is_addr_pattern p \<and> name_pattern_spec (ToLower (TrimSuffix p ''.'')) n)"

definition pattern_spec_addr :: "string \<Rightarrow> addr \<Rightarrow> bool" where
  "pattern_spec_addr pattern a \<longleftrightarrow>
     (let p = TrimSpace pattern in
      is_addr_pattern p \<and> (case parsePrefix p of Inl _ \<Rightarrow> False | Inr pfx \<Rightarrow> Contains pfx a))"

section \<open>Compiled host name patterns\<close>

lemma checkHostChars_ok: "checkHostChars s w = Inr () \<longleftrightarrow> (\<forall>c \<in> set s. host_char c \<or> (w \<and> c = CHR ''*''))"
  by (induction s) auto

lemma lower_char_special: "lower_char c = CHR ''*'' \<longleftrightarrow> c = CHR ''*''" "lower_char c = CHR ''.'' \<longleftrightarrow> c = CHR ''.''"
  by (simp_all add: lower_char_eq_iff between_def)

lemma host_char_lower: "host_char c \<Longrightarrow> host_char (lower_char c)"
  by (auto simp: host_char_def lower_char_def between_def is_digit_def)

lemma host_char_wild: "host_char c \<Longrightarrow> wild_char c"
  by (auto simp: host_char_def wild_char_def re_special_def between_def is_digit_def)

lemma wild_chars_normalized:
  assumes "checkHostChars p True = Inr ()"
  shows "list_all wild_char (ToLower (TrimSuffix p ''.''))"
  using assms set_TrimSuffix [of p "''.''"]
  by (auto simp: checkHostChars_ok ToLower_def list_all_iff)
    (metis host_char_lower host_char_wild lower_char_special(1) subsetD wild_char_def)

lemma MustCompile_wildcard:
  assumes "list_all wild_char p"
  shows "\<exists>m. MustCompile (wildcard_expr p) = Inr m \<and>
     (\<forall>n. m n \<longleftrightarrow> (if HasPrefix p ''*.'' then subdomain_glob (drop 2 p) n else glob p n))"
proof (cases "HasPrefix p ''*.''")
  case True
  then obtain r where r: "p = CHR ''*'' # CHR ''.'' # r" by (auto simp: HasPrefix_iff)
  with assms have "list_all wild_char r" by simp
  then show ?thesis using r
    by (auto simp: MustCompile_def wildcard_expr_def CutPrefix_def ReplaceAll_QuoteMeta
        re_parse_subdomain [simplified] MatchString_subdomain)
next
  case False
  then show ?thesis using assms
    by (auto simp: MustCompile_def wildcard_expr_def CutPrefix_def ReplaceAll_QuoteMeta
        re_parse_wild [simplified] MatchString_wild)
qed

lemma compileNamePattern_cases:
  assumes "compileNamePattern p = Inr (kind, name, m)"
  defines "q \<equiv> ToLower (TrimSuffix p ''.'')"
  shows "case kind of
      anyName \<Rightarrow> q = ''*''
    | domainSuffix \<Rightarrow> q \<noteq> ''*'' \<and> q = CHR ''.'' # name \<and> validateHostname name False = Inr ()
    | exactName \<Rightarrow> q = name \<and> \<not> HasPrefix q ''.'' \<and> CHR ''*'' \<notin> set q \<and> validateHostname name False = Inr ()
    | wildcard \<Rightarrow> q \<noteq> ''*'' \<and> \<not> HasPrefix q ''.'' \<and> CHR ''*'' \<in> set q \<and> validateHostname q True = Inr () \<and>
        (hd q = CHR ''*'' \<longrightarrow> HasPrefix q ''*.'') \<and> (\<exists>f. m = Some f \<and> (\<forall>n. f n \<longleftrightarrow> name_pattern_spec q n))"
proof -
  have chars: "checkHostChars p True = Inr ()"
    using assms by (auto simp: compileNamePattern_def split: sum.splits)
  obtain f where f: "MustCompile (wildcard_expr q) = Inr f"
      "\<And>n. f n \<longleftrightarrow> (if HasPrefix q ''*.'' then subdomain_glob (drop 2 q) n else glob q n)"
    using MustCompile_wildcard [OF wild_chars_normalized [OF chars]] q_def by blast
  show ?thesis using assms(1) chars f(1)
    unfolding compileNamePattern_def q_def [symmetric] Let_def
    by (auto simp: CutPrefix_def f(2) name_pattern_spec_def ContainsByte_def HasPrefix_iff
        split: sum.splits if_splits)
qed

section \<open>Compiled rule sets\<close>

text \<open>Whether some rule for host names matches, one disjunct per kind of rule.\<close>

lemma match_names_None: "match_names rs n = None \<longleftrightarrow> (\<forall>r \<in> set rs. \<not> nr_match r n)"
  by (induction rs) auto

lemma match_names_Some: "match_names rs n = Some p \<Longrightarrow> \<exists>r \<in> set rs. nr_match r n \<and> nr_pattern r = p"
  by (induction rs) (auto split: if_splits)

lemma match_addrs_None: "match_addrs rs a = None \<longleftrightarrow> (\<forall>r \<in> set rs. \<not> Contains (ar_prefix r) a)"
  by (induction rs) auto

lemma match_addrs_Some: "match_addrs rs a = Some p \<Longrightarrow> \<exists>r \<in> set rs. Contains (ar_prefix r) a \<and> ar_pattern r = p"
  by (induction rs) (auto split: if_splits)

lemma matchName_None:
  "matchName rs n = None \<longleftrightarrow>
     map_of (rs_exact rs) n = None \<and> (\<forall>d. in_domain n d \<longrightarrow> map_of (rs_suffix rs) d = None) \<and>
     (\<forall>r \<in> set (rs_names rs). \<not> nr_match r n) \<and> rs_any rs = []"
proof -
  have suf: "(if rs_suffix rs \<noteq> [] then matchSuffix (rs_suffix rs) n else None) = matchSuffix (rs_suffix rs) n"
    using matchSuffix_None [of "[]" n] by auto
  show ?thesis
    unfolding matchName_def suf
    by (auto split: option.splits simp flip: match_names_None matchSuffix_None)
qed

lemma map_of_map_add_new:
  "map_of (map_add_new m k p) j = (case map_of m j of None \<Rightarrow> if j = k then Some p else None | Some q \<Rightarrow> Some q)"
  by (auto simp: map_add_new_def map_add_def split: option.splits)

lemma ruleSet_add_name_matches:
  assumes "compileNamePattern p = Inr c" and "p \<noteq> []"
  shows "matchName (ruleSet_add_name rs p c) n = None \<longleftrightarrow>
     matchName rs n = None \<and> \<not> name_pattern_spec (ToLower (TrimSuffix p ''.'')) n"
proof -
  obtain kind name m where c: "c = (kind, name, m)" by (cases c)
  note cases = compileNamePattern_cases [OF assms(1) [unfolded c]]
  show ?thesis
  proof (cases kind)
    case exactName
    then show ?thesis using cases
      by (auto simp: c ruleSet_add_name_def matchName_None map_of_map_add_new name_pattern_spec_def split: option.splits)
  next
    case domainSuffix
    have "(\<forall>d. in_domain n d \<longrightarrow> map_of (map_add_new (rs_suffix rs) name p) d = None) \<longleftrightarrow>
        (\<forall>d. in_domain n d \<longrightarrow> map_of (rs_suffix rs) d = None) \<and> \<not> in_domain n name"
      by (auto simp: map_of_map_add_new split: option.splits)
    then show ?thesis using cases domainSuffix
      by (auto simp: c ruleSet_add_name_def matchName_None name_pattern_spec_def)
  next
    case anyName
    then show ?thesis using cases assms(2)
      by (auto simp: c ruleSet_add_name_def matchName_None name_pattern_spec_def)
  next
    case wildcard
    then show ?thesis using cases
      by (auto simp: c ruleSet_add_name_def matchName_None)
  qed
qed

lemma ruleSet_add_name_addrs [simp]: "rs_addrs (ruleSet_add_name rs p c) = rs_addrs rs"
  by (auto simp: ruleSet_add_name_def split: prod.splits patternKind.splits option.splits)

text \<open>The three outcomes of adding a pattern.\<close>

lemma ruleSet_add_cases:
  assumes "ruleSet_add re rs pattern = Inr rs'"
  defines "p \<equiv> TrimSpace pattern"
  obtains (regex) m where "is_regex p" "p \<noteq> ''~''" "re (''(?i)^(?:'' @ tl p @ '')$'') = Inr m"
      "rs' = rs\<lparr>rs_names := rs_names rs @ [\<lparr>nr_pattern = p, nr_match = m\<rparr>]\<rparr>"
  | (addr) pfx where "is_addr_pattern p" "parsePrefix p = Inr pfx"
      "rs' = rs\<lparr>rs_addrs := rs_addrs rs @ [\<lparr>ar_pattern = p, ar_prefix = pfx\<rparr>]\<rparr>"
  | (name) c where "\<not> is_regex p" "\<not> is_addr_pattern p" "p \<noteq> []" "compileNamePattern p = Inr c"
      "rs' = ruleSet_add_name rs p c"
proof (cases "is_regex p")
  case True
  then obtain expr where expr: "p = CHR ''~'' # expr" by (auto simp: is_regex_def HasPrefix_iff)
  then have "ruleSet_add re rs pattern =
      (if expr = [] then Inl (ErrNew ''empty regex'')
       else case re (''(?i)^(?:'' @ expr @ '')$'') of Inl e \<Rightarrow> Inl e
         | Inr m \<Rightarrow> Inr (rs\<lparr>rs_names := rs_names rs @ [\<lparr>nr_pattern = CHR ''~'' # expr, nr_match = m\<rparr>]\<rparr>))"
    by (simp add: ruleSet_add_def p_def [symmetric] CutPrefix_def)
  with assms(1) obtain m where "expr \<noteq> []" "re (''(?i)^(?:'' @ expr @ '')$'') = Inr m"
      "rs' = rs\<lparr>rs_names := rs_names rs @ [\<lparr>nr_pattern = CHR ''~'' # expr, nr_match = m\<rparr>]\<rparr>"
    by (auto split: sum.splits if_splits)
  with True expr show thesis by (intro regex) auto
next
  case False
  then have cut: "CutPrefix p ''~'' = (p, False)" by (simp add: is_regex_def CutPrefix_def)
  then have eq: "ruleSet_add re rs pattern =
      (if p = [] then Inl (ErrNew ''empty pattern'')
       else if is_addr_pattern p then
         (case parsePrefix p of
            Inl e \<Rightarrow> Inl (ErrWrap ''not a valid IP or CIDR (hostname patterns can't include a scheme, port or path): %w'' [] e)
          | Inr pfx \<Rightarrow> Inr (rs\<lparr>rs_addrs := rs_addrs rs @ [\<lparr>ar_pattern = p, ar_prefix = pfx\<rparr>]\<rparr>))
       else (case compileNamePattern p of Inl e \<Rightarrow> Inl e | Inr c \<Rightarrow> Inr (ruleSet_add_name rs p c)))"
    using False by (simp add: ruleSet_add_def p_def [symmetric] is_addr_pattern_def)
  show thesis
  proof (cases "is_addr_pattern p")
    case True
    with eq assms(1) obtain pfx where "parsePrefix p = Inr pfx"
        "rs' = rs\<lparr>rs_addrs := rs_addrs rs @ [\<lparr>ar_pattern = p, ar_prefix = pfx\<rparr>]\<rparr>"
      by (auto split: sum.splits if_splits)
    with True show thesis by (rule addr)
  next
    case na: False
    with eq assms(1) obtain c where "p \<noteq> []" "compileNamePattern p = Inr c" "rs' = ruleSet_add_name rs p c"
      by (auto split: sum.splits if_splits)
    with False na show thesis by (intro name)
  qed
qed

lemma ruleSet_add_matchName:
  assumes "ruleSet_add re rs pattern = Inr rs'"
  shows "matchName rs' n = None \<longleftrightarrow> matchName rs n = None \<and> \<not> pattern_spec_name re pattern n"
  using assms
proof (cases rule: ruleSet_add_cases)
  case (regex m)
  then show ?thesis by (auto simp: matchName_None pattern_spec_name_def Let_def)
next
  case (addr pfx)
  then show ?thesis by (auto simp: matchName_None pattern_spec_name_def is_addr_pattern_def Let_def)
next
  case (name c)
  then show ?thesis
    by (simp add: ruleSet_add_name_matches pattern_spec_name_def Let_def)
qed

lemma ruleSet_add_matchAddr:
  assumes "ruleSet_add re rs pattern = Inr rs'"
  shows "matchAddr rs' a = None \<longleftrightarrow> matchAddr rs a = None \<and> \<not> pattern_spec_addr pattern a"
  using assms
  by (cases rule: ruleSet_add_cases)
    (auto simp: matchAddr_def match_addrs_None pattern_spec_addr_def is_addr_pattern_def Let_def)

lemma compileRules_snoc:
  "compileRules re (ps @ [p]) = Inr rs' \<longleftrightarrow> (\<exists>rs. compileRules re ps = Inr rs \<and> ruleSet_add re rs p = Inr rs')"
  unfolding compileRules_def foldM_append by (simp add: rbind_Inr_iff del: foldM.simps)

lemma matchName_empty [simp]: "matchName ruleSet_empty n = None"
  by (simp add: matchName_None ruleSet_empty_def)

lemma compileRules_matchName:
  "compileRules re ps = Inr rs \<Longrightarrow> matchName rs n = None \<longleftrightarrow> (\<forall>p \<in> set ps. \<not> pattern_spec_name re p n)"
proof (induction ps arbitrary: rs rule: rev_induct)
  case Nil
  then show ?case by (auto simp: compileRules_def)
next
  case (snoc p ps)
  then show ?case by (auto simp: compileRules_snoc ruleSet_add_matchName)
qed

lemma compileRules_matchAddr:
  "compileRules re ps = Inr rs \<Longrightarrow> matchAddr rs a = None \<longleftrightarrow> (\<forall>p \<in> set ps. \<not> pattern_spec_addr p a)"
proof (induction ps arbitrary: rs rule: rev_induct)
  case Nil
  then show ?case by (auto simp: compileRules_def matchAddr_def ruleSet_empty_def)
next
  case (snoc p ps)
  then show ?case by (auto simp: compileRules_snoc ruleSet_add_matchAddr)
qed

text \<open>The pattern a match reports is one of the list, and it matches by itself.\<close>

definition reports :: "(string \<Rightarrow> string \<Rightarrow> bool) \<Rightarrow> (string \<Rightarrow> addr \<Rightarrow> bool) \<Rightarrow> ruleSet \<Rightarrow> bool" where
  "reports G H rs \<longleftrightarrow>
     (\<forall>n q. map_of (rs_exact rs) n = Some q \<longrightarrow> G q n) \<and>
     (\<forall>n q d. map_of (rs_suffix rs) d = Some q \<longrightarrow> in_domain n d \<longrightarrow> G q n) \<and>
     (\<forall>r \<in> set (rs_names rs). \<forall>n. nr_match r n \<longrightarrow> G (nr_pattern r) n) \<and>
     (rs_any rs \<noteq> [] \<longrightarrow> (\<forall>n. G (rs_any rs) n)) \<and>
     (\<forall>r \<in> set (rs_addrs rs). \<forall>a. Contains (ar_prefix r) a \<longrightarrow> H (ar_pattern r) a)"

lemma pattern_spec_name_plain:
  "\<not> is_regex (TrimSpace p) \<Longrightarrow> \<not> is_addr_pattern (TrimSpace p) \<Longrightarrow>
   pattern_spec_name re p n \<longleftrightarrow> name_pattern_spec (ToLower (TrimSuffix (TrimSpace p) ''.'')) n"
  by (simp add: pattern_spec_name_def Let_def)

lemma reports_add:
  assumes "ruleSet_add re rs p = Inr rs'" and old: "reports G H rs"
    and G: "\<And>n. pattern_spec_name re p n \<Longrightarrow> G (TrimSpace p) n"
    and H: "\<And>a. pattern_spec_addr p a \<Longrightarrow> H (TrimSpace p) a"
  shows "reports G H rs'"
  using assms(1)
proof (cases rule: ruleSet_add_cases)
  case (regex m)
  then have "m n \<Longrightarrow> G (TrimSpace p) n" for n using G by (simp add: pattern_spec_name_def Let_def)
  with regex(4) old show ?thesis by (auto simp: reports_def)
next
  case (addr pfx)
  then have "Contains pfx a \<Longrightarrow> H (TrimSpace p) a" for a using H by (simp add: pattern_spec_addr_def Let_def)
  with addr(3) old show ?thesis by (auto simp: reports_def)
next
  case (name c)
  obtain kind nm m where c: "c = (kind, nm, m)" by (cases c)
  note cases = compileNamePattern_cases [OF name(4) [unfolded c]]
  have spec: "G (TrimSpace p) n" if "name_pattern_spec (ToLower (TrimSuffix (TrimSpace p) ''.'')) n" for n
    using G that pattern_spec_name_plain [OF name(1,2)] by blast
  show ?thesis
  proof (cases kind)
    case exactName
    then have "G (TrimSpace p) nm" using cases spec by (auto simp: name_pattern_spec_def)
    then show ?thesis using old exactName name(5)
      by (auto simp: c reports_def ruleSet_add_name_def map_of_map_add_new split: option.splits if_splits)
  next
    case domainSuffix
    then have "G (TrimSpace p) n" if "in_domain n nm" for n
      using cases spec that by (auto simp: name_pattern_spec_def)
    then show ?thesis using old domainSuffix name(5)
      by (auto simp: c reports_def ruleSet_add_name_def map_of_map_add_new split: option.splits if_splits)
  next
    case anyName
    then have "G (TrimSpace p) n" for n using cases spec by (auto simp: name_pattern_spec_def)
    then show ?thesis using old anyName name(5) by (auto simp: c reports_def ruleSet_add_name_def)
  next
    case wildcard
    then obtain f where "m = Some f" "\<And>n. f n \<Longrightarrow> G (TrimSpace p) n" using cases spec by auto
    then show ?thesis using old wildcard name(5) by (auto simp: c reports_def ruleSet_add_name_def)
  qed
qed

lemma compileRules_reports:
  assumes "compileRules re ps = Inr rs"
  shows "reports (\<lambda>q n. \<exists>p \<in> set ps. TrimSpace p = q \<and> pattern_spec_name re p n)
                 (\<lambda>q a. \<exists>p \<in> set ps. TrimSpace p = q \<and> pattern_spec_addr p a) rs"
  using assms unfolding compileRules_def
proof (rule foldM_invariant)
  fix rs p rs'
  assume "p \<in> set ps" "wrap_err (ErrWrap ''%q: %w'' [p]) (ruleSet_add re rs p) = Inr rs'"
    and "reports (\<lambda>q n. \<exists>p \<in> set ps. TrimSpace p = q \<and> pattern_spec_name re p n)
                 (\<lambda>q a. \<exists>p \<in> set ps. TrimSpace p = q \<and> pattern_spec_addr p a) rs"
  then show "reports (\<lambda>q n. \<exists>p \<in> set ps. TrimSpace p = q \<and> pattern_spec_name re p n)
                 (\<lambda>q a. \<exists>p \<in> set ps. TrimSpace p = q \<and> pattern_spec_addr p a) rs'"
    by (auto intro: reports_add)
qed (simp add: reports_def ruleSet_empty_def)

lemma reports_matchName:
  assumes "reports G H rs" "matchName rs n = Some q"
  shows "G q n"
proof -
  consider "map_of (rs_exact rs) n = Some q" | d where "in_domain n d" "map_of (rs_suffix rs) d = Some q"
    | r where "r \<in> set (rs_names rs)" "nr_match r n" "nr_pattern r = q" | "rs_any rs \<noteq> []" "rs_any rs = q"
    using assms(2) unfolding matchName_def
    by (auto split: option.splits if_splits dest!: match_names_Some simp: matchSuffix_Some)
  then show ?thesis using assms(1) unfolding reports_def by cases blast+
qed

lemma reports_matchAddr: "reports G H rs \<Longrightarrow> matchAddr rs a = Some q \<Longrightarrow> H q a"
  by (auto simp: reports_def matchAddr_def dest!: match_addrs_Some)

section \<open>Ports\<close>

lemma length_itoa_le: "n < 10 ^ k \<Longrightarrow> 0 < k \<Longrightarrow> length (itoa n) \<le> k"
proof (induction k arbitrary: n)
  case (Suc k)
  show ?case
  proof (cases "n < 10")
    case False
    with Suc.prems have "0 < k" by (cases k) auto
    moreover have "n div 10 < 10 ^ k" using Suc.prems by (simp add: less_mult_imp_div_less mult.commute)
    ultimately show ?thesis using Suc.IH False by (simp add: itoa_step)
  qed simp
qed simp

lemma parsePort_iff: "parsePort s = Inr p \<longleftrightarrow> p \<noteq> 0 \<and> s = itoa (unat p)"
proof
  assume "parsePort s = Inr p"
  then have s: "s \<noteq> []" "hd s \<noteq> CHR ''0''" "list_all is_digit s" "digits_val s \<le> 65535" "0 < digits_val s"
      "p = of_nat (digits_val s)"
    by (auto simp: parsePort_def atoi_unsigned_def split: if_splits option.splits)
  then have "unat p = digits_val s" by (simp add: unat_of_nat)
  then show "p \<noteq> 0 \<and> s = itoa (unat p)"
    using s itoa_digits_val by (metis less_irrefl unat_0)
next
  assume p: "p \<noteq> 0 \<and> s = itoa (unat p)"
  have lt: "unat p < 65536" using unsigned_less [of p] by simp
  have pos: "0 < unat p" using p by (simp add: unat_gt_0)
  have "length s \<le> 5" using p lt length_itoa_le [of "unat p" 5] by simp
  then show "parsePort s = Inr p"
    using p pos lt hd_itoa [OF pos] itoa_digits [of "unat p"]
    by (simp add: parsePort_def atoi_unsigned_def)
qed

lemma parsePortRange_ok:
  assumes "parsePortRange s = Inr r"
  shows "0 < pr_lo r \<and> pr_lo r \<le> pr_hi r \<and>
     TrimSpace s = itoa (unat (pr_lo r)) @ (if CHR ''-'' \<in> set (TrimSpace s) then CHR ''-'' # itoa (unat (pr_hi r)) else []) \<and>
     (CHR ''-'' \<notin> set (TrimSpace s) \<longrightarrow> pr_hi r = pr_lo r)"
proof -
  obtain loS hiS rng where cut: "Cut (TrimSpace s) CHR ''-'' = (loS, hiS, rng)" by (cases "Cut (TrimSpace s) CHR ''-''")
  show ?thesis
  proof (cases rng)
    case True
    then have "TrimSpace s = loS @ CHR ''-'' # hiS" using cut IndexByte_split(1)
      by (auto simp: Cut_def split: option.splits)
    with assms cut True show ?thesis
      by (auto simp: parsePortRange_def parsePort_iff word_gt_0 not_less split: sum.splits if_splits)
  next
    case False
    then have "TrimSpace s = loS" "CHR ''-'' \<notin> set loS" using cut by (auto simp: Cut_def split: option.splits)
    with assms cut False show ?thesis
      by (auto simp: parsePortRange_def parsePort_iff word_gt_0 split: sum.splits if_splits)
  qed
qed

section \<open>Prefixes\<close>

lemma PrefixFrom_valid:
  "IsValid a \<Longrightarrow> n \<le> BitLen a \<Longrightarrow> PrefixFrom a n = \<lparr>pfx_addr = withoutZone a, pfx_bits = Some n\<rparr>"
  by (simp add: PrefixFrom_def)

lemma parseIPv4_valid: "parseIPv4 s = Inr a \<Longrightarrow> Is4 a"
  by (auto simp: parseIPv4_def rbind_Inr_iff)

lemma parseIPv6_valid: "parseIPv6 s = Inr a \<Longrightarrow> Is6 a"
  by (auto simp: parseIPv6_def rbind_Inr_iff split: prod.splits if_splits)

lemma ParseAddr_valid: "ParseAddr s = Inr a \<Longrightarrow> IsValid a"
  using parseIPv4_valid [of s a] parseIPv6_valid [of s a]
  by (cases a) (auto simp: ParseAddr_def split: option.splits if_splits)

lemma ParsePrefix_from:
  "ParsePrefix s = Inr p \<Longrightarrow> \<exists>a n. IsValid a \<and> Zone a = [] \<and> n \<le> BitLen a \<and> p = PrefixFrom a n"
  using ParseAddr_valid
  by (auto simp: ParsePrefix_def Let_def not_less split: option.splits sum.splits if_splits)
    (metis Zone.simps(2,3) Is6.elims(3))+

lemma checkPrefix_iff: "checkPrefix p = Inr q \<longleftrightarrow> q = p \<and> \<not> Is4In6 (pfx_addr p) \<and> Masked p = p"
  by (auto simp: checkPrefix_def)

lemma parsePrefix_wf:
  assumes "parsePrefix s = Inr p"
  shows "prefix_wf p \<and> \<not> Is4In6 (pfx_addr p)"
proof -
  obtain a n where a: "IsValid a" "Zone a = []" "n \<le> BitLen a" "checkPrefix (PrefixFrom a n) = Inr p"
    using assms ParseAddr_valid
    by (fastforce simp: parsePrefix_def Let_def split: sum.splits if_splits dest!: ParsePrefix_from)
  then show ?thesis by (auto simp: checkPrefix_iff prefix_wf_def PrefixFrom_valid)
qed

section \<open>Non-public ranges\<close>

lemma nonPublic_parses:
  "nonPublic_init = Inr [
    \<lparr>pfx_addr = Addr4 0x00000000, pfx_bits = Some 8\<rparr>, \<lparr>pfx_addr = Addr4 0x0a000000, pfx_bits = Some 8\<rparr>,
    \<lparr>pfx_addr = Addr4 0x64400000, pfx_bits = Some 10\<rparr>, \<lparr>pfx_addr = Addr4 0x7f000000, pfx_bits = Some 8\<rparr>,
    \<lparr>pfx_addr = Addr4 0xa9fe0000, pfx_bits = Some 16\<rparr>, \<lparr>pfx_addr = Addr4 0xac100000, pfx_bits = Some 12\<rparr>,
    \<lparr>pfx_addr = Addr4 0xc0000000, pfx_bits = Some 24\<rparr>, \<lparr>pfx_addr = Addr4 0xc0586300, pfx_bits = Some 24\<rparr>,
    \<lparr>pfx_addr = Addr4 0xc0a80000, pfx_bits = Some 16\<rparr>, \<lparr>pfx_addr = Addr4 0xc6120000, pfx_bits = Some 15\<rparr>,
    \<lparr>pfx_addr = Addr4 0xe0000000, pfx_bits = Some 4\<rparr>, \<lparr>pfx_addr = Addr4 0xf0000000, pfx_bits = Some 4\<rparr>,
    \<lparr>pfx_addr = Addr6 0 [], pfx_bits = Some 96\<rparr>, \<lparr>pfx_addr = Addr6 0xffff00000000 [], pfx_bits = Some 96\<rparr>,
    \<lparr>pfx_addr = Addr6 0x0064ff9b000000000000000000000000 [], pfx_bits = Some 96\<rparr>,
    \<lparr>pfx_addr = Addr6 0x0064ff9b000100000000000000000000 [], pfx_bits = Some 48\<rparr>,
    \<lparr>pfx_addr = Addr6 0x20010000000000000000000000000000 [], pfx_bits = Some 32\<rparr>,
    \<lparr>pfx_addr = Addr6 0x20020000000000000000000000000000 [], pfx_bits = Some 16\<rparr>,
    \<lparr>pfx_addr = Addr6 0xfc000000000000000000000000000000 [], pfx_bits = Some 7\<rparr>,
    \<lparr>pfx_addr = Addr6 0xfe800000000000000000000000000000 [], pfx_bits = Some 10\<rparr>,
    \<lparr>pfx_addr = Addr6 0xfec00000000000000000000000000000 [], pfx_bits = Some 10\<rparr>,
    \<lparr>pfx_addr = Addr6 0xff000000000000000000000000000000 [], pfx_bits = Some 8\<rparr>]"
  by (simp add: nonPublic_init_def nonPublic_cidrs_def eval_simps)

text \<open>The IPv4 ranges as half-open intervals of 32-bit numbers.\<close>

definition nonpublic4 :: "(nat \<times> nat) list" where
  "nonpublic4 =
     [(0x00000000, 0x01000000), (0x0a000000, 0x0b000000), (0x64400000, 0x64800000),
      (0x7f000000, 0x80000000), (0xa9fe0000, 0xa9ff0000), (0xac100000, 0xac200000),
      (0xc0000000, 0xc0000100), (0xc0586300, 0xc0586400), (0xc0a80000, 0xc0a90000),
      (0xc6120000, 0xc6140000), (0xe0000000, 0xf0000000), (0xf0000000, 0x100000000)]"

lemma div_eq_interval: "0 < d \<Longrightarrow> (x::nat) div d = q \<longleftrightarrow> q * d \<le> x \<and> x < q * d + d"
  by (metis add.commute div_nat_eqI div_times_less_eq_dividend dividend_less_div_times mult.commute mult_Suc)

lemma drop_bit_word_interval:
  "drop_bit k (a::32 word) = q \<longleftrightarrow> unat q * 2 ^ k \<le> unat a \<and> unat a < unat q * 2 ^ k + 2 ^ k"
  by (simp only: word_unat_eq_iff unat_drop_bit) (rule div_eq_interval, simp)

lemma isPublic_4:
  "isPublic (Addr4 a) \<longleftrightarrow> (\<forall>(lo, hi) \<in> set nonpublic4. \<not> (lo \<le> unat a \<and> unat a < hi))"
  by (simp add: isPublic_def nonPublic_def nonPublic_parses nonpublic4_def drop_bit_word_interval)

lemma isPublic_6_embedded:
  assumes "isPublic (Addr6 a [])"
  shows "drop_bit 32 a \<noteq> 0" "drop_bit 32 a \<noteq> 0xffff" "drop_bit 32 a \<noteq> 0x0064ff9b0000000000000000"
    "drop_bit 80 a \<noteq> 0x0064ff9b0001" "drop_bit 96 a \<noteq> 0x20010000" "drop_bit 112 a \<noteq> 0x2002"
  using assms by (auto simp: isPublic_def nonPublic_def nonPublic_parses)

section \<open>Hosts\<close>

definition label_ok :: "bool \<Rightarrow> string \<Rightarrow> bool" where
  "label_ok wild l \<longleftrightarrow> l \<noteq> [] \<and> length l \<le> 63 \<and> (CHR ''*'' \<in> set l \<longrightarrow> wild) \<and>
     hd l \<noteq> CHR ''-'' \<and> last l \<noteq> CHR ''-''"

lemma validate_labels_Inr:
  "validate_labels wild ls b = Inr r \<longleftrightarrow>
     list_all (label_ok wild) ls \<and> r = (b \<and> (\<forall>l \<in> set ls. isNumeric l \<or> l = ''*''))"
  by (induction ls arbitrary: b) (auto simp: label_ok_def ContainsByte_def not_less)

lemma validateHostname_iff:
  "validateHostname name wild = Inr () \<longleftrightarrow>
     name \<noteq> [] \<and> length name \<le> 253 \<and> list_all (label_ok wild) (Split CHR ''.'' name) \<and>
     \<not> isNumeric (last (Split CHR ''.'' name)) \<and>
     (wild \<longrightarrow> (\<exists>l \<in> set (Split CHR ''.'' name). \<not> isNumeric l \<and> l \<noteq> ''*''))"
proof -
  have "(\<exists>r. validate_labels wild (Split CHR ''.'' name) True = Inr r \<and> (wild \<longrightarrow> \<not> r)) \<longleftrightarrow>
      list_all (label_ok wild) (Split CHR ''.'' name) \<and>
      (wild \<longrightarrow> (\<exists>l \<in> set (Split CHR ''.'' name). \<not> isNumeric l \<and> l \<noteq> ''*''))"
    by (auto simp: validate_labels_Inr)
  moreover have "validateHostname name wild = Inr () \<longleftrightarrow>
      name \<noteq> [] \<and> length name \<le> 253 \<and> \<not> isNumeric (last (Split CHR ''.'' name)) \<and>
      (\<exists>r. validate_labels wild (Split CHR ''.'' name) True = Inr r \<and> (wild \<longrightarrow> \<not> r))"
    by (auto simp: validateHostname_def Let_def split: sum.splits if_splits)
  ultimately show ?thesis by blast
qed

definition host_wf :: "string \<Rightarrow> bool" where
  "host_wf name \<longleftrightarrow> checkHostChars name False = Inr () \<and> ToLower name = name \<and> validateHostname name False = Inr ()"

definition dest_wf :: "destination \<Rightarrow> bool" where
  "dest_wf d \<longleftrightarrow>
     (dst_name d = [] \<and> IsValid (dst_addr d) \<and> Zone (dst_addr d) = [] \<and> \<not> Is4In6 (dst_addr d)) \<or>
     (dst_addr d = AddrZero \<and> host_wf (dst_name d))"

lemma Zone_Unmap: "Zone a = [] \<Longrightarrow> Zone (Unmap a) = []"
  by (cases a) auto

lemma checkHostChars_normalize:
  "checkHostChars h False = Inr () \<Longrightarrow> checkHostChars (ToLower (TrimSuffix h ''.'')) False = Inr ()"
  using set_TrimSuffix [of h "''.''"] by (auto simp: checkHostChars_ok ToLower_def host_char_lower subset_iff)

lemma parseHost_wf:
  assumes "parseHost h = Inr d"
  shows "dest_wf d"
  using assms ParseAddr_valid checkHostChars_normalize [of h]
  by (auto simp: parseHost_def dest_wf_def host_wf_def Let_def Zone_Unmap split: sum.splits if_splits)

lemma dest_wf_exclusive: "dest_wf d \<Longrightarrow> IsValid (dst_addr d) \<longleftrightarrow> dst_name d = []"
  by (auto simp: dest_wf_def host_wf_def validateHostname_iff)

lemma parseIPv4_loop_chars:
  "parseIPv4_loop s prev val n fs = Inr r \<Longrightarrow>
   (\<forall>c \<in> set s. is_digit c \<or> c = CHR ''.'') \<and> (s \<noteq> [] \<longrightarrow> last s \<noteq> CHR ''.'')"
  by (induction s prev val n fs rule: parseIPv4_loop.induct) (auto split: if_splits simp: is_digit_def between_def)

lemma isNumeric_digits: "l \<noteq> [] \<Longrightarrow> list_all is_digit l \<Longrightarrow> isNumeric l"
proof -
  assume l: "l \<noteq> []" "list_all is_digit l"
  have "\<not> HasPrefix l ''0x''"
    using l(2) by (auto simp: HasPrefix_iff is_digit_def between_def)
  then show ?thesis using l by (simp add: isNumeric_def CutPrefix_def)
qed

text \<open>An accepted host name is not an IP address in any notation the parser knows.\<close>

lemma ParseAddr_host:
  assumes "host_wf name"
  shows "\<exists>e. ParseAddr name = Inl e"
proof (rule ccontr)
  assume "\<nexists>e. ParseAddr name = Inl e"
  then obtain a where a: "ParseAddr name = Inr a" by (cases "ParseAddr name") auto
  have chars: "\<forall>c \<in> set name. host_char c" using assms by (auto simp: host_wf_def checkHostChars_ok)
  obtain c where c: "List.find (\<lambda>c. c \<in> set ''.:%'') name = Some c"
    using a by (auto simp: ParseAddr_def split: option.splits)
  then have "c \<in> set name" "c \<in> set ''.:%''" by (auto simp: find_Some_iff simp del: list.set)
  with chars have "c = CHR ''.''" by (auto simp: host_char_def between_def is_digit_def)
  then obtain fs where "parseIPv4_loop name None 0 0 [] = Inr fs"
    using a c by (auto simp: ParseAddr_def parseIPv4_def parseIPv4Fields_def rbind_Inr_iff)
  then have digits: "\<forall>c \<in> set name. is_digit c \<or> c = CHR ''.''" using parseIPv4_loop_chars by blast
  let ?l = "last (Split CHR ''.'' name)"
  have l: "?l \<in> set (Split CHR ''.'' name)" by simp
  have "?l \<noteq> []" "\<not> isNumeric ?l"
    using assms l by (auto simp: host_wf_def validateHostname_iff list_all_iff label_ok_def)
  moreover have "list_all is_digit ?l"
    using digits set_Split [OF l] Split_no_sep [OF l] by (auto simp: list_all_iff)
  ultimately show False using isNumeric_digits by blast
qed

lemma host_wf_no_trailing_dot:
  assumes "host_wf name"
  shows "TrimSuffix name ''.'' = name"
proof (rule ccontr)
  assume "TrimSuffix name ''.'' \<noteq> name"
  then obtain t where "name = t @ ''.''" using TrimSuffix_cases [of name "''.''"] by auto
  then have "[] \<in> set (Split CHR ''.'' name)" using Split_append [of "CHR ''.''" t "[]"] by simp
  then show False using assms by (auto simp: host_wf_def validateHostname_iff list_all_iff label_ok_def)
qed

lemma parseHost_host_wf:
  assumes "host_wf name"
  shows "parseHost name = Inr \<lparr>dst_name = name, dst_addr = AddrZero\<rparr>"
  using ParseAddr_host [OF assms] host_wf_no_trailing_dot [OF assms] assms
  by (auto simp: parseHost_def host_wf_def)

section \<open>Rule lists as an interface\<close>

text \<open>
  What a user of a compiled rule list relies on: a list compiles when each of its patterns
  does, a question is answered when some pattern of the list means it, and the answer names
  a pattern of the list that means it by itself.
\<close>

locale rule_list =
  fixes compile :: "'p list \<Rightarrow> 'rs result"
    and hits :: "'rs \<Rightarrow> 'q \<Rightarrow> 'p option"
    and means :: "'p \<Rightarrow> 'q \<Rightarrow> bool"
    and shown :: "'p \<Rightarrow> 'p"
  assumes compile_each: "(\<exists>rs. compile ps = Inr rs) \<longleftrightarrow> (\<forall>p \<in> set ps. \<exists>rs. compile [p] = Inr rs)"
    and hit_iff: "compile ps = Inr rs \<Longrightarrow> hits rs q = None \<longleftrightarrow> (\<forall>p \<in> set ps. \<not> means p q)"
    and hit_shown: "compile ps = Inr rs \<Longrightarrow> hits rs q = Some r \<Longrightarrow> \<exists>p \<in> set ps. shown p = r \<and> means p q"
begin

lemma same_rules:
  assumes "set ps = set ps'" "compile ps = Inr rs"
  shows "\<exists>rs'. compile ps' = Inr rs' \<and> (\<forall>q. hits rs' q = None \<longleftrightarrow> hits rs q = None)"
proof -
  from assms compile_each [of ps] compile_each [of ps'] obtain rs' where "compile ps' = Inr rs'" by auto
  then show ?thesis using assms hit_iff by auto
qed

lemma sub_rules:
  assumes "set ps \<subseteq> set ps'" "compile ps' = Inr rs'"
  shows "\<exists>rs. compile ps = Inr rs \<and> (\<forall>q. hits rs q \<noteq> None \<longrightarrow> hits rs' q \<noteq> None)"
proof -
  from assms compile_each [of ps] compile_each [of ps'] obtain rs where "compile ps = Inr rs" by blast
  then show ?thesis using assms(1) hit_iff [of ps rs] hit_iff [OF assms(2)] by (intro exI [of _ rs]) auto
qed

lemma append_rules:
  assumes "compile ps = Inr rs" "compile ps' = Inr rs'"
  shows "\<exists>rs2. compile (ps @ ps') = Inr rs2 \<and> (\<forall>q. hits rs2 q = None \<longleftrightarrow> hits rs q = None \<and> hits rs' q = None)"
proof -
  from assms compile_each [of ps] compile_each [of ps'] compile_each [of "ps @ ps'"]
  obtain rs2 where rs2: "compile (ps @ ps') = Inr rs2" by auto
  then show ?thesis using hit_iff [OF rs2] hit_iff [OF assms(1)] hit_iff [OF assms(2)]
    by (intro exI [of _ rs2]) auto
qed

end

lemma ruleSet_add_ok_any: "(\<exists>r. ruleSet_add re rs p = Inr r) \<longleftrightarrow> (\<exists>r. ruleSet_add re rs' p = Inr r)"
  by (auto simp: ruleSet_add_def Let_def split: prod.splits bool.splits if_splits sum.splits)

lemma compileRules_each:
  "(\<exists>rs. compileRules re ps = Inr rs) \<longleftrightarrow> (\<forall>p \<in> set ps. \<exists>rs. compileRules re [p] = Inr rs)"
proof (induction ps rule: rev_induct)
  case Nil
  then show ?case by (simp add: compileRules_def)
next
  case (snoc p ps)
  have "(\<exists>rs. compileRules re (ps @ [p]) = Inr rs) \<longleftrightarrow>
      (\<exists>rs. compileRules re ps = Inr rs) \<and> (\<exists>r. ruleSet_add re ruleSet_empty p = Inr r)"
    using ruleSet_add_ok_any [of re _ p ruleSet_empty] by (auto simp: compileRules_snoc)
  moreover have "(\<exists>rs. compileRules re [p] = Inr rs) \<longleftrightarrow> (\<exists>r. ruleSet_add re ruleSet_empty p = Inr r)"
    unfolding compileRules_def foldM_single by simp
  ultimately show ?case using snoc by auto
qed

interpretation names: rule_list "compileRules re" matchName "pattern_spec_name re" TrimSpace for re
proof unfold_locales
  show "(\<exists>rs. compileRules re ps = Inr rs) \<longleftrightarrow> (\<forall>p \<in> set ps. \<exists>rs. compileRules re [p] = Inr rs)" for ps
    by (rule compileRules_each)
next
  fix ps rs n
  assume rs: "compileRules re ps = Inr rs"
  then show "matchName rs n = None \<longleftrightarrow> (\<forall>p \<in> set ps. \<not> pattern_spec_name re p n)"
    by (rule compileRules_matchName)
  show "\<exists>p \<in> set ps. TrimSpace p = r \<and> pattern_spec_name re p n" if "matchName rs n = Some r" for r
    using reports_matchName [OF compileRules_reports [OF rs] that] by blast
qed

interpretation addrs: rule_list "compileRules re" matchAddr pattern_spec_addr TrimSpace for re
proof unfold_locales
  fix ps rs a
  assume rs: "compileRules re ps = Inr rs"
  then show "matchAddr rs a = None \<longleftrightarrow> (\<forall>p \<in> set ps. \<not> pattern_spec_addr p a)"
    by (rule compileRules_matchAddr)
  show "\<exists>p \<in> set ps. TrimSpace p = r \<and> pattern_spec_addr p a" if "matchAddr rs a = Some r" for r
    using reports_matchAddr [OF compileRules_reports [OF rs] that] by blast
qed (rule compileRules_each)

section \<open>Specificity\<close>

text \<open>
  Which rule is reported: an exact name before a domain, the longest domain before a shorter
  one, a domain before a wildcard or regex, and the catch-all last.
\<close>

lemma matchName_exact: "map_of (rs_exact rs) n = Some p \<Longrightarrow> matchName rs n = Some p"
  by (simp add: matchName_def)

lemma matchName_suffix:
  assumes "map_of (rs_exact rs) n = None" "in_domain n d" "map_of (rs_suffix rs) d = Some p"
    and "\<And>e. in_domain n e \<Longrightarrow> map_of (rs_suffix rs) e \<noteq> None \<Longrightarrow> length e \<le> length d"
  shows "matchName rs n = Some p"
proof -
  have "matchSuffix (rs_suffix rs) n = Some p" using assms(2-4) by (auto simp: matchSuffix_Some)
  moreover have "rs_suffix rs \<noteq> []" using assms(3) by auto
  ultimately show ?thesis using assms(1) by (simp add: matchName_def)
qed

lemma matchName_names:
  assumes "map_of (rs_exact rs) n = None" "\<And>d. in_domain n d \<Longrightarrow> map_of (rs_suffix rs) d = None"
    "match_names (rs_names rs) n = Some p"
  shows "matchName rs n = Some p"
  using assms matchSuffix_None [of "rs_suffix rs" n] by (simp add: matchName_def)

lemma map_of_map_add_new_Some [simp]: "map_of m k = Some p \<Longrightarrow> map_of (map_add_new m k' p') k = Some p"
  by (simp add: map_of_map_add_new)

lemma map_of_map_add_new_same: "\<exists>q. map_of (map_add_new m k p) k = Some q"
  by (auto simp: map_of_map_add_new split: option.splits)

text \<open>Adding patterns never removes or replaces an entry of the two maps.\<close>

lemma ruleSet_add_keeps:
  assumes "ruleSet_add re rs p = Inr rs'"
  shows "map_of (rs_exact rs) n = Some q \<Longrightarrow> map_of (rs_exact rs') n = Some q"
    "map_of (rs_suffix rs) n = Some q \<Longrightarrow> map_of (rs_suffix rs') n = Some q"
  using assms
  by (cases rule: ruleSet_add_cases;
      auto simp: ruleSet_add_name_def split: prod.splits patternKind.splits option.splits)+

text \<open>What a plain name pattern adds to a rule set.\<close>

lemma compileNamePattern_exact:
  assumes "compileNamePattern p = Inr c" "ToLower (TrimSuffix p ''.'') = n" "\<not> HasPrefix n ''.''" "CHR ''*'' \<notin> set n"
  shows "c = (exactName, n, None)"
proof -
  have "n \<noteq> ''*''" using assms(4) by auto
  then show ?thesis using assms
    by (auto simp: compileNamePattern_def CutPrefix_def ContainsByte_def Let_def split: sum.splits if_splits)
qed

text \<open>A name listed by itself is always reported by the first pattern that lists it.\<close>

definition lists_name :: "string \<Rightarrow> string \<Rightarrow> bool" where
  "lists_name p n \<longleftrightarrow> \<not> is_regex (TrimSpace p) \<and> \<not> is_addr_pattern (TrimSpace p) \<and>
     ToLower (TrimSuffix (TrimSpace p) ''.'') = n \<and> \<not> HasPrefix n ''.'' \<and> CHR ''*'' \<notin> set n"

lemma ruleSet_add_lists:
  assumes "ruleSet_add re rs p = Inr rs'"
  shows "map_of (rs_exact rs') n =
     (case map_of (rs_exact rs) n of Some q \<Rightarrow> Some q | None \<Rightarrow> if lists_name p n then Some (TrimSpace p) else None)"
  using assms
proof (cases rule: ruleSet_add_cases)
  case (name c)
  obtain kind nm m where c: "c = (kind, nm, m)" by (cases c)
  have k: "case kind of exactName \<Rightarrow> lists_name p n = (n = nm) | _ \<Rightarrow> \<not> lists_name p n"
    using compileNamePattern_cases [OF name(4) [unfolded c]] name(1,2)
      compileNamePattern_exact [OF name(4) refl]
    by (cases kind) (auto simp: lists_name_def c)
  then show ?thesis using name(5)
    by (cases kind) (auto simp: c ruleSet_add_name_def map_of_map_add_new split: option.splits if_splits)
qed (auto simp: lists_name_def is_addr_pattern_def split: option.splits)

lemma compileRules_exact:
  "compileRules re ps = Inr rs \<Longrightarrow>
   map_of (rs_exact rs) n = map_option TrimSpace (List.find (\<lambda>p. lists_name p n) ps)"
proof (induction ps arbitrary: rs rule: rev_induct)
  case Nil
  then show ?case by (auto simp: compileRules_def ruleSet_empty_def)
next
  case (snoc p ps)
  then obtain rs0 where rs0: "compileRules re ps = Inr rs0" "ruleSet_add re rs0 p = Inr rs" by (auto simp: compileRules_snoc)
  have "List.find P (xs @ [x]) = (case List.find P xs of None \<Rightarrow> if P x then Some x else None | Some y \<Rightarrow> Some y)"
    for P and xs and x :: string by (induction xs) auto
  then show ?case using snoc.IH [OF rs0(1)] ruleSet_add_lists [OF rs0(2), of n]
    by (auto split: option.splits)
qed

section \<open>Wildcards by labels\<close>

lemma Split_dotted:
  "\<forall>l \<in> set ls. is_label l \<Longrightarrow> Split CHR ''.'' (dotted ls @ t) = ls @ Split CHR ''.'' t"
  by (induction ls) (auto simp: dotted_def is_label_def)

lemma subdomain_glob_labels:
  "subdomain_glob p s \<longleftrightarrow>
     (\<exists>ls ts. ls \<noteq> [] \<and> [] \<notin> set ls \<and> Split CHR ''.'' s = ls @ ts \<and> list_all2 glob (Split CHR ''.'' p) ts)"
proof
  assume "subdomain_glob p s"
  then obtain ls t where "ls \<noteq> []" "\<forall>l \<in> set ls. is_label l" "s = dotted ls @ t" "glob p t"
    unfolding subdomain_glob_def by blast
  moreover from this have "[] \<notin> set ls" "Split CHR ''.'' s = ls @ Split CHR ''.'' t"
    by (auto simp: Split_dotted) (auto simp: is_label_def)
  ultimately show "\<exists>ls ts. ls \<noteq> [] \<and> [] \<notin> set ls \<and> Split CHR ''.'' s = ls @ ts \<and> list_all2 glob (Split CHR ''.'' p) ts"
    unfolding glob_labels [of p t] by blast
next
  assume "\<exists>ls ts. ls \<noteq> [] \<and> [] \<notin> set ls \<and> Split CHR ''.'' s = ls @ ts \<and> list_all2 glob (Split CHR ''.'' p) ts"
  then obtain ls ts where l: "ls \<noteq> []" "[] \<notin> set ls" "Split CHR ''.'' s = ls @ ts" "list_all2 glob (Split CHR ''.'' p) ts"
    by blast
  have labels: "\<forall>l \<in> set ls. is_label l" using l(2,3) Split_no_sep [of _ "CHR ''.''" s] by (auto simp: is_label_def)
  have ts: "ts \<noteq> []" using l(4) by auto
  have "\<forall>l \<in> set ts. CHR ''.'' \<notin> set l" using l(3) Split_no_sep [of _ "CHR ''.''" s] by auto
  then have t: "Split CHR ''.'' (Join [CHR ''.''] ts) = ts" using ts by (simp add: Split_Join)
  have "s = Join [CHR ''.''] (ls @ ts)" using Join_Split [of "CHR ''.''" s] l(3) by simp
  also have "\<dots> = Join [CHR ''.''] (Split CHR ''.'' (dotted ls @ Join [CHR ''.''] ts))" using t Split_dotted [OF labels] by simp
  finally have "s = dotted ls @ Join [CHR ''.''] ts" by (simp only: Join_Split)
  then show "subdomain_glob p s" unfolding subdomain_glob_def
    using l(1,4) labels glob_labels [of p "Join [CHR ''.''] ts"] t by auto
qed

text \<open>Printable ASCII text without blanks is not changed by trimming.\<close>

lemma trim_fuel_id:
  assumes "\<forall>r \<in> set runes. r \<noteq> [] \<and> \<not> (32 < byte (hd r) \<and> byte (hd r) < 128)" "\<forall>c \<in> set s. 32 < byte c \<and> byte c < 128"
  shows "trim_fuel n runes s = s"
proof -
  have "\<not> HasPrefix s r" if "r \<in> set runes" for r
    using assms that by (cases r; cases s) auto
  then have "List.find (HasPrefix s) runes = None" by (simp add: find_None_iff)
  then have "lead_space runes s = 0" by (simp add: lead_space_def)
  then show ?thesis by (cases n) auto
qed

lemma space_runes_ends:
  "\<forall>r \<in> set space_runes. r \<noteq> [] \<and> \<not> (32 < byte (hd r) \<and> byte (hd r) < 128)"
  "\<forall>r \<in> set (map rev space_runes). r \<noteq> [] \<and> \<not> (32 < byte (hd r) \<and> byte (hd r) < 128)"
  by (simp_all add: space_runes_def bytes_def)

lemma TrimSpace_ascii:
  assumes "\<forall>c \<in> set s. 32 < byte c \<and> byte c < 128"
  shows "TrimSpace s = s"
  using assms space_runes_ends by (simp add: TrimSpace_def trim_fuel_id del: set_map)

lemma parsePortRange_iff:
  "parsePortRange s = Inr r \<longleftrightarrow>
     0 < pr_lo r \<and> pr_lo r \<le> pr_hi r \<and>
     (TrimSpace s = itoa (unat (pr_lo r)) @ CHR ''-'' # itoa (unat (pr_hi r)) \<or>
      TrimSpace s = itoa (unat (pr_lo r)) \<and> pr_hi r = pr_lo r)"
    (is "?L \<longleftrightarrow> ?R")
proof
  assume ?L
  from parsePortRange_ok [OF this] show ?R by (metis append_Nil2)
next
  have nodash: "CHR ''-'' \<notin> set (itoa n)" for n
    using set_itoa [of "CHR ''-''" n] by (auto simp: is_digit_def between_def)
  assume ?R
  then have lo: "parsePort (itoa (unat (pr_lo r))) = Inr (pr_lo r)" and hi: "parsePort (itoa (unat (pr_hi r))) = Inr (pr_hi r)"
    and le: "\<not> pr_hi r < pr_lo r"
    by (simp_all only: parsePort_iff word_gt_0 not_less) auto
  from \<open>?R\<close> consider (range) "TrimSpace s = itoa (unat (pr_lo r)) @ CHR ''-'' # itoa (unat (pr_hi r))"
    | (single) "TrimSpace s = itoa (unat (pr_lo r))" "pr_hi r = pr_lo r" by blast
  then show ?L
  proof cases
    case range
    then have "Cut (TrimSpace s) CHR ''-'' = (itoa (unat (pr_lo r)), itoa (unat (pr_hi r)), True)"
      using nodash by (simp add: Cut_def)
    then show ?thesis using lo hi le by (simp add: parsePortRange_def)
  next
    case single
    then have "Cut (TrimSpace s) CHR ''-'' = (itoa (unat (pr_lo r)), [], False)"
      using nodash by (simp add: Cut_def)
    then show ?thesis using lo single(2) by (simp add: parsePortRange_def)
  qed
qed

section \<open>Properties\<close>

lemmas [eval_simps] =
  compileRules_def ruleSet_add_def ruleSet_add_name_def ruleSet_empty_def map_add_new_def
  compileNamePattern_def host_char_def validateHostname_def isNumeric_def isIPLike_def
  parsePrefix_def checkPrefix_def and_not_mask_eq wildcard_expr_def matchName_def matchSuffix.simps
  matchAddr_def ruleSet_match_def parseHost_def parsePort_def parsePortRange_def portRange_contains_def
  wrap_err_def pattern_spec_name_def pattern_spec_addr_def name_pattern_spec_def is_regex_def
  is_addr_pattern_def in_domain_def lists_name_def

text \<open>
  C10.  Compiling a list of patterns keeps its meaning: a compiled rule set matches a name or an
  address exactly when some pattern of the list stands for it, and the rule it reports is the
  trimmed text of a pattern of the list that stands for it by itself.
\<close>

theorem compileRules_meaning:
  assumes "compileRules re ps = Inr rs"
  shows "(matchName rs n = None \<longleftrightarrow> (\<forall>p \<in> set ps. \<not> pattern_spec_name re p n)) \<and>
    (matchAddr rs a = None \<longleftrightarrow> (\<forall>p \<in> set ps. \<not> pattern_spec_addr p a)) \<and>
    (\<forall>r. matchName rs n = Some r \<longrightarrow> (\<exists>p \<in> set ps. TrimSpace p = r \<and> pattern_spec_name re p n)) \<and>
    (\<forall>r. matchAddr rs a = Some r \<longrightarrow> (\<exists>p \<in> set ps. TrimSpace p = r \<and> pattern_spec_addr p a))"
  using names.hit_iff [OF assms] addrs.hit_iff [OF assms] names.hit_shown [OF assms] addrs.hit_shown [OF assms]
  by simp

definition demo_rules :: ruleSet where
  "demo_rules =
     \<lparr>rs_exact = [(''example.com'', ''Example.com'')], rs_suffix = [(''example.com'', ''.example.com'')],
      rs_names = [], rs_any = [],
      rs_addrs = [\<lparr>ar_pattern = ''10.0.0.0/8'', ar_prefix = \<lparr>pfx_addr = Addr4 0x0a000000, pfx_bits = Some 8\<rparr>\<rparr>]\<rparr>"

lemma demo_rules_compiled:
  "compileRules MustCompile [''10.0.0.0/8'', ''Example.com'', '' .example.com''] = Inr demo_rules"
  by (simp add: eval_simps demo_rules_def)

theorem compileRules_meaning_witness:
  "\<not> pattern_spec_name MustCompile ''Example.com'' ''example.org'' \<and>
   \<not> pattern_spec_name MustCompile '' .example.com'' ''example.org'' \<and>
   (\<exists>p. p \<in> {''10.0.0.0/8'', ''Example.com'', '' .example.com''} \<and> pattern_spec_name MustCompile p ''www.example.com'') \<and>
   (\<exists>p. p \<in> {''10.0.0.0/8'', ''Example.com'', '' .example.com''} \<and> pattern_spec_addr p (Addr4 0x0a000001))"
proof -
  have "matchName demo_rules ''example.org'' = None" "matchName demo_rules ''www.example.com'' \<noteq> None"
    "matchAddr demo_rules (Addr4 0x0a000001) \<noteq> None"
    by (simp_all add: demo_rules_def eval_simps)
  with compileRules_meaning [OF demo_rules_compiled, of "''example.org''" "Addr4 0x0a000001"]
    compileRules_meaning [OF demo_rules_compiled, of "''www.example.com''" "Addr4 0x0a000001"]
  show ?thesis by auto
qed

text \<open>
  The order of the patterns of a list and repetitions in it do not matter: two lists of the
  same patterns compile both or neither, and the compiled rule sets match the same names and
  the same addresses.
\<close>

theorem compileRules_order:
  assumes "set ps = set ps'" "compileRules re ps = Inr rs"
  shows "\<exists>rs'. compileRules re ps' = Inr rs' \<and>
    (\<forall>n. matchName rs' n = None \<longleftrightarrow> matchName rs n = None) \<and>
    (\<forall>a. matchAddr rs' a = None \<longleftrightarrow> matchAddr rs a = None)"
  using names.same_rules [OF assms] addrs.same_rules [OF assms] by auto

text \<open>The same for domain suffixes, and for wildcards and regexes in list order.\<close>

definition lists_domain :: "string \<Rightarrow> string \<Rightarrow> bool" where
  "lists_domain p d \<longleftrightarrow> \<not> is_regex (TrimSpace p) \<and> \<not> is_addr_pattern (TrimSpace p) \<and>
     ToLower (TrimSuffix (TrimSpace p) ''.'') = CHR ''.'' # d"

definition is_wild :: "string \<Rightarrow> bool" where
  "is_wild p \<longleftrightarrow> is_regex (TrimSpace p) \<or>
     (\<not> is_addr_pattern (TrimSpace p) \<and>
      (let q = ToLower (TrimSuffix (TrimSpace p) ''.'') in q \<noteq> ''*'' \<and> \<not> HasPrefix q ''.'' \<and> CHR ''*'' \<in> set q))"

lemma find_snoc:
  "List.find P (xs @ [x]) = (case List.find P xs of None \<Rightarrow> if P x then Some x else None | Some y \<Rightarrow> Some y)"
  by (induction xs) auto

lemma ruleSet_add_domain:
  assumes "ruleSet_add re rs p = Inr rs'"
  shows "map_of (rs_suffix rs') d =
     (case map_of (rs_suffix rs) d of Some q \<Rightarrow> Some q | None \<Rightarrow> if lists_domain p d then Some (TrimSpace p) else None)"
  using assms
proof (cases rule: ruleSet_add_cases)
  case (name c)
  obtain kind nm m where c: "c = (kind, nm, m)" by (cases c)
  have k: "case kind of domainSuffix \<Rightarrow> lists_domain p d = (d = nm) | _ \<Rightarrow> \<not> lists_domain p d"
    using compileNamePattern_cases [OF name(4) [unfolded c]] name(1,2)
    by (cases kind) (auto simp: lists_domain_def c)
  then show ?thesis using name(5)
    by (cases kind) (auto simp: c ruleSet_add_name_def map_of_map_add_new split: option.splits if_splits)
qed (auto simp: lists_domain_def is_addr_pattern_def split: option.splits)

lemma match_names_snoc:
  "match_names (rs @ [r]) n = (case match_names rs n of Some p \<Rightarrow> Some p | None \<Rightarrow> if nr_match r n then Some (nr_pattern r) else None)"
  by (induction rs) auto

lemma ruleSet_add_wild:
  assumes "ruleSet_add re rs p = Inr rs'"
  shows "match_names (rs_names rs') n =
     (case match_names (rs_names rs) n of Some q \<Rightarrow> Some q
      | None \<Rightarrow> if is_wild p \<and> pattern_spec_name re p n then Some (TrimSpace p) else None)"
  using assms
proof (cases rule: ruleSet_add_cases)
  case (regex m)
  then show ?thesis by (auto simp: match_names_snoc is_wild_def pattern_spec_name_def Let_def split: option.splits)
next
  case (name c)
  obtain kind nm m where c: "c = (kind, nm, m)" by (cases c)
  show ?thesis
    using compileNamePattern_cases [OF name(4) [unfolded c]] name
    by (cases kind) (auto simp: c ruleSet_add_name_def is_wild_def Let_def match_names_snoc pattern_spec_name_plain split: option.splits)
qed (auto simp: is_wild_def is_addr_pattern_def split: option.splits)

lemma compileRules_domain:
  "compileRules re ps = Inr rs \<Longrightarrow> map_of (rs_suffix rs) d = map_option TrimSpace (List.find (\<lambda>p. lists_domain p d) ps)"
proof (induction ps arbitrary: rs rule: rev_induct)
  case (snoc p ps)
  then obtain rs0 where rs0: "compileRules re ps = Inr rs0" "ruleSet_add re rs0 p = Inr rs" by (auto simp: compileRules_snoc)
  then show ?case using snoc.IH [OF rs0(1)] ruleSet_add_domain [OF rs0(2), of d]
    by (auto simp: find_snoc split: option.splits)
qed (auto simp: compileRules_def ruleSet_empty_def)

lemma compileRules_wild:
  "compileRules re ps = Inr rs \<Longrightarrow>
   match_names (rs_names rs) n = map_option TrimSpace (List.find (\<lambda>p. is_wild p \<and> pattern_spec_name re p n) ps)"
proof (induction ps arbitrary: rs rule: rev_induct)
  case (snoc p ps)
  then obtain rs0 where rs0: "compileRules re ps = Inr rs0" "ruleSet_add re rs0 p = Inr rs" by (auto simp: compileRules_snoc)
  then show ?case using snoc.IH [OF rs0(1)] ruleSet_add_wild [OF rs0(2), of n]
    by (auto simp: find_snoc split: option.splits)
qed (auto simp: compileRules_def ruleSet_empty_def)

text \<open>
  C21.  The most specific name rule is the one reported: the first pattern that lists the name
  itself; if there is none, the first pattern for the longest listed domain the name is in; if
  there is none, the first wildcard or regex of the list that matches.  The catch-all
  \<^verbatim>\<open>*\<close> is reported only when none of these matches.
\<close>

theorem matchName_specificity:
  assumes "compileRules re ps = Inr rs"
  shows "(\<forall>p. List.find (\<lambda>p. lists_name p n) ps = Some p \<longrightarrow> matchName rs n = Some (TrimSpace p)) \<and>
    (\<forall>d p. (\<forall>q \<in> set ps. \<not> lists_name q n) \<and> in_domain n d \<and> List.find (\<lambda>p. lists_domain p d) ps = Some p \<and>
       (\<forall>e q. q \<in> set ps \<and> in_domain n e \<and> lists_domain q e \<longrightarrow> length e \<le> length d) \<longrightarrow>
       matchName rs n = Some (TrimSpace p)) \<and>
    (\<forall>p. (\<forall>q \<in> set ps. \<not> lists_name q n \<and> (\<forall>e. in_domain n e \<longrightarrow> \<not> lists_domain q e)) \<and>
       List.find (\<lambda>p. is_wild p \<and> pattern_spec_name re p n) ps = Some p \<longrightarrow> matchName rs n = Some (TrimSpace p))"
proof (intro conjI allI impI)
  note exact = compileRules_exact [OF assms] and domain = compileRules_domain [OF assms]
  note wild = compileRules_wild [OF assms, of n]
  fix p
  show "matchName rs n = Some (TrimSpace p)" if "List.find (\<lambda>p. lists_name p n) ps = Some p"
    using that exact [of n] by (intro matchName_exact) simp
  show "matchName rs n = Some (TrimSpace p)" if a: "(\<forall>q \<in> set ps. \<not> lists_name q n) \<and> in_domain n d \<and>
      List.find (\<lambda>p. lists_domain p d) ps = Some p \<and>
      (\<forall>e q. q \<in> set ps \<and> in_domain n e \<and> lists_domain q e \<longrightarrow> length e \<le> length d)" for d
  proof (rule matchName_suffix)
    show "map_of (rs_exact rs) n = None" using a exact [of n] by (simp add: find_None_iff)
    show "map_of (rs_suffix rs) d = Some (TrimSpace p)" using a domain [of d] by simp
    show "length e \<le> length d" if "in_domain n e" "map_of (rs_suffix rs) e \<noteq> None" for e
      using a that domain [of e] by (auto simp: find_None_iff)
  qed (use a in blast)
  show "matchName rs n = Some (TrimSpace p)"
    if a: "(\<forall>q \<in> set ps. \<not> lists_name q n \<and> (\<forall>e. in_domain n e \<longrightarrow> \<not> lists_domain q e)) \<and>
       List.find (\<lambda>p. is_wild p \<and> pattern_spec_name re p n) ps = Some p"
  proof (rule matchName_names)
    show "map_of (rs_exact rs) n = None" using a exact [of n] by (simp add: find_None_iff)
    show "map_of (rs_suffix rs) d = None" if "in_domain n d" for d
      using a that domain [of d] by (simp add: find_None_iff)
  qed (use a wild in simp)
qed

theorem matchName_specificity_witness:
  "List.find (\<lambda>p. lists_name p ''example.com'') [''10.0.0.0/8'', ''Example.com'', '' .example.com''] = Some ''Example.com'' \<and>
   matchName demo_rules ''example.com'' = Some ''Example.com''"
proof -
  have find: "List.find (\<lambda>p. lists_name p ''example.com'') [''10.0.0.0/8'', ''Example.com'', '' .example.com''] = Some ''Example.com''"
    by (simp add: eval_simps)
  with matchName_specificity [OF demo_rules_compiled, of "''example.com''"]
  have "matchName demo_rules ''example.com'' = Some (TrimSpace ''Example.com'')" by blast
  with find show ?thesis by (simp add: eval_simps)
qed

text \<open>
  C22.  An accepted wildcard pattern compiles without a panic and matches label by label: no
  asterisk ever matches a dot, a pattern \<^verbatim>\<open>*.rest\<close> asks for one or more non-empty labels
  in front of \<^verbatim>\<open>rest\<close>, and any other pattern asks for as many labels as it has.
\<close>

theorem compileNamePattern_wildcard:
  assumes "compileNamePattern p = Inr (wildcard, name, m)" and q: "q = ToLower (TrimSuffix p ''.'')"
  shows "\<exists>f. m = Some f \<and> (\<forall>n. f n \<longleftrightarrow>
      (if HasPrefix q ''*.''
       then \<exists>ls ts. ls \<noteq> [] \<and> [] \<notin> set ls \<and> Split CHR ''.'' n = ls @ ts \<and> list_all2 glob (Split CHR ''.'' (drop 2 q)) ts
       else list_all2 glob (Split CHR ''.'' q) (Split CHR ''.'' n)))"
proof -
  from compileNamePattern_cases [OF assms(1), folded q] obtain f where
    "m = Some f" "\<forall>n. f n \<longleftrightarrow> name_pattern_spec q n" "q \<noteq> ''*''" "\<not> HasPrefix q ''.''" "CHR ''*'' \<in> set q"
    by auto
  then show ?thesis
    unfolding glob_labels [of q, symmetric] subdomain_glob_labels [symmetric]
    by (intro exI [of _ f]) (simp add: name_pattern_spec_def)
qed

lemma demo_wildcard: "\<exists>f. compileNamePattern ''*.cdn*.net.'' = Inr (wildcard, [], Some f)"
proof -
  have "list_all wild_char ''*.cdn*.net''" by (simp add: wild_char_def re_special_def)
  from MustCompile_wildcard [OF this] obtain f where f: "MustCompile (wildcard_expr ''*.cdn*.net'') = Inr f" by blast
  have q: "ToLower (TrimSuffix ''*.cdn*.net.'' ''.'') = ''*.cdn*.net''" by (simp add: eval_simps)
  have "checkHostChars ''*.cdn*.net.'' True = Inr ()" "validateHostname ''*.cdn*.net'' True = Inr ()"
    by (simp_all add: eval_simps)
  with f q show ?thesis by (simp add: compileNamePattern_def CutPrefix_def ContainsByte_def)
qed

theorem compileNamePattern_wildcard_witness:
  "\<exists>f. compileNamePattern ''*.cdn*.net.'' = Inr (wildcard, [], Some f) \<and> f ''a.b.cdn7.net'' \<and> \<not> f ''cdn7.net''"
proof -
  have q: "''*.cdn*.net'' = ToLower (TrimSuffix ''*.cdn*.net.'' ''.'')" by (simp add: eval_simps)
  obtain f where f: "compileNamePattern ''*.cdn*.net.'' = Inr (wildcard, [], Some f)" using demo_wildcard by blast
  from compileNamePattern_wildcard [OF f q] have m: "f n \<longleftrightarrow> (\<exists>ls ts. ls \<noteq> [] \<and> [] \<notin> set ls \<and>
      Split CHR ''.'' n = ls @ ts \<and> list_all2 glob [''cdn*'', ''net''] ts)" for n
    by (simp add: eval_simps)
  have "f ''a.b.cdn7.net''"
    unfolding m by (rule exI [of _ "[''a'', ''b'']"], rule exI [of _ "[''cdn7'', ''net'']"]) (simp add: eval_simps glob.simps)
  moreover have "\<not> f ''cdn7.net''"
    unfolding m by (auto simp: eval_simps list_all2_Cons1 append_eq_Cons_conv)
  ultimately show ?thesis using f by blast
qed

text \<open>
  C28.  Compiling a rule never panics, whatever the operator writes: the expressions built for
  wildcard patterns are always accepted by the regexp compiler.
\<close>

theorem compileNamePattern_no_panic: "compileNamePattern p \<noteq> Inl (ErrFmt ''panic: regexp: Compile'' xs)"
proof (cases "checkHostChars p True")
  case (Inl e)
  have "checkHostChars s w = Inl e \<Longrightarrow> \<exists>ys. e = ErrFmt ''invalid character %q'' ys" for s w
    by (induction s) (auto split: if_splits)
  then show ?thesis using Inl by (auto simp: compileNamePattern_def)
next
  case (Inr u)
  define q where "q = ToLower (TrimSuffix p ''.'')"
  have "validate_labels w ls b \<noteq> Inl (ErrFmt f xs)" for w ls b f
    by (induction ls arbitrary: b) auto
  then have "validateHostname h w \<noteq> Inl (ErrFmt f xs)" for h w f
    by (auto simp: validateHostname_def Let_def split: sum.splits)
  moreover obtain f where "MustCompile (wildcard_expr q) = Inr f"
    using MustCompile_wildcard [OF wild_chars_normalized] Inr by (auto simp: q_def)
  ultimately show ?thesis using Inr
    unfolding compileNamePattern_def q_def [symmetric] Let_def
    by (auto split: sum.splits prod.splits bool.splits)
qed

text \<open>
  C27.  Ports: a text is accepted exactly when it is the decimal notation, without sign or leading
  zero, of a port from 1 to 65535, and a range exactly when it is one port or two in order
  joined by a hyphen.
\<close>

theorem parsePort_decimal:
  "(parsePort s = Inr p \<longleftrightarrow> p \<noteq> 0 \<and> s = itoa (unat p)) \<and>
   (parsePortRange t = Inr r \<longleftrightarrow>
     0 < pr_lo r \<and> pr_lo r \<le> pr_hi r \<and>
     (TrimSpace t = itoa (unat (pr_lo r)) @ CHR ''-'' # itoa (unat (pr_hi r)) \<or>
      TrimSpace t = itoa (unat (pr_lo r)) \<and> pr_hi r = pr_lo r))"
  using parsePort_iff parsePortRange_iff by simp



text \<open>
  C26.  An accepted CIDR or address stands for exactly one aligned interval of addresses of its
  family: it contains the addresses without zone from its own address on, as many as its
  host bits allow, and no host bit of its own address is set.
\<close>

theorem parsePrefix_interval:
  assumes "parsePrefix s = Inr p" "pfx_bits p = Some n"
  shows "n \<le> BitLen (pfx_addr p) \<and> Masked p = p \<and> \<not> Is4In6 (pfx_addr p) \<and>
    (Contains p a \<longleftrightarrow> BitLen a = BitLen (pfx_addr p) \<and> Zone a = [] \<and>
       addr_nat (pfx_addr p) \<le> addr_nat a \<and> addr_nat a < addr_nat (pfx_addr p) + 2 ^ (BitLen (pfx_addr p) - n))"
proof -
  have wf: "prefix_wf p" and m: "\<not> Is4In6 (pfx_addr p)" using parsePrefix_wf [OF assms(1)] by auto
  show ?thesis using wf m Contains_interval [OF wf assms(2)] assms(2) by (auto simp: prefix_wf_def)
qed

theorem parsePrefix_interval_witness:
  "parsePrefix '' 192.168.4.0/22'' = Inr \<lparr>pfx_addr = Addr4 0xc0a80400, pfx_bits = Some 22\<rparr> \<and>
   (\<forall>a. Contains \<lparr>pfx_addr = Addr4 0xc0a80400, pfx_bits = Some 22\<rparr> a \<longleftrightarrow>
      BitLen a = 32 \<and> Zone a = [] \<and> 0xc0a80400 \<le> addr_nat a \<and> addr_nat a < 0xc0a80800)"
proof -
  have p: "parsePrefix '' 192.168.4.0/22'' = Inr \<lparr>pfx_addr = Addr4 0xc0a80400, pfx_bits = Some 22\<rparr>" by (simp add: eval_simps)
  from parsePrefix_interval [OF this, of 22] p show ?thesis by simp
qed

text \<open>
  C25.  The table of non-public ranges loads without a panic.  An IPv4 address is public exactly
  when it is outside the twelve listed intervals, and a public IPv6 address is in none of the
  ranges that embed an IPv4 address (IPv4-compatible, IPv4-mapped, the two NAT64 prefixes,
  Teredo, 6to4) nor in the unique local, link-local, site-local or multicast ranges.
\<close>

theorem isPublic_ranges:
  "(\<exists>ps. nonPublic_init = Inr ps \<and> length ps = 22) \<and>
   (isPublic (Addr4 a) \<longleftrightarrow> (\<forall>(lo, hi) \<in> set nonpublic4. \<not> (lo \<le> unat a \<and> unat a < hi))) \<and>
   (isPublic (Addr6 b []) \<longleftrightarrow>
      drop_bit 32 b \<notin> {0, 0xffff, 0x0064ff9b0000000000000000} \<and> drop_bit 80 b \<noteq> 0x0064ff9b0001 \<and>
      drop_bit 96 b \<noteq> 0x20010000 \<and> drop_bit 112 b \<noteq> 0x2002 \<and>
      drop_bit 121 b \<noteq> 0x7e \<and> drop_bit 118 b \<notin> {0x3fa, 0x3fb} \<and> drop_bit 120 b \<noteq> 0xff)"
proof (intro conjI)
  show "isPublic (Addr4 a) \<longleftrightarrow> (\<forall>(lo, hi) \<in> set nonpublic4. \<not> (lo \<le> unat a \<and> unat a < hi))"
    by (rule isPublic_4)
  show "isPublic (Addr6 b []) \<longleftrightarrow>
      drop_bit 32 b \<notin> {0, 0xffff, 0x0064ff9b0000000000000000} \<and> drop_bit 80 b \<noteq> 0x0064ff9b0001 \<and>
      drop_bit 96 b \<noteq> 0x20010000 \<and> drop_bit 112 b \<noteq> 0x2002 \<and>
      drop_bit 121 b \<noteq> 0x7e \<and> drop_bit 118 b \<notin> {0x3fa, 0x3fb} \<and> drop_bit 120 b \<noteq> 0xff"
    by (auto simp: isPublic_def nonPublic_def nonPublic_parses)
qed (simp add: nonPublic_parses)

theorem isPublic_ranges_witness:
  "\<not> isPublic (Addr4 0x7f000001) \<and> isPublic (Addr4 0x08080808) \<and> \<not> isPublic (Addr6 0x00000000000000000000ffff7f000001 [])"
  using isPublic_ranges [of "0x7f000001" "0x00000000000000000000ffff7f000001"] isPublic_ranges [of "0x08080808" 0]
  by (simp add: nonpublic4_def)

lemmas re_numeral =
  re_alt.simps(2) [of "pred_numeral k" for k, folded numeral_eq_Suc]
  re_cat.simps(2) [of "pred_numeral k" for k, folded numeral_eq_Suc]
  re_cat.simps(3) [of "pred_numeral k" for k, folded numeral_eq_Suc]

lemma demo_escape:
  "re_parse (''(?i)^(?:a'' @ [CHR 0x5C] @ ''.com)|(?:b)$'') =
     Some (RAlt
       (RCat (RCat REmpty RBol)
          (RCat (RCat (RCat (RCat (RCat REmpty (RLit True CHR ''a'')) (RLit True CHR ''.'')) (RLit True CHR ''c''))
            (RLit True CHR ''o'')) (RLit True CHR ''m'')))
       (RCat (RCat REmpty (RCat REmpty (RLit True CHR ''b''))) REol))"
  by (simp add: re_parse_def re_numeral re_postfix_def re_special_def eval_simps)

text \<open>
  C29.  The anchors put around an operator's regex do not always hold.  For the unbalanced
  expression \<^verbatim>\<open>a\.com)|(?:b\<close> the compiled text is \<^verbatim>\<open>(?i)^(?:a\.com)|(?:b)$\<close>, which
  is accepted, and the rule then matches \<^verbatim>\<open>a.com.evil.net\<close> although neither alternative
  stands for that name.
\<close>

theorem regex_anchor_escape:
  "\<exists>rs. compileRules MustCompile [''~a'' @ [CHR 0x5C] @ ''.com)|(?:b''] = Inr rs \<and>
     matchName rs ''a.com.evil.net'' \<noteq> None"
proof -
  let ?p = "''~a'' @ [CHR 0x5C] @ ''.com)|(?:b''"
  obtain m where m: "MustCompile (''(?i)^(?:'' @ tl ?p @ '')$'') = Inr m" "m ''a.com.evil.net''"
    using demo_escape by (simp add: MustCompile_def MatchString_def upt_rec step_if_def lit_matches_def lower_char_def between_def)
  have t: "TrimSpace ?p = ?p" by (simp add: eval_simps)
  have "compileRules MustCompile [?p] = Inr (ruleSet_empty\<lparr>rs_names := [\<lparr>nr_pattern = ?p, nr_match = m\<rparr>]\<rparr>)"
    unfolding compileRules_def foldM_single ruleSet_add_def t Let_def
    using m(1) by (simp add: CutPrefix_def wrap_err_def ruleSet_empty_def)
  moreover have "matchName (ruleSet_empty\<lparr>rs_names := [\<lparr>nr_pattern = ?p, nr_match = m\<rparr>]\<rparr>) ''a.com.evil.net'' \<noteq> None"
    using m(2) by (simp add: matchName_def ruleSet_empty_def)
  ultimately show ?thesis by blast
qed

end
