(* ===== verification/Policy.thy ===== *)
theory Policy
  imports Rules
begin

text \<open>
  \<^verbatim>\<open>internal/acl/policy.go\<close>: compiling subnet specifications into a policy, finding a
  client's subnet, and the decision on one request.

  A \<^verbatim>\<open>*Subnet\<close> is modelled as the position of the subnet in the policy, so that two
  pointers are equal when they are the same position.  The resolver is a parameter with a
  state of its own: it is called with the context, the network and the host, and the state
  records what it was asked.
\<close>

section \<open>Data\<close>

record SubnetSpec =
  ss_Name :: string
  ss_CIDRs :: "string list"
  ss_Ports :: "string list"
  ss_Allow :: "string list"
  ss_Deny :: "string list"

record Subnet =
  sn_name :: string
  sn_prefixes :: "prefix list"
  sn_ports :: "portRange list"
  sn_allow :: ruleSet
  sn_deny :: ruleSet

record Policy =
  p_subnets :: "Subnet list"

type_synonym subnet_ptr = nat

text \<open>A reason is a text, or a text followed by the text of an error (\<^verbatim>\<open>"..." + err.Error()\<close>).\<close>

datatype reason = Reason string | ReasonErr string error

record Decision =
  d_Allow :: bool
  d_Subnet :: string
  d_Rule :: string
  d_Reason :: reason
  d_Addrs :: "addr list"
  d_Port :: port

text \<open>
  What the code puts into and reads from a \<^verbatim>\<open>context.Context\<close> on the way to the
  resolver: the client it was tagged with, and the shortest timeout set on it (nanoseconds).
\<close>

record ctx =
  ctx_client :: "addr option"
  ctx_timeout :: "int option"

definition WithTimeout :: "ctx \<Rightarrow> int \<Rightarrow> ctx" where
  "WithTimeout c d =
     c\<lparr>ctx_timeout := Some (case ctx_timeout c of None \<Rightarrow> d | Some e \<Rightarrow> min d e)\<rparr>"

type_synonym 's resolver = "ctx \<Rightarrow> string \<Rightarrow> string \<Rightarrow> 's \<Rightarrow> addr list result \<times> 's"

section \<open>Compiling\<close>

definition defaultPorts :: "portRange list" where
  "defaultPorts = [\<lparr>pr_lo = 80, pr_hi = 80\<rparr>, \<lparr>pr_lo = 443, pr_hi = 443\<rparr>]"

definition resolveTimeout :: int where
  "resolveTimeout = 5 * 10 ^ 9"

text \<open>In a deny list \<^verbatim>\<open>*\<close> means addresses too.\<close>

definition deny_everything :: "ruleSet \<Rightarrow> ruleSet" where
  "deny_everything rs =
     (if rs_any rs \<noteq> [] then
        rs\<lparr>rs_addrs := rs_addrs rs @
            [\<lparr>ar_pattern = rs_any rs, ar_prefix = \<lparr>pfx_addr = Addr4 0, pfx_bits = Some 0\<rparr>\<rparr>,
             \<lparr>ar_pattern = rs_any rs, ar_prefix = \<lparr>pfx_addr = Addr6 0 [], pfx_bits = Some 0\<rparr>\<rparr>]\<rparr>
      else rs)"

definition compileSubnet :: "re_engine \<Rightarrow> SubnetSpec \<Rightarrow> Subnet result" where
  "compileSubnet re spec =
     (if ss_CIDRs spec = [] then Inl (ErrNew ''no cidrs defined'')
      else
        (case mapM (\<lambda>c. wrap_err (ErrWrap ''cidr %q: %w'' [c]) (parsePrefix c)) (ss_CIDRs spec) of
           Inl e \<Rightarrow> Inl e
         | Inr prefixes \<Rightarrow>
             (case (if ss_Ports spec \<noteq> []
                    then mapM (\<lambda>p. wrap_err (ErrWrap ''port %q: %w'' [p]) (parsePortRange p)) (ss_Ports spec)
                    else Inr defaultPorts) of
                Inl e \<Rightarrow> Inl e
              | Inr ports \<Rightarrow>
                  (case wrap_err (ErrWrap ''allow: %w'' []) (compileRules re (ss_Allow spec)) of
                     Inl e \<Rightarrow> Inl e
                   | Inr allow \<Rightarrow>
                       (case wrap_err (ErrWrap ''deny: %w'' []) (compileRules re (ss_Deny spec)) of
                          Inl e \<Rightarrow> Inl e
                        | Inr deny \<Rightarrow>
                            Inr \<lparr>sn_name = ss_Name spec, sn_prefixes = prefixes, sn_ports = ports,
                                 sn_allow = allow, sn_deny = deny_everything deny\<rparr>)))))"

text \<open>The loop of \<^verbatim>\<open>New\<close> over a subnet's prefixes: no prefix has two owners.\<close>

fun own_prefixes :: "string \<Rightarrow> prefix list \<Rightarrow> (prefix \<times> string) list \<Rightarrow> (prefix \<times> string) list result" where
  "own_prefixes name [] owner = Inr owner"
| "own_prefixes name (pfx # ps) owner =
     (case map_of owner pfx of
        Some other \<Rightarrow>
          Inl (ErrFmt ''subnet %q: cidr %s already used by subnet %q'' [name, prefix_String pfx, other])
      | None \<Rightarrow> own_prefixes name ps ((pfx, name) # owner))"

definition default_name :: "nat \<Rightarrow> string \<Rightarrow> string" where
  "default_name i name = (if name = [] then ''subnet['' @ itoa i @ '']'' else name)"

fun New_loop ::
  "re_engine \<Rightarrow> nat \<Rightarrow> SubnetSpec list \<Rightarrow> string list \<Rightarrow> (prefix \<times> string) list \<Rightarrow> Subnet list \<Rightarrow> Subnet list result" where
  "New_loop re i [] names owner subnets = Inr subnets"
| "New_loop re i (spec0 # specs) names owner subnets =
     (let spec = spec0\<lparr>ss_Name := default_name i (ss_Name spec0)\<rparr> in
      if ss_Name spec \<in> set names then Inl (ErrFmt ''duplicate subnet name %q'' [ss_Name spec])
      else
        (case compileSubnet re spec of
           Inl e \<Rightarrow> Inl (ErrWrap ''subnet %q: %w'' [ss_Name spec] e)
         | Inr s \<Rightarrow>
             (case own_prefixes (sn_name s) (sn_prefixes s) owner of
                Inl e \<Rightarrow> Inl e
              | Inr owner' \<Rightarrow> New_loop re (Suc i) specs (ss_Name spec # names) owner' (subnets @ [s]))))"

definition Policy_New :: "re_engine \<Rightarrow> SubnetSpec list \<Rightarrow> Policy result" where
  "Policy_New re specs =
     (if specs = [] then Inl (ErrNew ''no subnets defined'')
      else
        (case New_loop re 0 specs [] [] [] of
           Inl e \<Rightarrow> Inl e
         | Inr ss \<Rightarrow> Inr \<lparr>p_subnets = ss\<rparr>))"

section \<open>A client's subnet\<close>

fun scan_prefixes :: "addr \<Rightarrow> subnet_ptr \<Rightarrow> prefix list \<Rightarrow> subnet_ptr option \<times> int \<Rightarrow> subnet_ptr option \<times> int" where
  "scan_prefixes client i [] best = best"
| "scan_prefixes client i (pfx # ps) best =
     scan_prefixes client i ps
       (if Bits pfx > snd best \<and> Contains pfx client then (Some i, Bits pfx) else best)"

fun scan_subnets :: "addr \<Rightarrow> subnet_ptr \<Rightarrow> Subnet list \<Rightarrow> subnet_ptr option \<times> int \<Rightarrow> subnet_ptr option \<times> int" where
  "scan_subnets client i [] best = best"
| "scan_subnets client i (s # ss) best =
     scan_subnets client (Suc i) ss (scan_prefixes client i (sn_prefixes s) best)"

definition SubnetOf :: "Policy \<Rightarrow> addr \<Rightarrow> subnet_ptr option" where
  "SubnetOf p client = fst (scan_subnets (Unmap client) 0 (p_subnets p) (None, -1))"

section \<open>The decision\<close>

definition allowsPort :: "Subnet \<Rightarrow> port \<Rightarrow> bool" where
  "allowsPort s port = list_ex (\<lambda>r. portRange_contains r port) (sn_ports s)"

definition usable_addr :: "addr \<Rightarrow> addr result" where
  "usable_addr a0 =
     (let a = Unmap a0 in
      if \<not> IsValid a \<or> Zone a \<noteq> [] then Inl (ErrFmt ''unusable address %q'' [addr_String a])
      else Inr a)"

definition resolve :: "ctx \<Rightarrow> 's resolver \<Rightarrow> string \<Rightarrow> 's \<Rightarrow> addr list result \<times> 's" where
  "resolve c res name st =
     (case res (WithTimeout c resolveTimeout) ''ip'' name st of (answer, st') \<Rightarrow>
        (case answer of
           Inl e \<Rightarrow> (Inl e, st')
         | Inr found \<Rightarrow>
             if found = [] then (Inl (ErrNew ''no addresses''), st')
             else (mapM usable_addr found, st')))"

definition deny_decision :: "string \<Rightarrow> reason \<Rightarrow> string \<Rightarrow> Decision" where
  "deny_decision subnet reason rule =
     \<lparr>d_Allow = False, d_Subnet = subnet, d_Rule = rule, d_Reason = reason, d_Addrs = [], d_Port = 0\<rparr>"

text \<open>The loop over the addresses: the reason and rule of the first one that is refused.\<close>

fun refused_addr :: "Subnet \<Rightarrow> addr list \<Rightarrow> (reason \<times> string) option" where
  "refused_addr s [] = None"
| "refused_addr s (a # as) =
     (case matchAddr (sn_deny s) a of
        Some r \<Rightarrow> Some (Reason (''address '' @ addr_String a @ '' matched deny rule''), r)
      | None \<Rightarrow>
          if \<not> isPublic a \<and> matchAddr (sn_allow s) a = None
          then Some (Reason (''non-public address '' @ addr_String a @ '' not explicitly allowed''), [])
          else refused_addr s as)"

definition Subnet_Check :: "Subnet \<Rightarrow> ctx \<Rightarrow> 's resolver \<Rightarrow> string \<Rightarrow> string \<Rightarrow> 's \<Rightarrow> Decision \<times> 's" where
  "Subnet_Check s c res host port st =
     (let deny = deny_decision (sn_name s) in
      case parseHost host of
        Inl e \<Rightarrow> (deny (ReasonErr ''invalid host: '' e) [], st)
      | Inr dst \<Rightarrow>
          (case parsePort port of
             Inl _ \<Rightarrow> (deny (Reason ''invalid port'') [], st)
           | Inr portNum \<Rightarrow>
               (case ruleSet_match (sn_deny s) dst of
                  Some r \<Rightarrow> (deny (Reason ''deny rule matched'') r, st)
                | None \<Rightarrow>
                    (case ruleSet_match (sn_allow s) dst of
                       None \<Rightarrow> (deny (Reason ''no allow rule matched'') [], st)
                     | Some allowRule \<Rightarrow>
                         if \<not> allowsPort s portNum then (deny (Reason ''port not allowed'') [], st)
                         else
                           (case (if dst_name dst \<noteq> [] then resolve c res (dst_name dst) st
                                  else (Inr [dst_addr dst], st)) of
                              (Inl e, st') \<Rightarrow> (deny (ReasonErr ''dns lookup failed: '' e) [], st')
                            | (Inr addrs, st') \<Rightarrow>
                                (case refused_addr s addrs of
                                   Some (reason, rule) \<Rightarrow> (deny reason rule, st')
                                 | None \<Rightarrow>
                                     (\<lparr>d_Allow = True, d_Subnet = sn_name s, d_Rule = allowRule,
                                       d_Reason = Reason ''allow rule matched'',
                                       d_Addrs = addrs, d_Port = portNum\<rparr>, st')))))))"

definition Policy_Check ::
  "Policy \<Rightarrow> ctx \<Rightarrow> 's resolver \<Rightarrow> addr \<Rightarrow> string \<Rightarrow> string \<Rightarrow> 's \<Rightarrow> Decision \<times> 's" where
  "Policy_Check p c res client host port st =
     (case SubnetOf p client of
        None \<Rightarrow> (deny_decision [] (Reason ''client not in any subnet'') [], st)
      | Some i \<Rightarrow> Subnet_Check (p_subnets p ! i) c res host port st)"

section \<open>Longest prefix match\<close>

text \<open>The prefixes of the policy with the position of the subnet that lists them, in scanning order.\<close>

definition owned_prefixes :: "Policy \<Rightarrow> (subnet_ptr \<times> prefix) list" where
  "owned_prefixes p = concat (map (\<lambda>(i, s). map (Pair i) (sn_prefixes s)) (enumerate 0 (p_subnets p)))"

lemma in_owned_prefixes:
  "(i, pfx) \<in> set (owned_prefixes p) \<longleftrightarrow> i < length (p_subnets p) \<and> pfx \<in> set (sn_prefixes (p_subnets p ! i))"
  by (force simp: owned_prefixes_def in_set_enumerate_eq)

fun scan :: "addr \<Rightarrow> (subnet_ptr \<times> prefix) list \<Rightarrow> subnet_ptr option \<times> int \<Rightarrow> subnet_ptr option \<times> int" where
  "scan client [] best = best"
| "scan client ((i, pfx) # ps) best =
     scan client ps (if Bits pfx > snd best \<and> Contains pfx client then (Some i, Bits pfx) else best)"

lemma scan_append: "scan c (xs @ ys) b = scan c ys (scan c xs b)"
  by (induction c xs b rule: scan.induct) auto

lemma scan_prefixes_scan: "scan_prefixes c i ps b = scan c (map (Pair i) ps) b"
  by (induction ps arbitrary: b) auto

lemma scan_subnets_scan:
  "scan_subnets c i ss b = scan c (concat (map (\<lambda>(i, s). map (Pair i) (sn_prefixes s)) (enumerate i ss))) b"
  by (induction ss arbitrary: i b) (auto simp: scan_prefixes_scan scan_append)

lemma SubnetOf_scan: "SubnetOf p c = fst (scan (Unmap c) (owned_prefixes p) (None, -1))"
  by (simp add: SubnetOf_def owned_prefixes_def scan_subnets_scan)

lemma Bits_nonneg: "Contains p a \<Longrightarrow> 0 \<le> Bits p"
  by (auto simp: Contains_def Bits_def split: option.splits)

text \<open>What the scan keeps: the first of the longest prefixes that contain the client.\<close>

lemma scan_result:
  assumes "scan c ps (None, -1) = (best, bits)"
  shows "(best = None \<longleftrightarrow> (\<forall>(j, q) \<in> set ps. \<not> Contains q c)) \<and>
    (\<forall>i. best = Some i \<longrightarrow> (\<exists>q. (i, q) \<in> set ps \<and> Contains q c \<and> Bits q = bits \<and>
        (\<forall>(j, r) \<in> set ps. Contains r c \<longrightarrow> Bits r \<le> bits))) \<and> (best = None \<longrightarrow> bits = -1)"
  using assms
proof (induction ps arbitrary: best bits rule: rev_induct)
  case Nil
  then show ?case by simp
next
  case (snoc x ps)
  obtain j q where x: "x = (j, q)" by (cases x)
  obtain b n where b: "scan c ps (None, -1) = (b, n)" by (cases "scan c ps (None, -1)")
  note IH = snoc.IH [OF b]
  show ?case
  proof (cases "Bits q > n \<and> Contains q c")
    case True
    then have r: "best = Some j" "bits = Bits q" using snoc.prems x b by (auto simp: scan_append)
    have "Bits r \<le> Bits q" if "(k, r) \<in> set ps" "Contains r c" for k r
      using IH that True by (cases b) fastforce+
    then show ?thesis using r x True by auto
  next
    case False
    then have r: "best = b" "bits = n" using snoc.prems x b by (auto simp: scan_append)
    show ?thesis
    proof (cases b)
      case None
      with IH have "n = -1" by simp
      with False have "\<not> Contains q c" using Bits_nonneg [of q c] by auto
      then show ?thesis using IH None r x by auto
    next
      case (Some i)
      then show ?thesis using IH r x False by fastforce
    qed
  qed
qed

lemma SubnetOf_None_iff:
  "SubnetOf p c = None \<longleftrightarrow> (\<forall>i pfx. (i, pfx) \<in> set (owned_prefixes p) \<longrightarrow> \<not> Contains pfx (Unmap c))"
  using scan_result [of "Unmap c" "owned_prefixes p"]
  by (cases "scan (Unmap c) (owned_prefixes p) (None, -1)") (auto simp: SubnetOf_scan)

lemma SubnetOf_SomeD:
  assumes "SubnetOf p c = Some i"
  shows "\<exists>pfx. (i, pfx) \<in> set (owned_prefixes p) \<and> Contains pfx (Unmap c) \<and>
    (\<forall>j q. (j, q) \<in> set (owned_prefixes p) \<longrightarrow> Contains q (Unmap c) \<longrightarrow> Bits q \<le> Bits pfx)"
proof -
  obtain bits where "scan (Unmap c) (owned_prefixes p) (None, -1) = (Some i, bits)"
    using assms by (cases "scan (Unmap c) (owned_prefixes p) (None, -1)") (auto simp: SubnetOf_scan)
  from scan_result [OF this] obtain pfx where "(i, pfx) \<in> set (owned_prefixes p)" "Contains pfx (Unmap c)"
      "Bits pfx = bits" "\<forall>(j, r) \<in> set (owned_prefixes p). Contains r (Unmap c) \<longrightarrow> Bits r \<le> bits" by blast
  then show ?thesis by (intro exI [of _ pfx]) auto
qed

lemma SubnetOf_bound: "SubnetOf p c = Some i \<Longrightarrow> i < length (p_subnets p)"
  using SubnetOf_SomeD [of p c i] by (auto simp: in_owned_prefixes)

section \<open>What a compiled policy guarantees\<close>

lemma own_prefixes_Inr:
  "own_prefixes name ps owner = Inr owner' \<longleftrightarrow>
     distinct ps \<and> (\<forall>q \<in> set ps. q \<notin> fst ` set owner) \<and> owner' = rev (map (\<lambda>q. (q, name)) ps) @ owner"
proof (induction ps arbitrary: owner)
  case Nil
  then show ?case by auto
next
  case (Cons q ps)
  then show ?case
    by (auto split: option.splits simp: map_of_eq_None_iff) (metis fst_conv image_eqI map_of_SomeD)+
qed

text \<open>
  A policy the compiler accepts: every prefix well formed, no prefix listed twice, no two
  subnets of the same name.
\<close>

definition policy_wf :: "Policy \<Rightarrow> bool" where
  "policy_wf p \<longleftrightarrow> p_subnets p \<noteq> [] \<and>
     distinct (map snd (owned_prefixes p)) \<and>
     (\<forall>pfx \<in> set (map snd (owned_prefixes p)). prefix_wf pfx \<and> \<not> Is4In6 (pfx_addr pfx)) \<and>
     distinct (map sn_name (p_subnets p)) \<and>
     (\<forall>s \<in> set (p_subnets p). sn_name s \<noteq> [] \<and> sn_prefixes s \<noteq> [])"

lemma owned_prefixes_snd: "map snd (owned_prefixes p) = concat (map sn_prefixes (p_subnets p))"
proof -
  have "map snd (concat (map (\<lambda>(i, s). map (Pair i) (sn_prefixes s)) (enumerate n ss))) = concat (map sn_prefixes ss)" for n and ss :: "Subnet list"
    by (induction ss arbitrary: n) (auto simp: comp_def)
  then show ?thesis by (simp add: owned_prefixes_def)
qed

lemma compileSubnet_Inr:
  assumes "compileSubnet re spec = Inr s"
  shows "sn_name s = ss_Name spec"
    "ss_CIDRs spec \<noteq> []"
    "list_all2 (\<lambda>c q. parsePrefix c = Inr q) (ss_CIDRs spec) (sn_prefixes s)"
    "if ss_Ports spec = [] then sn_ports s = defaultPorts
     else list_all2 (\<lambda>c q. parsePortRange c = Inr q) (ss_Ports spec) (sn_ports s)"
    "compileRules re (ss_Allow spec) = Inr (sn_allow s)"
    "\<exists>rs. compileRules re (ss_Deny spec) = Inr rs \<and> sn_deny s = deny_everything rs"
  using assms
  by (auto simp: compileSubnet_def mapM_Inr_iff split: if_splits sum.splits)

lemma default_name_nonempty [simp]: "default_name i n \<noteq> []"
  by (simp add: default_name_def)

lemma New_loop_Inr:
  assumes "New_loop re i specs names owner subnets = Inr out"
  shows "\<exists>news. out = subnets @ news \<and>
     list_all2 (\<lambda>(k, spec) s. compileSubnet re (spec\<lparr>ss_Name := default_name k (ss_Name spec)\<rparr>) = Inr s) (enumerate i specs) news \<and>
     distinct (map sn_name news) \<and> set names \<inter> set (map sn_name news) = {} \<and>
     distinct (concat (map sn_prefixes news)) \<and> fst ` set owner \<inter> set (concat (map sn_prefixes news)) = {}"
  using assms
proof (induction specs arbitrary: i names owner subnets)
  case Nil
  then show ?case by simp
next
  case (Cons spec specs)
  let ?spec = "spec\<lparr>ss_Name := default_name i (ss_Name spec)\<rparr>"
  from Cons.prems obtain s owner' where s: "ss_Name ?spec \<notin> set names" "compileSubnet re ?spec = Inr s"
      "own_prefixes (sn_name s) (sn_prefixes s) owner = Inr owner'"
      "New_loop re (Suc i) specs (ss_Name ?spec # names) owner' (subnets @ [s]) = Inr out"
    by (auto simp: Let_def split: if_splits sum.splits)
  have name: "sn_name s = ss_Name ?spec" using compileSubnet_Inr(1) [OF s(2)] .
  have own: "distinct (sn_prefixes s)" "\<forall>q \<in> set (sn_prefixes s). q \<notin> fst ` set owner"
      "owner' = rev (map (\<lambda>q. (q, sn_name s)) (sn_prefixes s)) @ owner"
    using s(3) unfolding own_prefixes_Inr by auto
  have fst: "fst ` set owner' = set (sn_prefixes s) \<union> fst ` set owner" using own(3) by (auto simp: image_image image_Un)
  obtain news where news: "out = (subnets @ [s]) @ news"
      "list_all2 (\<lambda>(k, spec) s. compileSubnet re (spec\<lparr>ss_Name := default_name k (ss_Name spec)\<rparr>) = Inr s) (enumerate (Suc i) specs) news"
      "distinct (map sn_name news)" "set (ss_Name ?spec # names) \<inter> set (map sn_name news) = {}"
      "distinct (concat (map sn_prefixes news))" "fst ` set owner' \<inter> set (concat (map sn_prefixes news)) = {}"
    using Cons.IH [OF s(4)] by blast
  show ?case
    using news s(1,2) name own(1,2) unfolding fst
    by (intro exI [of _ "s # news"]) auto
qed

lemma Policy_New_Inr:
  assumes "Policy_New re specs = Inr p"
  shows "specs \<noteq> []"
    "list_all2 (\<lambda>(k, spec) s. compileSubnet re (spec\<lparr>ss_Name := default_name k (ss_Name spec)\<rparr>) = Inr s)
       (enumerate 0 specs) (p_subnets p)"
    "distinct (map sn_name (p_subnets p))"
    "distinct (concat (map sn_prefixes (p_subnets p)))"
  using assms New_loop_Inr [of re 0 specs "[]" "[]" "[]"]
  by (auto simp: Policy_New_def split: if_splits sum.splits)

lemma Policy_New_subnet:
  assumes "Policy_New re specs = Inr p" "i < length (p_subnets p)"
  shows "i < length specs \<and>
    compileSubnet re ((specs ! i)\<lparr>ss_Name := default_name i (ss_Name (specs ! i))\<rparr>) = Inr (p_subnets p ! i)"
  using Policy_New_Inr(2) [OF assms(1)] assms(2)
  by (auto simp: list_all2_conv_all_nth nth_enumerate_eq)

lemma compileSubnet_prefix_wf:
  assumes "compileSubnet re spec = Inr s" "q \<in> set (sn_prefixes s)"
  shows "prefix_wf q \<and> \<not> Is4In6 (pfx_addr q)"
proof -
  obtain c where "parsePrefix c = Inr q"
    using compileSubnet_Inr(3) [OF assms(1)] assms(2) by (auto simp: list_all2_conv_all_nth in_set_conv_nth)
  then show ?thesis by (rule parsePrefix_wf)
qed

lemma Policy_New_wf:
  assumes "Policy_New re specs = Inr p"
  shows "policy_wf p"
proof -
  note new = Policy_New_Inr [OF assms]
  have each: "\<exists>spec. compileSubnet re spec = Inr s \<and> ss_Name spec \<noteq> []" if s: "s \<in> set (p_subnets p)" for s
  proof -
    from s obtain i where "i < length (p_subnets p)" "p_subnets p ! i = s" by (auto simp: in_set_conv_nth)
    with Policy_New_subnet [OF assms, of i] show ?thesis
      by (intro exI [of _ "(specs ! i)\<lparr>ss_Name := default_name i (ss_Name (specs ! i))\<rparr>"]) auto
  qed
  have "p_subnets p \<noteq> []" using new(1,2) by (auto dest: list_all2_lengthD)
  moreover have "sn_name s \<noteq> [] \<and> sn_prefixes s \<noteq> []" if "s \<in> set (p_subnets p)" for s
    using each [OF that] compileSubnet_Inr by (fastforce dest: list_all2_lengthD)
  moreover have "prefix_wf q \<and> \<not> Is4In6 (pfx_addr q)" if "q \<in> set (concat (map sn_prefixes (p_subnets p)))" for q
    using that each compileSubnet_prefix_wf by fastforce
  ultimately show ?thesis using new(3,4) by (auto simp: policy_wf_def owned_prefixes_snd)
qed

text \<open>In such a policy the subnet of a client is determined by its longest matching prefix.\<close>

lemma SubnetOf_unique:
  assumes wf: "policy_wf p"
    and i: "(i, q) \<in> set (owned_prefixes p)" "Contains q (Unmap c)"
    and best: "\<And>j r. (j, r) \<in> set (owned_prefixes p) \<Longrightarrow> Contains r (Unmap c) \<Longrightarrow> Bits r \<le> Bits q"
  shows "SubnetOf p c = Some i"
proof (cases "SubnetOf p c")
  case None
  then show ?thesis using i SubnetOf_None_iff by blast
next
  case (Some k)
  then obtain r where r: "(k, r) \<in> set (owned_prefixes p)" "Contains r (Unmap c)" "Bits q \<le> Bits r"
    using SubnetOf_SomeD i by blast
  then have "Bits r = Bits q" using best by force
  then have "pfx_bits r = pfx_bits q"
    using r(2) i(2) by (auto simp: Bits_def Contains_def split: option.splits)
  moreover have "prefix_wf q" "prefix_wf r" using wf i r by (force simp: policy_wf_def)+
  ultimately have "q = r" using prefix_wf_unique i(2) r(2) by metis
  then have "k = i" using wf i(1) r(1) by (metis policy_wf_def distinct_map inj_onD Pair_inject snd_conv)
  then show ?thesis using Some by simp
qed

section \<open>The decision, from the text of the configuration\<close>

text \<open>The pattern \<^verbatim>\<open>*\<close>, as written (blanks and a final dot are dropped).\<close>

definition is_star :: "string \<Rightarrow> bool" where
  "is_star pattern \<longleftrightarrow>
     (let p = TrimSpace pattern in
      \<not> is_regex p \<and> \<not> is_addr_pattern p \<and> ToLower (TrimSuffix p ''.'') = ''*'')"

definition spec_match :: "re_engine \<Rightarrow> string list \<Rightarrow> destination \<Rightarrow> bool" where
  "spec_match re ps d \<longleftrightarrow>
     (if IsValid (dst_addr d) then \<exists>p \<in> set ps. pattern_spec_addr p (dst_addr d)
      else \<exists>p \<in> set ps. pattern_spec_name re p (dst_name d))"

definition spec_deny_addr :: "string list \<Rightarrow> addr \<Rightarrow> bool" where
  "spec_deny_addr ps a \<longleftrightarrow>
     (\<exists>p \<in> set ps. pattern_spec_addr p a) \<or> ((\<exists>p \<in> set ps. is_star p) \<and> IsValid a \<and> Zone a = [])"

definition spec_denied :: "re_engine \<Rightarrow> string list \<Rightarrow> destination \<Rightarrow> bool" where
  "spec_denied re ps d \<longleftrightarrow>
     (if IsValid (dst_addr d) then spec_deny_addr ps (dst_addr d) else spec_match re ps d)"

definition spec_port :: "string list \<Rightarrow> port \<Rightarrow> bool" where
  "spec_port ports p \<longleftrightarrow>
     (if ports = [] then p = 80 \<or> p = 443
      else \<exists>s \<in> set ports. case parsePortRange s of Inl _ \<Rightarrow> False | Inr r \<Rightarrow> pr_lo r \<le> p \<and> p \<le> pr_hi r)"

definition spec_addr_ok :: "SubnetSpec \<Rightarrow> addr \<Rightarrow> bool" where
  "spec_addr_ok spec a \<longleftrightarrow>
     \<not> spec_deny_addr (ss_Deny spec) a \<and> (isPublic a \<or> (\<exists>p \<in> set (ss_Allow spec). pattern_spec_addr p a))"

text \<open>What the rules alone permit, before any name is resolved.\<close>

definition spec_permits :: "re_engine \<Rightarrow> SubnetSpec \<Rightarrow> destination \<Rightarrow> port \<Rightarrow> bool" where
  "spec_permits re spec d p \<longleftrightarrow>
     \<not> spec_denied re (ss_Deny spec) d \<and> spec_match re (ss_Allow spec) d \<and> spec_port (ss_Ports spec) p"

lemma compileNamePattern_any: "compileNamePattern p = Inr (kind, name, m) \<Longrightarrow> kind = anyName \<longleftrightarrow> ToLower (TrimSuffix p ''.'') = ''*''"
  using compileNamePattern_cases [of p kind name m] by (cases kind) auto

lemma ruleSet_add_any:
  assumes "ruleSet_add re rs p = Inr rs'"
  shows "rs_any rs' = [] \<longleftrightarrow> rs_any rs = [] \<and> \<not> is_star p"
  using assms
proof (cases rule: ruleSet_add_cases)
  case (name c)
  obtain kind nm m where c: "c = (kind, nm, m)" by (cases c)
  from compileNamePattern_any [OF name(4) [unfolded c]] name show ?thesis
    by (cases kind) (auto simp: c ruleSet_add_name_def is_star_def Let_def split: option.splits)
qed (auto simp: is_star_def is_addr_pattern_def Let_def)

lemma compileRules_any: "compileRules re ps = Inr rs \<Longrightarrow> rs_any rs = [] \<longleftrightarrow> (\<forall>p \<in> set ps. \<not> is_star p)"
proof (induction ps arbitrary: rs rule: rev_induct)
  case Nil
  then show ?case by (auto simp: compileRules_def ruleSet_empty_def)
next
  case (snoc p ps)
  then show ?case by (auto simp: compileRules_snoc ruleSet_add_any)
qed

lemma deny_everything_matchName [simp]: "matchName (deny_everything rs) n = matchName rs n"
  by (simp add: matchName_def deny_everything_def split: option.splits)

lemma match_addrs_append:
  "match_addrs (xs @ ys) a = (case match_addrs xs a of None \<Rightarrow> match_addrs ys a | Some p \<Rightarrow> Some p)"
  by (induction xs) auto

lemma drop_bit_all [simp]: "drop_bit 32 (x::32 word) = 0" "drop_bit 128 (y::128 word) = 0"
  by (auto intro!: bit_word_eqI simp: bit_simps dest: bit_imp_le_length)

lemma Contains_all:
  "Contains \<lparr>pfx_addr = Addr4 0, pfx_bits = Some 0\<rparr> a \<or> Contains \<lparr>pfx_addr = Addr6 0 [], pfx_bits = Some 0\<rparr> a
     \<longleftrightarrow> IsValid a \<and> Zone a = []"
  by (cases a) auto

lemma deny_everything_matchAddr:
  "matchAddr (deny_everything rs) a = None \<longleftrightarrow>
     matchAddr rs a = None \<and> (rs_any rs = [] \<or> \<not> (IsValid a \<and> Zone a = []))"
  unfolding Contains_all [symmetric]
  by (auto simp: matchAddr_def deny_everything_def match_addrs_append split: option.splits)

lemma deny_everything_prefixes:
  "ParsePrefix ''0.0.0.0/0'' = Inr \<lparr>pfx_addr = Addr4 0, pfx_bits = Some 0\<rparr>"
  "ParsePrefix ''::/0'' = Inr \<lparr>pfx_addr = Addr6 0 [], pfx_bits = Some 0\<rparr>"
  by (simp_all add: eval_simps)

text \<open>A compiled subnet answers each question the way its specification does.\<close>

lemma compiled_deny_addr:
  "compileSubnet re spec = Inr s \<Longrightarrow> matchAddr (sn_deny s) a = None \<longleftrightarrow> \<not> spec_deny_addr (ss_Deny spec) a"
  using compileSubnet_Inr(6) [of re spec s]
  by (auto simp: deny_everything_matchAddr compileRules_matchAddr compileRules_any spec_deny_addr_def)

lemma compiled_allow_addr:
  "compileSubnet re spec = Inr s \<Longrightarrow> matchAddr (sn_allow s) a = None \<longleftrightarrow> (\<forall>p \<in> set (ss_Allow spec). \<not> pattern_spec_addr p a)"
  using compileSubnet_Inr(5) [of re spec s] by (simp add: compileRules_matchAddr)

lemma compiled_denied:
  "compileSubnet re spec = Inr s \<Longrightarrow> ruleSet_match (sn_deny s) d = None \<longleftrightarrow> \<not> spec_denied re (ss_Deny spec) d"
  using compileSubnet_Inr(6) [of re spec s]
  by (auto simp: ruleSet_match_def spec_denied_def spec_match_def compiled_deny_addr compileRules_matchName)

lemma compiled_allowed:
  "compileSubnet re spec = Inr s \<Longrightarrow> ruleSet_match (sn_allow s) d = None \<longleftrightarrow> \<not> spec_match re (ss_Allow spec) d"
  using compileSubnet_Inr(5) [of re spec s]
  by (auto simp: ruleSet_match_def spec_match_def compiled_allow_addr compileRules_matchName)

lemma compiled_port:
  assumes "compileSubnet re spec = Inr s"
  shows "allowsPort s p \<longleftrightarrow> spec_port (ss_Ports spec) p"
proof (cases "ss_Ports spec = []")
  case True
  then show ?thesis using compileSubnet_Inr(4) [OF assms]
    by (auto simp: allowsPort_def spec_port_def defaultPorts_def portRange_contains_def)
next
  case False
  then have l2: "list_all2 (\<lambda>c q. parsePortRange c = Inr q) (ss_Ports spec) (sn_ports s)"
    using compileSubnet_Inr(4) [OF assms] by simp
  have "(\<exists>q \<in> set (sn_ports s). pr_lo q \<le> p \<and> p \<le> pr_hi q) \<longleftrightarrow>
      (\<exists>c \<in> set (ss_Ports spec). case parsePortRange c of Inl _ \<Rightarrow> False | Inr r \<Rightarrow> pr_lo r \<le> p \<and> p \<le> pr_hi r)"
    using l2 by (induction rule: list_all2_induct) auto
  then show ?thesis using False by (simp add: allowsPort_def spec_port_def list_ex_iff portRange_contains_def)
qed

lemma refused_addr_None:
  "refused_addr s as = None \<longleftrightarrow> (\<forall>a \<in> set as. matchAddr (sn_deny s) a = None \<and> (isPublic a \<or> matchAddr (sn_allow s) a \<noteq> None))"
  by (induction as) (auto split: option.splits)

lemma compiled_refused:
  "compileSubnet re spec = Inr s \<Longrightarrow> refused_addr s as = None \<longleftrightarrow> (\<forall>a \<in> set as. spec_addr_ok spec a)"
  by (auto simp: refused_addr_None compiled_deny_addr compiled_allow_addr spec_addr_ok_def)


section \<open>What a check does\<close>

text \<open>How the addresses of a destination are obtained.\<close>

definition dest_addrs :: "ctx \<Rightarrow> 's resolver \<Rightarrow> destination \<Rightarrow> 's \<Rightarrow> addr list result \<times> 's" where
  "dest_addrs c res dst st =
     (if dst_name dst \<noteq> [] then resolve c res (dst_name dst) st else (Inr [dst_addr dst], st))"

lemma Subnet_Check_unfold:
  assumes "compileSubnet re spec = Inr s" "parseHost host = Inr dst" "parsePort port = Inr pn"
    "spec_permits re spec dst pn"
  shows "\<exists>rule. ruleSet_match (sn_allow s) dst = Some rule \<and>
     Subnet_Check s c res host port st =
       (case dest_addrs c res dst st of
          (Inl e, st') \<Rightarrow> (deny_decision (sn_name s) (ReasonErr ''dns lookup failed: '' e) [], st')
        | (Inr addrs, st') \<Rightarrow>
            (case refused_addr s addrs of
               Some (reason, rule) \<Rightarrow> (deny_decision (sn_name s) reason rule, st')
             | None \<Rightarrow>
                 (\<lparr>d_Allow = True, d_Subnet = sn_name s, d_Rule = rule,
                   d_Reason = Reason ''allow rule matched'', d_Addrs = addrs, d_Port = pn\<rparr>, st')))"
proof -
  from assms(4) compiled_denied [OF assms(1)] compiled_allowed [OF assms(1)] compiled_port [OF assms(1)]
  obtain rule where "ruleSet_match (sn_deny s) dst = None" "ruleSet_match (sn_allow s) dst = Some rule" "allowsPort s pn"
    by (fastforce simp: spec_permits_def)
  then show ?thesis using assms(2,3)
    by (simp add: Subnet_Check_def Let_def dest_addrs_def)
qed

text \<open>A request the rules refuse: the decision is a denial and the resolver was not called.\<close>

lemma Subnet_Check_refuses:
  assumes "compileSubnet re spec = Inr s"
    and "\<And>dst pn. parseHost host = Inr dst \<Longrightarrow> parsePort port = Inr pn \<Longrightarrow> \<not> spec_permits re spec dst pn"
  shows "\<exists>reason rule. Subnet_Check s c res host port st = (deny_decision (sn_name s) reason rule, st)"
proof (cases "parseHost host")
  case (Inr dst)
  show ?thesis
  proof (cases "parsePort port")
    case pn: (Inr pn)
    from assms(2) [OF Inr pn] compiled_denied [OF assms(1)] compiled_allowed [OF assms(1)] compiled_port [OF assms(1)]
    have "ruleSet_match (sn_deny s) dst \<noteq> None \<or> ruleSet_match (sn_allow s) dst = None \<or> \<not> allowsPort s pn"
      by (auto simp: spec_permits_def)
    with Inr pn show ?thesis by (auto simp: Subnet_Check_def Let_def split: option.splits)
  qed (use Inr in \<open>auto simp: Subnet_Check_def Let_def\<close>)
qed (auto simp: Subnet_Check_def Let_def)

lemma deny_decision_simps [simp]:
  "\<not> d_Allow (deny_decision n r q)" "d_Addrs (deny_decision n r q) = []" "d_Port (deny_decision n r q) = 0"
  "d_Subnet (deny_decision n r q) = n" "d_Rule (deny_decision n r q) = q" "d_Reason (deny_decision n r q) = r"
  by (simp_all add: deny_decision_def)

text \<open>The addresses of a destination are usable: valid, without zone, not IPv4-mapped.\<close>

lemma usable_addr_Inr: "usable_addr a = Inr b \<longleftrightarrow> b = Unmap a \<and> IsValid b \<and> Zone b = []"
  by (auto simp: usable_addr_def Let_def)

lemma resolve_Inr:
  assumes "resolve c res name st = (Inr addrs, st')"
  shows "\<exists>found. res (WithTimeout c resolveTimeout) ''ip'' name st = (Inr found, st') \<and> found \<noteq> [] \<and>
     addrs = map Unmap found \<and> (\<forall>a \<in> set addrs. IsValid a \<and> Zone a = [] \<and> \<not> Is4In6 a)"
proof -
  obtain found where f: "res (WithTimeout c resolveTimeout) ''ip'' name st = (Inr found, st')" "found \<noteq> []"
      "mapM usable_addr found = Inr addrs"
    using assms by (auto simp: resolve_def split: prod.splits sum.splits if_splits)
  have "list_all2 (\<lambda>x y. y = Unmap x \<and> IsValid y \<and> Zone y = []) found addrs"
    using f(3) by (simp add: mapM_Inr_iff usable_addr_Inr)
  then have "addrs = map Unmap found \<and> (\<forall>a \<in> set addrs. IsValid a \<and> Zone a = [] \<and> \<not> Is4In6 a)"
    by (induction rule: list_all2_induct) auto
  with f show ?thesis by blast
qed

lemma dest_addrs_usable:
  assumes "parseHost host = Inr dst" "dest_addrs c res dst st = (Inr addrs, st')"
  shows "addrs \<noteq> [] \<and> (\<forall>a \<in> set addrs. IsValid a \<and> Zone a = [] \<and> \<not> Is4In6 a)"
proof (cases "dst_name dst = []")
  case True
  with assms parseHost_wf [OF assms(1)] dest_wf_exclusive show ?thesis
    by (fastforce simp: dest_addrs_def dest_wf_def)
next
  case False
  with assms(2) have "resolve c res (dst_name dst) st = (Inr addrs, st')" by (simp add: dest_addrs_def)
  from resolve_Inr [OF this] show ?thesis by auto
qed

text \<open>The exact condition under which a check allows, and what it then returns.\<close>

lemma Subnet_Check_allow_iff:
  assumes s: "compileSubnet re spec = Inr s"
  shows "d_Allow (fst (Subnet_Check s c res host port st)) \<longleftrightarrow>
     (\<exists>dst pn addrs. parseHost host = Inr dst \<and> parsePort port = Inr pn \<and> spec_permits re spec dst pn \<and>
        fst (dest_addrs c res dst st) = Inr addrs \<and> (\<forall>a \<in> set addrs. spec_addr_ok spec a))"
    (is "?A \<longleftrightarrow> ?B")
proof
  assume ?A
  then obtain dst pn where ok: "parseHost host = Inr dst" "parsePort port = Inr pn" "spec_permits re spec dst pn"
    using Subnet_Check_refuses [OF s, of host port c res st] by (metis deny_decision_simps(1) fst_conv)
  have allow: "d_Allow (fst (Subnet_Check s c res host port st))" by (rule \<open>?A\<close>)
  obtain addrs where "fst (dest_addrs c res dst st) = Inr addrs" "refused_addr s addrs = None"
  proof (cases "dest_addrs c res dst st")
    case (Pair r st')
    note unf = Subnet_Check_unfold [OF s ok, of c res st]
    show ?thesis
    proof (cases r)
      case (Inl e)
      with unf Pair allow show ?thesis by simp
    next
      case (Inr addrs)
      with unf Pair allow that show ?thesis by (cases "refused_addr s addrs") auto
    qed
  qed
  with ok compiled_refused [OF s] show ?B by blast
next
  assume ?B
  then obtain dst pn addrs where ok: "parseHost host = Inr dst" "parsePort port = Inr pn" "spec_permits re spec dst pn"
    and a: "fst (dest_addrs c res dst st) = Inr addrs" "refused_addr s addrs = None"
    using compiled_refused [OF s] by blast
  then show ?A using Subnet_Check_unfold [OF s ok, of c res st]
    by (cases "dest_addrs c res dst st") auto
qed

text \<open>What an allowed check returns.\<close>

lemma Subnet_Check_allowed:
  assumes s: "compileSubnet re spec = Inr s"
    and c: "Subnet_Check s c res host port st = (d, st')" "d_Allow d"
  obtains dst rule where "parseHost host = Inr dst" "parsePort port = Inr (d_Port d)"
    "spec_permits re spec dst (d_Port d)" "ruleSet_match (sn_allow s) dst = Some rule" "d_Rule d = rule"
    "dest_addrs c res dst st = (Inr (d_Addrs d), st')"
    "\<forall>a \<in> set (d_Addrs d). spec_addr_ok spec a" "d_Subnet d = sn_name s"
proof -
  from c Subnet_Check_allow_iff [OF s, of c res host port st]
  obtain dst pn addrs where ok: "parseHost host = Inr dst" "parsePort port = Inr pn" "spec_permits re spec dst pn"
    and a: "fst (dest_addrs c res dst st) = Inr addrs" "\<forall>a \<in> set addrs. spec_addr_ok spec a" by auto
  from a compiled_refused [OF s] have none: "refused_addr s addrs = None" by blast
  obtain st2 where da: "dest_addrs c res dst st = (Inr addrs, st2)" using a by (cases "dest_addrs c res dst st") auto
  with Subnet_Check_unfold [OF s ok, of c res st] none c obtain rule where
    "ruleSet_match (sn_allow s) dst = Some rule" "d_Rule d = rule" "d_Addrs d = addrs" "d_Port d = pn" "st' = st2"
    "d_Subnet d = sn_name s"
    by auto
  with ok a da that show thesis by blast
qed

section \<open>Properties\<close>

text \<open>The name given to an unnamed subnet does not matter for what it permits.\<close>

lemma spec_name_irrelevant [simp]:
  "spec_permits re (spec\<lparr>ss_Name := n\<rparr>) = spec_permits re spec"
  "spec_addr_ok (spec\<lparr>ss_Name := n\<rparr>) = spec_addr_ok spec"
  by (auto simp: fun_eq_iff spec_permits_def spec_addr_ok_def)

lemma Policy_Check_subnet:
  assumes "Policy_New re specs = Inr p" "SubnetOf p client = Some i"
  obtains s where "compileSubnet re ((specs ! i)\<lparr>ss_Name := default_name i (ss_Name (specs ! i))\<rparr>) = Inr s"
    "\<And>c res host port st. Policy_Check p c res client host port st = Subnet_Check s c res host port st"
  using Policy_New_subnet [OF assms(1) SubnetOf_bound [OF assms(2)]] assms(2)
  by (auto simp: Policy_Check_def)

text \<open>
  C3.  Exactly which requests are allowed.  A request is allowed if and only if the client is in a
  subnet, host and port are well formed, the subnet's deny patterns do not stand for the
  destination and its allow patterns do, the port is in the subnet's ranges, the addresses
  of the destination could be found, and every one of them is undenied and either public or
  allowed by an address pattern.
\<close>

theorem Policy_Check_allows_iff:
  assumes "Policy_New re specs = Inr p"
  shows "d_Allow (fst (Policy_Check p c res client host port st)) \<longleftrightarrow>
    (\<exists>i dst pn addrs. SubnetOf p client = Some i \<and> parseHost host = Inr dst \<and> parsePort port = Inr pn \<and>
       spec_permits re (specs ! i) dst pn \<and> fst (dest_addrs c res dst st) = Inr addrs \<and>
       (\<forall>a \<in> set addrs. spec_addr_ok (specs ! i) a))"
proof (cases "SubnetOf p client")
  case None
  then show ?thesis by (simp add: Policy_Check_def)
next
  case (Some i)
  from Policy_Check_subnet [OF assms Some] obtain s where
    s: "compileSubnet re ((specs ! i)\<lparr>ss_Name := default_name i (ss_Name (specs ! i))\<rparr>) = Inr s"
      "Policy_Check p c res client host port st = Subnet_Check s c res host port st" by metis
  from Subnet_Check_allow_iff [OF s(1), of c res host port st] Some show ?thesis by (simp add: s(2))
qed

text \<open>
  C4.  What an allowed request may be connected to.  The decision carries at least one address,
  each valid, without zone, not IPv4-mapped, not denied, and public unless an address pattern
  of the allow list covers it; for a host name they are the addresses of one answer of the
  resolver, and the port is the one requested.
\<close>

theorem Policy_Check_targets:
  assumes "Policy_New re specs = Inr p" "Policy_Check p c res client host port st = (d, st')" "d_Allow d"
  shows "d_Addrs d \<noteq> [] \<and> port = itoa (unat (d_Port d)) \<and> d_Port d \<noteq> 0 \<and>
    (\<forall>a \<in> set (d_Addrs d). IsValid a \<and> Zone a = [] \<and> \<not> Is4In6 a) \<and>
    (\<exists>i dst. SubnetOf p client = Some i \<and> parseHost host = Inr dst \<and>
       (\<forall>a \<in> set (d_Addrs d). \<not> spec_deny_addr (ss_Deny (specs ! i)) a \<and>
          (isPublic a \<or> (\<exists>q \<in> set (ss_Allow (specs ! i)). pattern_spec_addr q a))) \<and>
       (if dst_name dst = [] then d_Addrs d = [dst_addr dst] \<and> st' = st
        else \<exists>found. res (WithTimeout c resolveTimeout) ''ip'' (dst_name dst) st = (Inr found, st') \<and>
               d_Addrs d = map Unmap found))"
proof -
  from assms obtain i where i: "SubnetOf p client = Some i"
    by (cases "SubnetOf p client") (auto simp: Policy_Check_def)
  from Policy_Check_subnet [OF assms(1) i] obtain s where
    s: "compileSubnet re ((specs ! i)\<lparr>ss_Name := default_name i (ss_Name (specs ! i))\<rparr>) = Inr s"
      "Policy_Check p c res client host port st = Subnet_Check s c res host port st" by metis
  from Subnet_Check_allowed [OF s(1) assms(2) [unfolded s(2)] assms(3)] obtain dst where d:
    "parseHost host = Inr dst" "parsePort port = Inr (d_Port d)" "dest_addrs c res dst st = (Inr (d_Addrs d), st')"
    "\<forall>a \<in> set (d_Addrs d). spec_addr_ok (specs ! i) a" by (metis spec_name_irrelevant(2))
  have src: "if dst_name dst = [] then d_Addrs d = [dst_addr dst] \<and> st' = st
      else \<exists>found. res (WithTimeout c resolveTimeout) ''ip'' (dst_name dst) st = (Inr found, st') \<and> d_Addrs d = map Unmap found"
    using d(3) resolve_Inr [of c res "dst_name dst" st "d_Addrs d" st'] by (auto simp: dest_addrs_def)
  show ?thesis
    using dest_addrs_usable [OF d(1,3)] d(2,4) i d(1) src
    by (intro conjI exI [of _ i] exI [of _ dst]) (auto simp: parsePort_iff spec_addr_ok_def)
qed

text \<open>
  C20.  A denied request carries nothing to connect to, and the resolver is asked only when the
  rules and the port already permit the destination: a request the rules refuse leaves the
  resolver's state unchanged.
\<close>

theorem Policy_Check_denial:
  assumes "Policy_New re specs = Inr p" "Policy_Check p c res client host port st = (d, st')" "\<not> d_Allow d"
  shows "d_Addrs d = [] \<and> d_Port d = 0 \<and>
    (st' \<noteq> st \<longrightarrow> (\<exists>i dst pn. SubnetOf p client = Some i \<and> parseHost host = Inr dst \<and> dst_name dst \<noteq> [] \<and>
        parsePort port = Inr pn \<and> spec_permits re (specs ! i) dst pn))"
proof (cases "SubnetOf p client")
  case None
  then show ?thesis using assms by (auto simp: Policy_Check_def)
next
  case (Some i)
  let ?spec = "(specs ! i)\<lparr>ss_Name := default_name i (ss_Name (specs ! i))\<rparr>"
  from Policy_Check_subnet [OF assms(1) Some] obtain s where
    s: "compileSubnet re ?spec = Inr s" "Policy_Check p c res client host port st = Subnet_Check s c res host port st" by metis
  show ?thesis
  proof (cases "\<exists>dst pn. parseHost host = Inr dst \<and> parsePort port = Inr pn \<and> spec_permits re ?spec dst pn")
    case True
    then obtain dst pn where ok: "parseHost host = Inr dst" "parsePort port = Inr pn" "spec_permits re ?spec dst pn" by blast
    obtain ans st2 where da: "dest_addrs c res dst st = (ans, st2)" by fastforce
    with Subnet_Check_unfold [OF s(1) ok, of c res st] assms(2,3) s(2)
    have "d_Addrs d = [] \<and> d_Port d = 0 \<and> st' = st2"
      by (cases ans) (auto split: option.splits)
    moreover have "st2 \<noteq> st \<Longrightarrow> dst_name dst \<noteq> []" using da by (auto simp: dest_addrs_def)
    ultimately show ?thesis using ok Some by auto
  next
    case False
    then obtain reason rule where "Subnet_Check s c res host port st = (deny_decision (sn_name s) reason rule, st)"
      using Subnet_Check_refuses [OF s(1), of host port c res st] by auto
    then show ?thesis using assms(2) s(2) by auto
  qed
qed

lemmas [eval_simps] =
  Policy_New_def compileSubnet_def own_prefixes.simps default_name_def deny_everything_def defaultPorts_def
  SubnetOf_def scan_subnets.simps scan_prefixes.simps Bits_def Policy_Check_def Subnet_Check_def
  allowsPort_def usable_addr_def resolve_def deny_decision_def WithTimeout_def resolveTimeout_def

text \<open>A policy of one subnet, a resolver that counts its calls, and the context of a client.\<close>

definition demo_specs :: "SubnetSpec list" where
  "demo_specs = [\<lparr>ss_Name = ''lan'', ss_CIDRs = [''192.168.1.0/24''], ss_Ports = [],
     ss_Allow = [''.example.com''], ss_Deny = [''10.0.0.0/8'']\<rparr>]"

definition demo_policy :: Policy where
  "demo_policy = \<lparr>p_subnets = [\<lparr>sn_name = ''lan'', sn_prefixes = [\<lparr>pfx_addr = Addr4 0xc0a80100, pfx_bits = Some 24\<rparr>],
     sn_ports = defaultPorts,
     sn_allow = ruleSet_empty\<lparr>rs_suffix := [(''example.com'', ''.example.com'')]\<rparr>,
     sn_deny = ruleSet_empty\<lparr>rs_addrs := [\<lparr>ar_pattern = ''10.0.0.0/8'', ar_prefix = \<lparr>pfx_addr = Addr4 0x0a000000, pfx_bits = Some 8\<rparr>\<rparr>]\<rparr>\<rparr>]\<rparr>"

definition demo_resolver :: "addr \<Rightarrow> nat resolver" where
  "demo_resolver a c net host st = (Inr [a], Suc st)"

abbreviation demo_ctx :: ctx where
  "demo_ctx \<equiv> \<lparr>ctx_client = None, ctx_timeout = None\<rparr>"

lemma demo_policy_compiled: "Policy_New MustCompile demo_specs = Inr demo_policy"
  by (simp add: demo_specs_def demo_policy_def eval_simps)

definition demo_allowed :: Decision where
  "demo_allowed = \<lparr>d_Allow = True, d_Subnet = ''lan'', d_Rule = ''.example.com'', d_Reason = Reason ''allow rule matched'',
     d_Addrs = [Addr4 0x08080808], d_Port = 443\<rparr>"

lemma isPublic_dns: "isPublic (Addr4 0x08080808)"
  by (simp add: isPublic_4 nonpublic4_def)

lemma demo_check:
  "Policy_Check demo_policy demo_ctx (demo_resolver (Addr4 0x08080808)) (Addr4 0xc0a80107) ''www.example.com'' ''443'' 0 =
     (demo_allowed, 1)"
  by (simp add: demo_policy_def demo_allowed_def demo_resolver_def isPublic_dns eval_simps)

lemma demo_check_denied:
  "Policy_Check demo_policy demo_ctx (demo_resolver (Addr4 0x0a000001)) (Addr4 0xc0a80107) ''www.example.com'' ''443'' 0 =
     (deny_decision ''lan'' (Reason ''address 10.0.0.1 matched deny rule'') ''10.0.0.0/8'', 1)"
  by (simp add: demo_policy_def demo_resolver_def eval_simps)

lemma demo_subnet: "SubnetOf demo_policy (Addr4 0xc0a80107) = Some 0"
  by (simp add: demo_policy_def eval_simps)

theorem Policy_Check_allows_iff_witness:
  "\<exists>dst pn addrs. parseHost ''www.example.com'' = Inr dst \<and> parsePort ''443'' = Inr pn \<and>
     spec_permits MustCompile (demo_specs ! 0) dst pn \<and>
     fst (dest_addrs demo_ctx (demo_resolver (Addr4 0x08080808)) dst 0) = Inr addrs \<and> list_all (spec_addr_ok (demo_specs ! 0)) addrs"
  using Policy_Check_allows_iff [OF demo_policy_compiled, of demo_ctx "demo_resolver (Addr4 0x08080808)" "Addr4 0xc0a80107"
      "''www.example.com''" "''443''" 0]
  unfolding demo_check demo_subnet list_all_iff by (simp add: demo_allowed_def)

theorem Policy_Check_targets_witness:
  "d_Allow demo_allowed \<and> d_Addrs demo_allowed \<noteq> [] \<and> ''443'' = itoa (unat (d_Port demo_allowed))"
proof -
  have allow: "d_Allow demo_allowed" by (simp add: demo_allowed_def)
  with Policy_Check_targets [OF demo_policy_compiled demo_check allow] show ?thesis by blast
qed

theorem Policy_Check_denial_witness:
  "\<exists>dst pn. parseHost ''www.example.com'' = Inr dst \<and> parsePort ''443'' = Inr pn \<and> spec_permits MustCompile (demo_specs ! 0) dst pn"
  using Policy_Check_denial [OF demo_policy_compiled demo_check_denied] demo_subnet by auto

text \<open>
  C9.  A client's subnet is decided by longest prefix match: the subnet found lists a prefix that
  contains the client's address (an IPv4-mapped address counts as IPv4) and no prefix of any
  subnet that contains it is longer; no subnet is found only if no prefix contains it; and in
  a compiled policy the owner of the longest such prefix is the one found, whatever the order.
\<close>

theorem SubnetOf_longest:
  assumes "Policy_New re specs = Inr p"
  shows "SubnetOf p client = Some i \<longleftrightarrow>
    (\<exists>pfx. (i, pfx) \<in> set (owned_prefixes p) \<and> Contains pfx (Unmap client) \<and>
       (\<forall>j q. (j, q) \<in> set (owned_prefixes p) \<longrightarrow> Contains q (Unmap client) \<longrightarrow> Bits q \<le> Bits pfx))"
  using SubnetOf_SomeD SubnetOf_unique [OF Policy_New_wf [OF assms]] by metis

theorem SubnetOf_longest_witness:
  "\<exists>pfx. (0, pfx) \<in> set (owned_prefixes demo_policy) \<and> Contains pfx (Unmap (Addr4 0xc0a80107))"
  using SubnetOf_longest [OF demo_policy_compiled] demo_subnet by blast

text \<open>
  C24.  A policy that compiles is well formed: it has a subnet, every subnet has a name and a
  prefix, no two subnets have the same name, no prefix is listed twice anywhere, and every
  prefix is canonical (host bits clear, no zone, not IPv4-mapped).
\<close>

theorem Policy_New_sound:
  assumes "Policy_New re specs = Inr p"
  shows "policy_wf p \<and> length (p_subnets p) = length specs \<and>
    (\<forall>i < length specs. sn_name (p_subnets p ! i) = default_name i (ss_Name (specs ! i)))"
proof (intro conjI allI impI)
  show wf: "policy_wf p" using assms by (rule Policy_New_wf)
  show len: "length (p_subnets p) = length specs" using Policy_New_Inr(2) [OF assms] by (auto dest: list_all2_lengthD)
  show "sn_name (p_subnets p ! i) = default_name i (ss_Name (specs ! i))" if "i < length specs" for i
    using Policy_New_subnet [OF assms, of i] compileSubnet_Inr(1) that len by fastforce
qed

theorem Policy_New_sound_witness: "policy_wf demo_policy \<and> length (p_subnets demo_policy) = 1"
  using Policy_New_sound [OF demo_policy_compiled] by (simp add: demo_specs_def)

text \<open>
  C19.  A deny list with \<^verbatim>\<open>*\<close> denies every destination, names and addresses alike, whatever
  the allow list says.
\<close>

theorem deny_star_denies:
  assumes "Policy_New re specs = Inr p" "SubnetOf p client = Some i" "''*'' \<in> set (ss_Deny (specs ! i))"
  shows "\<not> d_Allow (fst (Policy_Check p c res client host port st))"
proof
  let ?spec = "(specs ! i)\<lparr>ss_Name := default_name i (ss_Name (specs ! i))\<rparr>"
  assume allow: "d_Allow (fst (Policy_Check p c res client host port st))"
  from Policy_Check_subnet [OF assms(1,2)] obtain s where
    s: "compileSubnet re ?spec = Inr s" "Policy_Check p c res client host port st = Subnet_Check s c res host port st" by metis
  from allow Subnet_Check_allow_iff [OF s(1), of c res host port st] obtain dst pn where
    d: "parseHost host = Inr dst" "spec_permits re (specs ! i) dst pn" unfolding s(2) by auto
  have star: "is_star ''*''" "pattern_spec_name re ''*'' n" for n
    by (simp_all add: is_star_def eval_simps)
  have "spec_denied re (ss_Deny (specs ! i)) dst"
    using parseHost_wf [OF d(1)] star assms(3)
    by (auto simp: spec_denied_def spec_deny_addr_def spec_match_def dest_wf_def)
  then show False using d(2) by (simp add: spec_permits_def)
qed

lemma demo_closed:
  "\<exists>p. Policy_New MustCompile [\<lparr>ss_Name = [], ss_CIDRs = [''::/0''], ss_Ports = [], ss_Allow = [''*''], ss_Deny = [''*'']\<rparr>] = Inr p \<and>
     SubnetOf p (Addr6 1 []) = Some 0"
  by (simp add: eval_simps)

theorem deny_star_denies_witness:
  "\<exists>p. Policy_New MustCompile [\<lparr>ss_Name = [], ss_CIDRs = [''::/0''], ss_Ports = [], ss_Allow = [''*''], ss_Deny = [''*'']\<rparr>] = Inr p \<and>
     \<not> d_Allow (fst (Policy_Check p demo_ctx (demo_resolver (Addr4 0x08080808)) (Addr6 1 []) ''example.com'' ''443'' 0))"
proof -
  from demo_closed obtain p where p: "Policy_New MustCompile
      [\<lparr>ss_Name = [], ss_CIDRs = [''::/0''], ss_Ports = [], ss_Allow = [''*''], ss_Deny = [''*'']\<rparr>] = Inr p"
    "SubnetOf p (Addr6 1 []) = Some 0" by blast
  have "\<not> d_Allow (fst (Policy_Check p demo_ctx (demo_resolver (Addr4 0x08080808)) (Addr6 1 []) ''example.com'' ''443'' 0))"
    by (rule deny_star_denies [OF p]) simp
  with p show ?thesis by blast
qed

text \<open>
  One lookup decides: a check asks the resolver at most once, for the lower-case name without
  final dot, on the network \<^verbatim>\<open>ip\<close>, within five seconds or the shorter limit already set, so
  two resolvers that answer that one question alike lead to the same decision and state.
\<close>

theorem Policy_Check_one_lookup:
  assumes "\<And>dst. parseHost host = Inr dst \<Longrightarrow>
      res (WithTimeout c (5 * 10 ^ 9)) ''ip'' (dst_name dst) st = res' (WithTimeout c (5 * 10 ^ 9)) ''ip'' (dst_name dst) st"
  shows "Policy_Check p c res client host port st = Policy_Check p c res' client host port st"
proof (cases "parseHost host")
  case (Inl e)
  then show ?thesis by (simp add: Policy_Check_def Subnet_Check_def split: option.splits)
next
  case (Inr dst)
  then have eq: "resolve c res (dst_name dst) st = resolve c res' (dst_name dst) st"
    using assms by (simp add: resolve_def resolveTimeout_def)
  have "Subnet_Check s c res host port st = Subnet_Check s c res' host port st" for s
    unfolding Subnet_Check_def Inr sum.case eq ..
  then show ?thesis by (simp add: Policy_Check_def split: option.split)
qed

end
