(* ===== verification/Float64.thy ===== *)
theory Float64
  imports Prelude "HOL-Library.Log_Nat"
begin

text \<open>
  Go's \<^verbatim>\<open>float64\<close> (IEEE 754 binary64, round to nearest, ties to even) over the rationals: a
  value is not-a-number, an infinity, or a finite rational; the two zeros are one value, which no
  code of the program can tell apart.  An operation computes the exact result and rounds it.
\<close>

datatype float64 = FNaN | FInf bool | FFin rat

section \<open>Rounding\<close>

definition round_even :: "rat \<Rightarrow> int" where
  "round_even x =
     (let n = \<lfloor>x\<rfloor>; r = x - of_int n in
      if r < 1 / 2 then n else if r > 1 / 2 then n + 1 else if even n then n else n + 1)"

text \<open>The exponent of a positive rational: \<open>2 powi ilog2 x \<le> x < 2 powi (ilog2 x + 1)\<close>.\<close>

definition ilog2 :: "rat \<Rightarrow> int" where
  "ilog2 x = (if 1 \<le> x then bitlen \<lfloor>x\<rfloor> - 1 else - bitlen (\<lceil>1 / x\<rceil> - 1))"

text \<open>The distance of neighbouring floats around \<open>x\<close>, down to the subnormal step.\<close>

definition ulp_exp :: "rat \<Rightarrow> int" where
  "ulp_exp x = max (ilog2 \<bar>x\<bar> - 52) (-1074)"

definition rnd :: "rat \<Rightarrow> rat" where
  "rnd x =
     (if x = 0 then 0
      else of_int (round_even (x / 2 powi ulp_exp x)) * 2 powi ulp_exp x)"

definition to_float :: "rat \<Rightarrow> float64" where
  "to_float x = (let y = rnd x in if \<bar>y\<bar> \<ge> 2 ^ 1024 then FInf (x < 0) else FFin y)"

section \<open>Operations\<close>

definition float_of_int :: "int \<Rightarrow> float64" where
  "float_of_int n = to_float (of_int n)"

fun float_add :: "float64 \<Rightarrow> float64 \<Rightarrow> float64" where
  "float_add FNaN _ = FNaN"
| "float_add _ FNaN = FNaN"
| "float_add (FInf s) (FInf t) = (if s = t then FInf s else FNaN)"
| "float_add (FInf s) (FFin _) = FInf s"
| "float_add (FFin _) (FInf t) = FInf t"
| "float_add (FFin x) (FFin y) = to_float (x + y)"

fun float_neg :: "float64 \<Rightarrow> float64" where
  "float_neg FNaN = FNaN"
| "float_neg (FInf s) = FInf (\<not> s)"
| "float_neg (FFin x) = FFin (- x)"

definition float_sub :: "float64 \<Rightarrow> float64 \<Rightarrow> float64" where
  "float_sub x y = float_add x (float_neg y)"

fun float_mul :: "float64 \<Rightarrow> float64 \<Rightarrow> float64" where
  "float_mul FNaN _ = FNaN"
| "float_mul _ FNaN = FNaN"
| "float_mul (FInf s) (FInf t) = FInf (s \<noteq> t)"
| "float_mul (FInf s) (FFin y) = (if y = 0 then FNaN else FInf (s \<noteq> (y < 0)))"
| "float_mul (FFin x) (FInf t) = (if x = 0 then FNaN else FInf ((x < 0) \<noteq> t))"
| "float_mul (FFin x) (FFin y) = to_float (x * y)"

text \<open>Division is used with a finite non-zero divisor only; the other cases are not-a-number here.\<close>

fun float_div :: "float64 \<Rightarrow> float64 \<Rightarrow> float64" where
  "float_div (FFin x) (FFin y) = (if y = 0 then FNaN else to_float (x / y))"
| "float_div _ _ = FNaN"

fun float_less :: "float64 \<Rightarrow> float64 \<Rightarrow> bool" where
  "float_less FNaN _ \<longleftrightarrow> False"
| "float_less _ FNaN \<longleftrightarrow> False"
| "float_less (FInf s) (FInf t) \<longleftrightarrow> s \<and> \<not> t"
| "float_less (FInf s) (FFin _) \<longleftrightarrow> s"
| "float_less (FFin _) (FInf t) \<longleftrightarrow> \<not> t"
| "float_less (FFin x) (FFin y) \<longleftrightarrow> x < y"

fun float_le :: "float64 \<Rightarrow> float64 \<Rightarrow> bool" where
  "float_le FNaN _ \<longleftrightarrow> False"
| "float_le _ FNaN \<longleftrightarrow> False"
| "float_le (FInf s) (FInf t) \<longleftrightarrow> s \<or> \<not> t"
| "float_le (FInf s) (FFin _) \<longleftrightarrow> s"
| "float_le (FFin _) (FInf t) \<longleftrightarrow> \<not> t"
| "float_le (FFin x) (FFin y) \<longleftrightarrow> x \<le> y"

text \<open>The builtin \<^verbatim>\<open>min\<close>: not-a-number if either argument is.\<close>

definition float_min :: "float64 \<Rightarrow> float64 \<Rightarrow> float64" where
  "float_min x y = (if x = FNaN \<or> y = FNaN then FNaN else if float_less y x then y else x)"

fun float_IsNaN :: "float64 \<Rightarrow> bool" where
  "float_IsNaN FNaN \<longleftrightarrow> True"
| "float_IsNaN _ \<longleftrightarrow> False"

text \<open>\<^verbatim>\<open>math.IsInf(f, 0)\<close>: either infinity.\<close>

fun float_IsInf :: "float64 \<Rightarrow> bool" where
  "float_IsInf (FInf _) \<longleftrightarrow> True"
| "float_IsInf _ \<longleftrightarrow> False"

section \<open>Properties of rounding\<close>

lemma round_even_close: "\<bar>of_int (round_even x) - x\<bar> \<le> 1 / 2"
proof -
  define n where "n = \<lfloor>x\<rfloor>"
  have "of_int n \<le> x" "x < of_int n + 1" using floor_correct [of x] by (auto simp: n_def)
  then show ?thesis unfolding round_even_def Let_def abs_le_iff n_def [symmetric] by (auto split: if_splits)
qed

lemma round_even_int [simp]: "round_even (of_int n) = n"
  by (simp add: round_even_def)

lemma round_even_mono:
  assumes "x \<le> y"
  shows "round_even x \<le> round_even y"
proof (cases "\<lfloor>x\<rfloor> = \<lfloor>y\<rfloor>")
  case True
  then show ?thesis using assms by (auto simp: round_even_def Let_def)
next
  case False
  with assms have "\<lfloor>x\<rfloor> + 1 \<le> \<lfloor>y\<rfloor>" using floor_mono [OF assms] by linarith
  moreover have "round_even x \<le> \<lfloor>x\<rfloor> + 1" "\<lfloor>y\<rfloor> \<le> round_even y" by (auto simp: round_even_def Let_def)
  ultimately show ?thesis by linarith
qed

text \<open>Comparisons of integers with powers of two, carried over to the rationals.\<close>

lemma two_power_rat:
  "2 ^ k \<le> n \<Longrightarrow> (2::rat) ^ k \<le> of_int n" "n \<le> 2 ^ k \<Longrightarrow> of_int n \<le> (2::rat) ^ k"
  "n < 2 ^ k \<Longrightarrow> of_int n + 1 \<le> (2::rat) ^ k" "n < 2 ^ k \<Longrightarrow> of_int n < (2::rat) ^ k"
proof -
  have eq: "(2::rat) ^ k = of_int (2 ^ k)" by simp
  show "2 ^ k \<le> n \<Longrightarrow> (2::rat) ^ k \<le> of_int n" "n \<le> 2 ^ k \<Longrightarrow> of_int n \<le> (2::rat) ^ k"
    "n < 2 ^ k \<Longrightarrow> of_int n < (2::rat) ^ k" by simp_all
  assume "n < 2 ^ k"
  then have "of_int (n + 1) \<le> (of_int (2 ^ k) :: rat)" by (simp only: of_int_le_iff)
  then show "of_int n + 1 \<le> (2::rat) ^ k" by simp
qed

lemma ilog2_bounds:
  assumes "0 < x"
  shows "2 powi ilog2 x \<le> x \<and> x < 2 powi (ilog2 x + 1)"
proof (cases "1 \<le> x")
  case True
  let ?n = "\<lfloor>x\<rfloor>"
  have n: "0 < ?n" using True by simp
  have b: "2 ^ nat (bitlen ?n - 1) \<le> ?n" "?n < 2 ^ nat (bitlen ?n)" using bitlen_bounds [OF n] by auto
  have pos: "1 \<le> bitlen ?n" using n by (simp add: bitlen_def floorlog_def)
  have "(2::rat) ^ nat (bitlen ?n - 1) \<le> of_int ?n" using b(1) by (rule two_power_rat)
  then have "2 ^ nat (bitlen ?n - 1) \<le> x" using of_int_floor_le [of x] by (rule order_trans)
  then have lo: "2 powi (bitlen ?n - 1) \<le> x" using pos by (simp add: power_int_def)
  have "of_int ?n + 1 \<le> (2::rat) ^ nat (bitlen ?n)" using b(2) by (rule two_power_rat)
  then have "x < 2 powi bitlen ?n" using pos floor_correct [of x] by (simp add: power_int_def)
  then show ?thesis using True lo by (simp add: ilog2_def)
next
  case False
  let ?m = "\<lceil>1 / x\<rceil> - 1"
  have m: "0 < ?m" using False assms by (simp add: less_ceiling_iff)
  have b: "2 ^ nat (bitlen ?m - 1) \<le> ?m" "?m < 2 ^ nat (bitlen ?m)" using bitlen_bounds [OF m] by auto
  have pos: "1 \<le> bitlen ?m" using m by (simp add: bitlen_def floorlog_def)
  have "of_int ?m + 1 \<le> (2::rat) ^ nat (bitlen ?m)" using b(2) by (rule two_power_rat)
  then have "1 / x \<le> 2 ^ nat (bitlen ?m)" using ceiling_correct [of "1 / x"] by linarith
  then have lo: "2 powi (- bitlen ?m) \<le> x" using assms pos by (simp add: power_int_minus power_int_def field_simps)
  have "(2::rat) ^ nat (bitlen ?m - 1) \<le> of_int ?m" using b(1) by (rule two_power_rat)
  then have "2 ^ nat (bitlen ?m - 1) < 1 / x" using ceiling_correct [of "1 / x"] by linarith
  then have "x < 1 / 2 ^ nat (bitlen ?m - 1)" using assms by (simp add: field_simps)
  also have "\<dots> = 2 powi (- (bitlen ?m - 1))" using pos by (simp add: power_int_minus power_int_def field_simps)
  finally show ?thesis using False lo by (simp add: ilog2_def)
qed

text \<open>The finite floats that are not negative.\<close>

definition is_float :: "rat \<Rightarrow> bool" where
  "is_float y \<longleftrightarrow> (\<exists>m q. 0 \<le> m \<and> m \<le> 2 ^ 53 \<and> -1074 \<le> q \<and> y = of_int m * 2 powi q)"

lemma ilog2_le:
  assumes "0 < x" "x < 2 powi k"
  shows "ilog2 x < k"
proof (rule ccontr)
  assume "\<not> ilog2 x < k"
  then have "(2::rat) powi k \<le> 2 powi ilog2 x" by (intro power_int_increasing) auto
  then show False using ilog2_bounds [OF assms(1)] assms(2) by linarith
qed

lemma ilog2_mono: "0 < x \<Longrightarrow> x \<le> y \<Longrightarrow> ilog2 x \<le> ilog2 y"
proof -
  assume "0 < x" "x \<le> y"
  moreover have "y < 2 powi (ilog2 y + 1)" using ilog2_bounds [of y] calculation by auto
  ultimately show ?thesis using ilog2_le [of x "ilog2 y + 1"] by linarith
qed

lemma ulp_exp_mono: "0 < x \<Longrightarrow> x \<le> y \<Longrightarrow> ulp_exp x \<le> ulp_exp y"
  using ilog2_mono [of x y] by (auto simp: ulp_exp_def)

lemma two_powi_pos [simp]: "0 < (2::rat) powi k"
  by (rule zero_less_power_int) simp

lemma below_ulp: "0 < x \<Longrightarrow> x < 2 powi (ulp_exp x + 53)"
proof -
  assume x: "0 < x"
  have "(2::rat) powi (ilog2 x + 1) \<le> 2 powi (ulp_exp x + 53)"
    by (intro power_int_increasing) (use x in \<open>auto simp: ulp_exp_def\<close>)
  then show ?thesis using ilog2_bounds [OF x] by linarith
qed

lemma rnd_zero [simp]: "rnd 0 = 0"
  by (simp add: rnd_def)

lemma rnd_error: "\<bar>rnd x - x\<bar> \<le> 2 powi ulp_exp x / 2"
proof (cases "x = 0")
  case False
  let ?u = "2 powi ulp_exp x :: rat"
  have "rnd x - x = (of_int (round_even (x / ?u)) - x / ?u) * ?u"
    using False by (simp add: rnd_def left_diff_distrib)
  then have "\<bar>rnd x - x\<bar> = \<bar>of_int (round_even (x / ?u)) - x / ?u\<bar> * ?u" by (simp add: abs_mult)
  also have "\<dots> \<le> 1 / 2 * ?u" using round_even_close [of "x / ?u"] by (intro mult_right_mono) auto
  finally show ?thesis by simp
qed simp

lemma rnd_mantissa:
  assumes "0 < x"
  shows "0 \<le> round_even (x / 2 powi ulp_exp x) \<and> round_even (x / 2 powi ulp_exp x) \<le> 2 ^ 53"
proof
  let ?u = "2 powi ulp_exp x :: rat"
  have "0 \<le> x / ?u" using assms by simp
  from round_even_mono [OF this] show "0 \<le> round_even (x / ?u)" using round_even_int [of 0] by simp
  have "x / ?u \<le> 2 ^ 53"
    using below_ulp [OF assms] by (simp add: power_int_add pos_divide_le_eq mult.commute)
  then have "x / ?u \<le> of_int (2 ^ 53)" by simp
  from round_even_mono [OF this] show "round_even (x / ?u) \<le> 2 ^ 53" by (simp only: round_even_int)
qed

lemma rnd_is_float: "0 \<le> x \<Longrightarrow> is_float (rnd x)"
proof (cases "x = 0")
  case True
  then show ?thesis unfolding is_float_def by (intro exI [of _ 0]) auto
next
  case False
  assume "0 \<le> x"
  with False have "0 < x" by simp
  then show ?thesis unfolding is_float_def using rnd_mantissa False
    by (intro exI [of _ "round_even (x / 2 powi ulp_exp x)"] exI [of _ "ulp_exp x"])
      (auto simp: rnd_def ulp_exp_def)
qed

lemma rnd_exact_small:
  assumes "0 < m" "m < 2 ^ 53" "-1074 \<le> q"
  shows "rnd (of_int m * 2 powi q) = of_int m * 2 powi q"
proof -
  let ?y = "of_int m * 2 powi q :: rat"
  have y: "0 < ?y" using assms(1) by simp
  have "(of_int m :: rat) < 2 ^ 53" using assms(2) by (rule two_power_rat)
  then have "?y < 2 powi (q + 53)" by (simp add: power_int_add mult.commute)
  then have "ilog2 ?y < q + 53" using ilog2_le [OF y] by blast
  then have le: "ulp_exp ?y \<le> q" using assms(3) y by (simp add: ulp_exp_def abs_of_pos)
  define k where "k = nat (q - ulp_exp ?y)"
  have "?y / 2 powi ulp_exp ?y = of_int m * 2 powi (q - ulp_exp ?y)"
    by (simp add: power_int_diff)
  also have "\<dots> = of_int (m * 2 ^ k)" using le by (simp add: k_def power_int_def)
  finally have "of_int (round_even (?y / 2 powi ulp_exp ?y)) = ?y / 2 powi ulp_exp ?y"
    by (simp only: round_even_int)
  then show ?thesis using y by (simp add: rnd_def)
qed

lemma rnd_float: "is_float y \<Longrightarrow> rnd y = y"
proof -
  assume "is_float y"
  then obtain m q where m: "0 \<le> m" "m \<le> 2 ^ 53" "-1074 \<le> q" "y = of_int m * 2 powi q" by (auto simp: is_float_def)
  consider "m = 0" | "0 < m" "m < 2 ^ 53" | "m = 2 ^ 53" using m by linarith
  then show ?thesis
  proof cases
    case 3
    then have "y = of_int (2 ^ 52) * 2 powi (q + 1)" using m by (simp add: power_int_add)
    then show ?thesis using rnd_exact_small [of "2 ^ 52" "q + 1"] m by simp
  qed (use m rnd_exact_small in auto)
qed

lemma rnd_mono:
  assumes "0 \<le> x" "x \<le> y"
  shows "rnd x \<le> rnd y"
proof (cases "x = 0")
  case True
  then show ?thesis using rnd_is_float [of y] assms by (auto simp: is_float_def)
next
  case False
  then have x: "0 < x" and y: "0 < y" using assms by auto
  let ?u = "2 powi ulp_exp x :: rat" and ?v = "2 powi ulp_exp y :: rat"
  have rx: "rnd x = of_int (round_even (x / ?u)) * ?u" and ry: "rnd y = of_int (round_even (y / ?v)) * ?v"
    using x y by (auto simp: rnd_def)
  show ?thesis
  proof (cases "ulp_exp x = ulp_exp y")
    case True
    have "x / ?v \<le> y / ?v" using assms(2) by (simp add: divide_right_mono)
    then show ?thesis using round_even_mono True rx ry by (simp add: mult_right_mono)
  next
    case False
    then have lt: "ulp_exp x + 1 \<le> ulp_exp y" using ulp_exp_mono [OF x assms(2)] by simp
    then have e: "ulp_exp y = ilog2 y - 52" using y by (auto simp: ulp_exp_def)
    have "(of_int (round_even (x / ?u)) :: rat) \<le> 2 ^ 53"
      using rnd_mantissa [OF x] by (intro two_power_rat) simp
    then have "rnd x \<le> 2 ^ 53 * ?u" unfolding rx by (intro mult_right_mono) auto
    also have "\<dots> = 2 powi (ulp_exp x + 1) * 2 ^ 52" by (simp add: power_int_add)
    also have "\<dots> \<le> ?v * 2 ^ 52" using lt by (intro mult_right_mono power_int_increasing) auto
    also have "\<dots> \<le> rnd y"
    proof -
      have "2 powi ilog2 y = ?v * 2 ^ 52" unfolding e by (simp add: power_int_diff)
      then have "of_int (2 ^ 52) \<le> y / ?v" using ilog2_bounds [OF y] by (simp add: pos_le_divide_eq mult.commute)
      from round_even_mono [OF this] have "2 ^ 52 \<le> round_even (y / ?v)" by (simp only: round_even_int)
      then have "(2 ^ 52 :: rat) \<le> of_int (round_even (y / ?v))" by (rule two_power_rat)
      then have "2 ^ 52 * ?v \<le> rnd y" unfolding ry by (intro mult_right_mono) auto
      then show ?thesis by (simp add: mult.commute)
    qed
    finally show ?thesis .
  qed
qed

text \<open>Rounding never crosses a float, so sums and products stay within float bounds.\<close>

lemma rnd_le: "0 \<le> x \<Longrightarrow> x \<le> y \<Longrightarrow> is_float y \<Longrightarrow> rnd x \<le> y"
  using rnd_mono [of x y] by (simp add: rnd_float)

lemma rnd_ge: "0 \<le> y \<Longrightarrow> y \<le> x \<Longrightarrow> is_float y \<Longrightarrow> y \<le> rnd x"
  using rnd_mono [of y x] by (simp add: rnd_float)

lemma is_float_of_nat: "0 \<le> n \<Longrightarrow> n \<le> 2 ^ 53 \<Longrightarrow> is_float (of_int n)"
  unfolding is_float_def by (intro exI [of _ n] exI [of _ 0]) auto

lemma is_float_0 [simp]: "is_float 0" and is_float_1 [simp]: "is_float 1"
  using is_float_of_nat [of 0] is_float_of_nat [of 1] by auto

lemma rnd_nonneg: "0 \<le> x \<Longrightarrow> 0 \<le> rnd x"
  using rnd_ge [of 0 x] by simp

lemma is_float_nonneg: "is_float y \<Longrightarrow> 0 \<le> y"
  by (auto simp: is_float_def)

text \<open>The error of one rounding below a bound of at least one.\<close>

lemma rnd_error_below:
  assumes "0 \<le> x" "x \<le> c" "1 \<le> c"
  shows "\<bar>rnd x - x\<bar> \<le> c / 2 ^ 53"
proof (cases "x = 0")
  case True
  then show ?thesis using assms by simp
next
  case False
  then have x: "0 < x" using assms by simp
  have "0 \<le> ilog2 c"
  proof (rule ccontr)
    assume "\<not> 0 \<le> ilog2 c"
    then have "2 powi (ilog2 c + 1) \<le> (2::rat) powi 0" by (intro power_int_increasing) auto
    then show False using ilog2_bounds [of c] assms by simp
  qed
  then have u: "(2::rat) powi ulp_exp c = 2 powi ilog2 c / 2 ^ 52" using assms by (simp add: ulp_exp_def power_int_diff)
  have "(2::rat) powi ulp_exp x \<le> 2 powi ulp_exp c" using ulp_exp_mono [OF x assms(2)] by (intro power_int_increasing) auto
  also have "\<dots> \<le> c / 2 ^ 52" unfolding u using ilog2_bounds [of c] assms by (intro divide_right_mono) auto
  finally have "2 powi ulp_exp x / 2 \<le> c / 2 ^ 53" by simp
  then show ?thesis using rnd_error [of x] by linarith
qed

section \<open>Finite results\<close>

lemma to_float_finite: "0 \<le> x \<Longrightarrow> x \<le> y \<Longrightarrow> is_float y \<Longrightarrow> y < 2 ^ 1024 \<Longrightarrow> to_float x = FFin (rnd x)"
  using rnd_le [of x y] rnd_nonneg [of x] by (simp add: to_float_def Let_def)

lemma to_float_nonneg: "0 \<le> x \<Longrightarrow> to_float x = (if rnd x < 2 ^ 1024 then FFin (rnd x) else FInf False)"
  using rnd_nonneg [of x] by (auto simp: to_float_def Let_def)

lemma float_of_int_exact: "0 \<le> n \<Longrightarrow> n \<le> 2 ^ 53 \<Longrightarrow> float_of_int n = FFin (of_int n)"
proof -
  assume n: "0 \<le> n" "n \<le> 2 ^ 53"
  then have "(of_int n :: rat) \<le> 2 ^ 53" by (intro two_power_rat)
  moreover have "(2::rat) ^ 53 < 2 ^ 1024" by (intro power_strict_increasing) auto
  ultimately have "(of_int n :: rat) < 2 ^ 1024" by linarith
  then show ?thesis using n is_float_of_nat [OF n] by (simp add: float_of_int_def to_float_def Let_def rnd_float)
qed

end
