(* ===== verification/Go_Time.thy ===== *)
theory Go_Time
  imports Float64
begin

text \<open>
  What the sources use of package \<^verbatim>\<open>time\<close>: points in time and durations in nanoseconds,
  differences with the 64-bit saturation of the library, and the parser for durations.
\<close>

section \<open>Points in time\<close>

type_synonym time = int
type_synonym duration = int

definition int64_sat :: "int \<Rightarrow> int" where
  "int64_sat d = max (- (2 ^ 63)) (min (2 ^ 63 - 1) d)"

text \<open>\<^verbatim>\<open>time.Time.Sub\<close> saturates; \<^verbatim>\<open>time.Duration.Seconds\<close> adds whole seconds and the rest.\<close>

definition time_Sub :: "time \<Rightarrow> time \<Rightarrow> duration" where
  "time_Sub t u = int64_sat (t - u)"

definition duration_Seconds :: "duration \<Rightarrow> float64" where
  "duration_Seconds d =
     float_add (float_of_int (sgn d * (\<bar>d\<bar> div 10 ^ 9)))
       (float_div (float_of_int (sgn d * (\<bar>d\<bar> mod 10 ^ 9))) (FFin (10 ^ 9)))"

section \<open>Parsing durations\<close>

text \<open>\<^verbatim>\<open>time.ParseDuration\<close>, with the 64-bit arithmetic it does.\<close>

fun leadingInt :: "string \<Rightarrow> nat \<Rightarrow> (nat \<times> string) option" where
  "leadingInt [] x = Some (x, [])"
| "leadingInt (c # s) x =
     (if \<not> is_digit c then Some (x, c # s)
      else if x > 2 ^ 63 div 10 then None
      else
        (let y = x * 10 + digit_val c in
         if y > 2 ^ 63 then None else leadingInt s y))"

fun leadingFraction :: "string \<Rightarrow> nat \<Rightarrow> float64 \<Rightarrow> bool \<Rightarrow> nat \<times> float64 \<times> string" where
  "leadingFraction [] x scale overflow = (x, scale, [])"
| "leadingFraction (c # s) x scale overflow =
     (if \<not> is_digit c then (x, scale, c # s)
      else if overflow then leadingFraction s x scale True
      else if x > (2 ^ 63 - 1) div 10 then leadingFraction s x scale True
      else
        (let y = x * 10 + digit_val c in
         if y > 2 ^ 63 then leadingFraction s x scale True
         else leadingFraction s y (float_mul scale (FFin 10)) False))"

definition unitMap :: "(string \<times> nat) list" where
  "unitMap =
     [(''ns'', 1), (''us'', 10 ^ 3), (bytes [194, 181] @ ''s'', 10 ^ 3), (bytes [206, 188] @ ''s'', 10 ^ 3),
      (''ms'', 10 ^ 6), (''s'', 10 ^ 9), (''m'', 60 * 10 ^ 9), (''h'', 3600 * 10 ^ 9)]"

text \<open>The conversion \<^verbatim>\<open>uint64(f)\<close> of a float that is not negative and in range.\<close>

fun float_to_nat :: "float64 \<Rightarrow> nat" where
  "float_to_nat (FFin x) = nat \<lfloor>x\<rfloor>"
| "float_to_nat _ = 0"

definition unit_end :: "char \<Rightarrow> bool" where
  "unit_end c \<longleftrightarrow> c = CHR ''.'' \<or> is_digit c"

definition duration_err :: "string \<Rightarrow> string \<Rightarrow> error" where
  "duration_err what orig = ErrFmt (''time: '' @ what) [orig]"

text \<open>The unit after a number \<open>v\<close> with fraction \<open>f\<close>: the value in nanoseconds and the rest of the text.\<close>

definition parse_unit :: "string \<Rightarrow> nat \<Rightarrow> nat \<Rightarrow> float64 \<Rightarrow> string \<Rightarrow> (nat \<times> string) result" where
  "parse_unit orig v f scale s =
     (let u = takeWhile (\<lambda>c. \<not> unit_end c) s in
      if u = [] then Inl (duration_err ''missing unit in duration '' orig)
      else
        (case map_of unitMap u of
           None \<Rightarrow> Inl (duration_err (''unknown unit '' @ u @ '' in duration '') orig)
         | Some unit \<Rightarrow>
             if v > 2 ^ 63 div unit then Inl (duration_err ''invalid duration '' orig)
             else if f > 0 then
               (let w = v * unit + float_to_nat (float_mul (float_of_int (int f)) (float_div (float_of_int (int unit)) scale)) in
                if w > 2 ^ 63 then Inl (duration_err ''invalid duration '' orig)
                else Inr (w, dropWhile (\<lambda>c. \<not> unit_end c) s))
             else Inr (v * unit, dropWhile (\<lambda>c. \<not> unit_end c) s)))"

text \<open>The optional fraction: its digits, its scale, whether it has digits, and the rest.\<close>

definition parse_fraction :: "string \<Rightarrow> nat \<times> float64 \<times> bool \<times> string" where
  "parse_fraction s =
     (if s \<noteq> [] \<and> hd s = CHR ''.'' then
        (case leadingFraction (tl s) 0 (FFin 1) False of (f, scale, s') \<Rightarrow> (f, scale, length s' \<noteq> length (tl s), s'))
      else (0, FFin 1, False, s))"

definition parse_quantity :: "string \<Rightarrow> string \<Rightarrow> (nat \<times> string) result" where
  "parse_quantity orig s =
     (if \<not> (hd s = CHR ''.'' \<or> is_digit (hd s)) then Inl (duration_err ''invalid duration '' orig)
      else
        (case leadingInt s 0 of
           None \<Rightarrow> Inl (duration_err ''invalid duration '' orig)
         | Some (v, s1) \<Rightarrow>
             (case parse_fraction s1 of (f, scale, post, s2) \<Rightarrow>
                if length s1 = length s \<and> \<not> post then Inl (duration_err ''invalid duration '' orig)
                else parse_unit orig v f scale s2)))"

lemma leadingInt_length: "leadingInt s x = Some (v, s') \<Longrightarrow> length s' \<le> length s"
  by (induction s x rule: leadingInt.induct) (auto simp: Let_def split: if_splits)

lemma leadingFraction_length: "leadingFraction s x sc ov = (f, scale, s') \<Longrightarrow> length s' \<le> length s"
  by (induction s x sc ov rule: leadingFraction.induct) (auto simp: Let_def split: if_splits)

lemma parse_fraction_length: "parse_fraction s = (f, scale, post, s') \<Longrightarrow> length s' \<le> length s"
  by (auto simp: parse_fraction_def split: if_splits prod.splits dest!: leadingFraction_length)

lemma parse_unit_shorter:
  assumes "parse_unit orig v f scale s = Inr (w, s')"
  shows "length s' < length s"
proof -
  have "takeWhile (\<lambda>c. \<not> unit_end c) s \<noteq> []" "s' = dropWhile (\<lambda>c. \<not> unit_end c) s"
    using assms by (auto simp: parse_unit_def Let_def split: if_splits option.splits)
  moreover have "length (takeWhile (\<lambda>c. \<not> unit_end c) s) + length (dropWhile (\<lambda>c. \<not> unit_end c) s) = length s"
    by (metis length_append takeWhile_dropWhile_id)
  ultimately show ?thesis by (cases "takeWhile (\<lambda>c. \<not> unit_end c) s") auto
qed

lemma parse_quantity_shorter:
  assumes "parse_quantity orig s = Inr (v, s')"
  shows "length s' < length s"
proof -
  obtain v0 s1 f sc post s2 where "leadingInt s 0 = Some (v0, s1)" "parse_fraction s1 = (f, sc, post, s2)"
      "parse_unit orig v0 f sc s2 = Inr (v, s')"
    using assms by (auto simp: parse_quantity_def split: if_splits option.splits prod.splits)
  then show ?thesis using leadingInt_length parse_fraction_length parse_unit_shorter by (meson le_trans less_le_trans)
qed

function parse_quantities :: "string \<Rightarrow> string \<Rightarrow> nat \<Rightarrow> nat result" where
  "parse_quantities orig s d =
     (if s = [] then Inr d
      else
        (case parse_quantity orig s of
           Inl e \<Rightarrow> Inl e
         | Inr (v, s') \<Rightarrow>
             (let d' = (d + v) mod 2 ^ 64 in
              if d' > 2 ^ 63 then Inl (duration_err ''invalid duration '' orig)
              else parse_quantities orig s' d')))"
  by pat_completeness auto
termination
  by (relation "measure (\<lambda>(orig, s, d). length s)") (auto dest: parse_quantity_shorter)

declare parse_quantities.simps [simp del]

definition ParseDuration :: "string \<Rightarrow> duration result" where
  "ParseDuration orig =
     (let neg = (orig \<noteq> [] \<and> hd orig = CHR ''-'');
          s = (if orig \<noteq> [] \<and> (hd orig = CHR ''-'' \<or> hd orig = CHR ''+'') then tl orig else orig)
      in
      if s = ''0'' then Inr 0
      else if s = [] then Inl (duration_err ''invalid duration '' orig)
      else
        (case parse_quantities orig s 0 of
           Inl e \<Rightarrow> Inl e
         | Inr d \<Rightarrow>
             if neg then Inr (- int d)
             else if d > 2 ^ 63 - 1 then Inl (duration_err ''invalid duration '' orig)
             else Inr (int d)))"

section \<open>Which texts are durations\<close>

lemma foldl_digits: "foldl (\<lambda>v c. v * 10 + digit_val c) a t = a * 10 ^ length t + digits_val t"
  by (induction t rule: rev_induct) (simp_all add: algebra_simps)

lemma digits_val_Cons: "digits_val (c # s) = digit_val c * 10 ^ length s + digits_val s"
  using foldl_digits [of "digit_val c" s] by (simp add: digits_val_def)

lemma leadingInt_digits:
  assumes "list_all is_digit s" "r = [] \<or> \<not> is_digit (hd r)"
  shows "leadingInt (s @ r) x = None \<or> leadingInt (s @ r) x = Some (x * 10 ^ length s + digits_val s, r)"
  using assms(1)
proof (induction s arbitrary: x)
  case Nil
  then show ?case using assms(2) by (cases r) auto
next
  case (Cons c s)
  have "(x * 10 + digit_val c) * 10 ^ length s + digits_val s = x * 10 ^ length (c # s) + digits_val (c # s)"
    by (simp add: digits_val_Cons algebra_simps)
  with Cons.IH [of "x * 10 + digit_val c"] Cons.prems show ?case by (simp only: append_Cons leadingInt.simps) (auto simp: Let_def)
qed

lemma leadingInt_bounded:
  assumes "list_all is_digit s" "r = [] \<or> \<not> is_digit (hd r)" "x * 10 ^ length s + digits_val s \<le> 2 ^ 63"
  shows "leadingInt (s @ r) x = Some (x * 10 ^ length s + digits_val s, r)"
  using assms(1,3)
proof (induction s arbitrary: x)
  case Nil
  then show ?case using assms(2) by (cases r) auto
next
  case (Cons c s)
  let ?y = "x * 10 + digit_val c"
  have eq: "?y * 10 ^ length s + digits_val s = x * 10 ^ length (c # s) + digits_val (c # s)"
    by (simp add: digits_val_Cons algebra_simps)
  have le: "?y * 10 ^ length s + digits_val s \<le> 2 ^ 63" using Cons.prems(2) eq by simp
  have "?y \<le> ?y * 10 ^ length s" by simp
  then have y: "?y \<le> 2 ^ 63" using le by linarith
  then have x: "x \<le> 2 ^ 63 div 10" by linarith
  show ?case using Cons.IH [OF _ le] Cons.prems(1) x y eq
    by (simp only: append_Cons leadingInt.simps) (auto simp: Let_def)
qed

text \<open>A number without a unit is not a duration, whatever its size.\<close>

lemma ParseDuration_bare:
  assumes "list_all is_digit s" "s \<noteq> ''0''"
  shows "\<exists>e. ParseDuration s = Inl e"
proof (cases "s = []")
  case True
  then show ?thesis by (simp add: ParseDuration_def)
next
  case False
  have hd: "is_digit (hd s)" using assms(1) False by (cases s) auto
  then have sign: "hd s \<noteq> CHR ''-''" "hd s \<noteq> CHR ''+''" by (auto simp: is_digit_def between_def)
  have "\<exists>e. parse_quantity s s = Inl e"
    using leadingInt_digits [OF assms(1), of "[]" 0] False hd
    by (auto simp: parse_quantity_def parse_fraction_def parse_unit_def)
  then have "\<exists>e. parse_quantities s s 0 = Inl e" using False by (auto simp: parse_quantities.simps [of s s])
  then show ?thesis using assms(2) False sign by (auto simp: ParseDuration_def Let_def)
qed

text \<open>A whole number of a unit is read back exactly as long as it fits.\<close>

lemma ParseDuration_unit:
  assumes "map_of unitMap u = Some unit" "u \<noteq> []" "\<forall>c \<in> set u. \<not> unit_end c" "n * unit < 2 ^ 63" "0 < unit"
  shows "ParseDuration (itoa n @ u) = Inr (int (n * unit))"
proof -
  have d: "list_all is_digit (itoa n)" by (rule itoa_digits)
  have hd: "is_digit (hd (itoa n @ u))" using d by (cases "itoa n") auto
  then have sign: "hd (itoa n @ u) \<noteq> CHR ''-''" "hd (itoa n @ u) \<noteq> CHR ''+''" by (auto simp: is_digit_def between_def)
  have u: "\<not> is_digit (hd u)" "hd u \<noteq> CHR ''.''" using assms(2,3) by (cases u; auto simp: unit_end_def)+
  have "n \<le> n * unit" using assms(5) by simp
  then have n: "n \<le> 2 ^ 63" using assms(4) by linarith
  have li: "leadingInt (itoa n @ u) 0 = Some (n, u)"
    using leadingInt_bounded [OF d, of u 0] u n by simp
  have le: "\<not> 2 ^ 63 div unit < n" using assms(4,5) by (metis div_le_mono less_imp_le nonzero_mult_div_cancel_right not_less not_gr_zero)
  have cut: "takeWhile (\<lambda>c. \<not> unit_end c) u = u" "dropWhile (\<lambda>c. \<not> unit_end c) u = []" using assms(3) by simp_all
  have "parse_unit (itoa n @ u) n 0 (FFin 1) u = Inr (n * unit, [])"
    unfolding parse_unit_def cut Let_def using assms(1,2) le by simp
  then have pq: "parse_quantity (itoa n @ u) (itoa n @ u) = Inr (n * unit, [])"
    using li hd u by (auto simp: parse_quantity_def parse_fraction_def)
  have "parse_quantities (itoa n @ u) (itoa n @ u) 0 = Inr (n * unit)"
    using pq assms(4) by (simp add: parse_quantities.simps)
  moreover have "itoa n @ u \<noteq> ''0''" using assms(2) itoa_nonempty [of n] by (cases "itoa n") auto
  ultimately show ?thesis using assms(4) sign by (auto simp: ParseDuration_def Let_def)
qed

end
