(* ===== verification/Client_Limits.thy ===== *)
theory Client_Limits
  imports Netip Go_Time
begin

text \<open>
  \<^verbatim>\<open>internal/limits/limits.go\<close>: connection slots, request tokens and log budgets per client.

  A release function keeps a pointer to the client entry it was made for, also after the entry
  has left the maps, so entries live in a store and the maps hold positions in it.  The clock
  \<^verbatim>\<open>t.now()\<close> is read once per operation and its value is an argument, in nanoseconds.
\<close>

section \<open>Token buckets\<close>

record bucket =
  b_tokens :: float64
  b_last :: time
  b_primed :: bool

definition bucket_zero :: bucket where
  "bucket_zero = \<lparr>b_tokens = FFin 0, b_last = 0, b_primed = False\<rparr>"

definition bucket_take :: "bucket \<Rightarrow> time \<Rightarrow> float64 \<Rightarrow> int \<Rightarrow> bool \<times> bucket" where
  "bucket_take b now rate burst =
     (if float_le rate (FFin 0) then (True, b)
      else
        (let capacity = float_of_int (max burst 1);
             b1 = (if \<not> b_primed b then b\<lparr>b_tokens := capacity, b_primed := True\<rparr>
                   else b\<lparr>b_tokens := float_min capacity
                       (float_add (b_tokens b) (float_mul (duration_Seconds (time_Sub now (b_last b))) rate))\<rparr>);
             b2 = b1\<lparr>b_last := now\<rparr>
         in if float_less (b_tokens b2) (FFin 1) then (False, b2)
            else (True, b2\<lparr>b_tokens := float_sub (b_tokens b2) (FFin 1)\<rparr>)))"

section \<open>Data\<close>

record Client =
  MaxConnections :: int
  RequestsPerSecond :: float64
  RequestBurst :: int
  TunnelIdleTimeout :: duration

definition ErrTotalConnections :: error where
  "ErrTotalConnections = ErrNew ''proxy connection limit reached''"

definition ErrClientConnections :: error where
  "ErrClientConnections = ErrNew ''client connection limit reached''"

definition logRate :: float64 where "logRate = FFin 20"
definition logBurst :: int where "logBurst = 200"
definition maxSuppressedKeys :: nat where "maxSuppressedKeys = 16"
definition maxClients :: nat where "maxClients = 100000"
definition forgetAfter :: duration where "forgetAfter = 5 * 60 * 10 ^ 9"

record SuppressedKey =
  sk_Action :: string
  sk_Host :: string

record client =
  cl_conns :: int
  cl_seen :: time
  cl_requests :: bucket
  cl_logs :: bucket
  cl_suppressed :: "(SuppressedKey \<times> int) list"
  cl_other :: int

definition client_zero :: client where
  "client_zero = \<lparr>cl_conns = 0, cl_seen = 0, cl_requests = bucket_zero, cl_logs = bucket_zero,
     cl_suppressed = [], cl_other = 0\<rparr>"

record Suppressed =
  su_Client :: addr
  su_Prefix :: prefix
  su_Unknown :: bool
  su_Counts :: "(SuppressedKey \<times> int) list"
  su_Other :: int

type_synonym client_ptr = nat

record Tracker =
  tr_store :: "client list"
  tr_clients :: "(addr \<times> client_ptr) list"
  tr_overflow :: "(prefix \<times> client_ptr) list"
  tr_unknown :: client
  tr_total :: int

definition NewTracker :: Tracker where
  "NewTracker = \<lparr>tr_store = [], tr_clients = [], tr_overflow = [], tr_unknown = client_zero, tr_total = 0\<rparr>"

section \<open>Entries\<close>

definition overflowPrefix :: "addr \<Rightarrow> prefix" where
  "overflowPrefix ip =
     (case AddrPrefix ip (if Is6 ip then 64 else 24) of Inl _ \<Rightarrow> PrefixZero | Inr p \<Rightarrow> p)"

text \<open>\<^verbatim>\<open>&client{}\<close>\<close>

definition new_client :: "Tracker \<Rightarrow> client_ptr \<times> Tracker" where
  "new_client t = (length (tr_store t), t\<lparr>tr_store := tr_store t @ [client_zero]\<rparr>)"

definition update_client :: "client_ptr \<Rightarrow> (client \<Rightarrow> client) \<Rightarrow> Tracker \<Rightarrow> Tracker" where
  "update_client r f t = t\<lparr>tr_store := (tr_store t)[r := f (tr_store t ! r)]\<rparr>"

definition tr_find :: "Tracker \<Rightarrow> addr \<Rightarrow> client_ptr \<times> Tracker" where
  "tr_find t ip =
     (case map_of (tr_clients t) ip of
        Some r \<Rightarrow> (r, t)
      | None \<Rightarrow>
          if length (tr_clients t) < maxClients then
            (case new_client t of (r, t1) \<Rightarrow> (r, t1\<lparr>tr_clients := (ip, r) # tr_clients t1\<rparr>))
          else
            (let p = overflowPrefix ip in
             case map_of (tr_overflow t) p of
               Some r \<Rightarrow> (r, t)
             | None \<Rightarrow> (case new_client t of (r, t1) \<Rightarrow> (r, t1\<lparr>tr_overflow := (p, r) # tr_overflow t1\<rparr>))))"

definition tr_get :: "Tracker \<Rightarrow> addr \<Rightarrow> time \<Rightarrow> client_ptr \<times> Tracker" where
  "tr_get t ip now = (case tr_find t ip of (r, t1) \<Rightarrow> (r, update_client r (cl_seen_update (\<lambda>_. now)) t1))"

section \<open>Connections\<close>

text \<open>The release function of a connection: its client entry and whether it has run.\<close>

record release_fn =
  rel_client :: client_ptr
  rel_done :: bool

definition Acquire :: "Tracker \<Rightarrow> addr \<Rightarrow> Client \<Rightarrow> int \<Rightarrow> time \<Rightarrow> release_fn result \<times> Tracker" where
  "Acquire t ip lims maxTotal now =
     (if maxTotal > 0 \<and> tr_total t \<ge> maxTotal then (Inl ErrTotalConnections, t)
      else
        (case tr_get t ip now of (r, t1) \<Rightarrow>
           if MaxConnections lims > 0 \<and> cl_conns (tr_store t1 ! r) \<ge> MaxConnections lims
           then (Inl ErrClientConnections, t1)
           else (Inr \<lparr>rel_client = r, rel_done = False\<rparr>,
                 (update_client r (cl_conns_update (\<lambda>n. n + 1)) t1)\<lparr>tr_total := tr_total t1 + 1\<rparr>)))"

definition release :: "release_fn \<Rightarrow> time \<Rightarrow> Tracker \<Rightarrow> release_fn \<times> Tracker" where
  "release f now t =
     (if rel_done f then (f, t)
      else (f\<lparr>rel_done := True\<rparr>,
            (update_client (rel_client f) (\<lambda>c. c\<lparr>cl_conns := cl_conns c - 1, cl_seen := now\<rparr>) t)
              \<lparr>tr_total := tr_total t - 1\<rparr>))"

section \<open>Requests and log lines\<close>

definition Allow :: "Tracker \<Rightarrow> addr \<Rightarrow> Client \<Rightarrow> time \<Rightarrow> bool \<times> Tracker" where
  "Allow t ip lims now =
     (case tr_get t ip now of (r, t1) \<Rightarrow>
        (case bucket_take (cl_requests (tr_store t1 ! r)) now (RequestsPerSecond lims) (RequestBurst lims) of
           (ok, b) \<Rightarrow> (ok, update_client r (cl_requests_update (\<lambda>_. b)) t1)))"

text \<open>\<^verbatim>\<open>m[k]++\<close>\<close>

fun count_key :: "(SuppressedKey \<times> int) list \<Rightarrow> SuppressedKey \<Rightarrow> (SuppressedKey \<times> int) list" where
  "count_key [] k = [(k, 1)]"
| "count_key ((j, n) # m) k = (if j = k then (j, n + 1) # m else (j, n) # count_key m k)"

definition client_log :: "client \<Rightarrow> time \<Rightarrow> SuppressedKey \<Rightarrow> bool \<times> client" where
  "client_log c now k =
     (case bucket_take (cl_logs c) now logRate logBurst of (ok, b) \<Rightarrow>
        let c1 = c\<lparr>cl_logs := b\<rparr> in
        if ok then (True, c1)
        else if map_of (cl_suppressed c1) k \<noteq> None \<or> length (cl_suppressed c1) < maxSuppressedKeys
        then (False, c1\<lparr>cl_suppressed := count_key (cl_suppressed c1) k\<rparr>)
        else (False, c1\<lparr>cl_other := cl_other c1 + 1\<rparr>))"

definition Log :: "Tracker \<Rightarrow> addr \<Rightarrow> string \<Rightarrow> string \<Rightarrow> time \<Rightarrow> bool \<times> Tracker" where
  "Log t ip action host now =
     (case tr_get t ip now of (r, t1) \<Rightarrow>
        (case client_log (tr_store t1 ! r) now \<lparr>sk_Action = action, sk_Host = host\<rparr> of
           (ok, c) \<Rightarrow> (ok, update_client r (\<lambda>_. c) t1)))"

definition LogUnknown :: "Tracker \<Rightarrow> addr \<Rightarrow> time \<Rightarrow> bool \<times> Tracker" where
  "LogUnknown t ip now =
     (case client_log (tr_unknown t) now \<lparr>sk_Action = ''deny'', sk_Host = addr_String ip\<rparr> of
        (ok, c) \<Rightarrow> (ok, t\<lparr>tr_unknown := c\<rparr>))"

section \<open>Sweeping\<close>

text \<open>The closure \<^verbatim>\<open>take\<close>: the summary of an entry, if it has something to report, and the entry after it.\<close>

definition sweep_take :: "client \<Rightarrow> Suppressed \<Rightarrow> Suppressed list \<times> client" where
  "sweep_take c s =
     (if cl_suppressed c \<noteq> [] \<or> cl_other c > 0
      then ([s\<lparr>su_Counts := cl_suppressed c, su_Other := cl_other c\<rparr>], c\<lparr>cl_suppressed := [], cl_other := 0\<rparr>)
      else ([], c))"

definition forgettable :: "time \<Rightarrow> client \<Rightarrow> bool" where
  "forgettable now c \<longleftrightarrow> cl_conns c = 0 \<and> time_Sub now (cl_seen c) > forgetAfter"

text \<open>The loop over one of the maps: the store, the entries kept and the summaries.\<close>

fun sweep_map :: "time \<Rightarrow> ('k \<Rightarrow> Suppressed) \<Rightarrow> ('k \<times> client_ptr) list \<Rightarrow> client list
    \<Rightarrow> client list \<times> ('k \<times> client_ptr) list \<times> Suppressed list" where
  "sweep_map now mk [] store = (store, [], [])"
| "sweep_map now mk ((k, r) # m) store =
     (case sweep_take (store ! r) (mk k) of (out, c) \<Rightarrow>
        (case sweep_map now mk m (store[r := c]) of (store', m', out') \<Rightarrow>
           (store', (if forgettable now c then m' else (k, r) # m'), out @ out')))"

definition no_summary :: Suppressed where
  "no_summary = \<lparr>su_Client = AddrZero, su_Prefix = PrefixZero, su_Unknown = False, su_Counts = [], su_Other = 0\<rparr>"

definition Sweep :: "Tracker \<Rightarrow> time \<Rightarrow> Suppressed list \<times> Tracker" where
  "Sweep t now =
     (case sweep_map now (\<lambda>ip. no_summary\<lparr>su_Client := ip\<rparr>) (tr_clients t) (tr_store t) of (store1, clients', out1) \<Rightarrow>
        (case sweep_map now (\<lambda>p. no_summary\<lparr>su_Prefix := p\<rparr>) (tr_overflow t) store1 of (store2, overflow', out2) \<Rightarrow>
           (case sweep_take (tr_unknown t) (no_summary\<lparr>su_Unknown := True\<rparr>) of (out3, unknown') \<Rightarrow>
              (out1 @ out2 @ out3,
               t\<lparr>tr_store := store2, tr_clients := clients', tr_overflow := overflow', tr_unknown := unknown'\<rparr>))))"

definition Connections :: "Tracker \<Rightarrow> addr \<Rightarrow> int \<times> int" where
  "Connections t ip =
     ((case (case map_of (tr_clients t) ip of Some r \<Rightarrow> Some r | None \<Rightarrow> map_of (tr_overflow t) (overflowPrefix ip)) of
         None \<Rightarrow> 0
       | Some r \<Rightarrow> cl_conns (tr_store t ! r)), tr_total t)"

definition Tracked :: "Tracker \<Rightarrow> nat" where
  "Tracked t = length (tr_clients t)"

section \<open>Token buckets: what they let through\<close>

text \<open>The capacity of a bucket, and the tokens that one pause adds before the cap applies.\<close>

definition capacity :: "int \<Rightarrow> rat" where
  "capacity burst = rnd (of_int (max burst 1))"

definition refill :: "rat \<Rightarrow> duration \<Rightarrow> rat" where
  "refill rate d = (case float_mul (duration_Seconds d) (FFin rate) of FFin r \<Rightarrow> r | _ \<Rightarrow> 2 ^ 1024)"

lemma two_power_le: "m \<le> n \<Longrightarrow> (2::rat) ^ m \<le> 2 ^ n" and two_power_less: "m < n \<Longrightarrow> (2::rat) ^ m < 2 ^ n"
  by (intro power_increasing power_strict_increasing; simp)+

lemma is_float_two_power: "k \<le> 1023 \<Longrightarrow> is_float (2 ^ k)"
  unfolding is_float_def by (intro exI [of _ 1] exI [of _ "int k"]) (auto simp: power_int_def)

lemma capacity_float:
  assumes "burst < 2 ^ 63"
  shows "float_of_int (max burst 1) = FFin (capacity burst)" "is_float (capacity burst)" "1 \<le> capacity burst"
    "capacity burst < 2 ^ 1024"
proof -
  let ?n = "of_int (max burst 1) :: rat"
  have n: "1 \<le> ?n" "?n \<le> 2 ^ 63" using assms by (auto simp: max_def intro!: two_power_rat)
  have le: "capacity burst \<le> 2 ^ 63" using n is_float_two_power [of 63] unfolding capacity_def by (intro rnd_le) auto
  show "1 \<le> capacity burst" using n by (auto simp: capacity_def intro!: rnd_ge)
  show "is_float (capacity burst)" using n by (auto simp: capacity_def intro!: rnd_is_float)
  show "capacity burst < 2 ^ 1024" using le two_power_less [of 63 1024] by linarith
  show "float_of_int (max burst 1) = FFin (capacity burst)"
    using to_float_finite [of ?n "2 ^ 63"] n two_power_less [of 63 1024] is_float_two_power [of 63]
    by (auto simp: float_of_int_def capacity_def)
qed

lemma capacity_exact: "1 \<le> burst \<Longrightarrow> burst \<le> 2 ^ 53 \<Longrightarrow> capacity burst = of_int burst"
  using is_float_of_nat [of burst] by (simp add: capacity_def max_def rnd_float)

lemma time_Sub_nonneg: "u \<le> t \<Longrightarrow> 0 \<le> time_Sub t u \<and> time_Sub t u < 2 ^ 63"
  by (auto simp: time_Sub_def int64_sat_def)

lemma duration_Seconds_nonneg:
  assumes "0 \<le> d" "d < 2 ^ 63"
  shows "\<exists>s. duration_Seconds d = FFin s \<and> 0 \<le> s"
proof -
  have sec: "0 \<le> d div 10 ^ 9" "d div 10 ^ 9 \<le> 2 ^ 53" and ns: "0 \<le> d mod 10 ^ 9" "d mod 10 ^ 9 \<le> 2 ^ 53"
    using assms pos_mod_bound [of "10 ^ 9" d] by (auto simp: div_le_mono intro: order_trans [OF zdiv_mono1 [of d "2 ^ 63"]])
  have abs: "sgn d * (\<bar>d\<bar> div 10 ^ 9) = d div 10 ^ 9" "sgn d * (\<bar>d\<bar> mod 10 ^ 9) = d mod 10 ^ 9"
    using assms by (cases "d = 0"; simp)+
  let ?f = "of_int (d mod 10 ^ 9) / 10 ^ 9 :: rat" and ?s = "of_int (d div 10 ^ 9) :: rat"
  have "?f \<le> 1" using pos_mod_bound [of "10 ^ 9" d] of_int_le_iff [of "d mod 10 ^ 9" "10 ^ 9", where 'a = rat]
    by (simp add: divide_le_eq)
  then have f: "to_float ?f = FFin (rnd ?f)" "0 \<le> rnd ?f" "rnd ?f \<le> 1"
    using ns two_power_less [of 0 1024] by (auto intro!: to_float_finite [where y = 1] rnd_nonneg rnd_le)
  have "?s \<le> 2 ^ 53" using sec by (intro two_power_rat)
  then have "?s + rnd ?f \<le> 2 ^ 54" using f two_power_le [of 0 53] by simp
  then have "to_float (?s + rnd ?f) = FFin (rnd (?s + rnd ?f)) \<and> 0 \<le> rnd (?s + rnd ?f)"
    using f sec two_power_less [of 54 1024] is_float_two_power [of 54]
    by (auto intro!: to_float_finite [where y = "2 ^ 54"] rnd_nonneg)
  then show ?thesis unfolding duration_Seconds_def abs
    using sec ns f by (simp add: float_of_int_exact)
qed

lemma duration_Seconds_0 [simp]: "duration_Seconds 0 = FFin 0"
  by (simp add: duration_Seconds_def float_of_int_def to_float_def)

text \<open>The two cases of a successful or failed take, over the rationals.\<close>

definition spend :: "bucket \<Rightarrow> time \<Rightarrow> rat \<Rightarrow> bool \<times> bucket" where
  "spend b now x =
     (if x < 1 then (False, b\<lparr>b_tokens := FFin x, b_last := now, b_primed := True\<rparr>)
      else (True, b\<lparr>b_tokens := FFin (rnd (x - 1)), b_last := now, b_primed := True\<rparr>))"

definition level :: "rat \<Rightarrow> int \<Rightarrow> rat \<Rightarrow> duration \<Rightarrow> rat" where
  "level rate burst x d = min (capacity burst) (rnd (x + refill rate d))"

lemma refill_nonneg:
  assumes "0 < rate" "0 \<le> d" "d < 2 ^ 63"
  shows "0 \<le> refill rate d"
proof -
  obtain s where s: "duration_Seconds d = FFin s" "0 \<le> s" using duration_Seconds_nonneg [OF assms(2,3)] by blast
  then have "0 \<le> rnd (s * rate)" using assms(1) by (intro rnd_nonneg) simp
  then show ?thesis using s assms(1) by (simp add: refill_def to_float_nonneg)
qed

lemma to_float_pred:
  assumes "is_float x" "1 \<le> x" "x < 2 ^ 1024"
  shows "to_float (x - 1) = FFin (rnd (x - 1))"
  using assms by (intro to_float_finite [where y = x]) auto

lemma bucket_take_fresh:
  assumes "0 < rate" "burst < 2 ^ 63" "\<not> b_primed b"
  shows "bucket_take b now (FFin rate) burst = spend b now (capacity burst)"
  using assms capacity_float [OF assms(2)] to_float_pred [of "capacity burst"]
  by (simp add: bucket_take_def spend_def float_sub_def Let_def)

lemma refill_level:
  assumes "0 < rate" "burst < 2 ^ 63" "is_float x" "0 \<le> d" "d < 2 ^ 63"
  shows "float_min (FFin (capacity burst)) (float_add (FFin x) (float_mul (duration_Seconds d) (FFin rate))) =
     FFin (level rate burst x d)"
proof -
  note cap = capacity_float [OF assms(2)]
  obtain s where s: "duration_Seconds d = FFin s" "0 \<le> s" using duration_Seconds_nonneg [OF assms(4,5)] by blast
  have x: "0 \<le> x" using assms(3) by (rule is_float_nonneg)
  have r: "0 \<le> rnd (s * rate)" using s assms(1) by (intro rnd_nonneg) simp
  have big: "capacity burst \<le> rnd y" if "2 ^ 1024 \<le> rnd y" for y using that cap(4) by linarith
  have "capacity burst \<le> rnd (x + 2 ^ 1024)" using x cap by (intro rnd_ge) auto
  then show ?thesis
  proof (cases "rnd (s * rate) < 2 ^ 1024")
    case True
    have "0 \<le> x + rnd (s * rate)" using x r by simp
    then show ?thesis using True s assms(1) cap(4) big [of "x + rnd (s * rate)"]
      by (auto simp: level_def refill_def to_float_nonneg float_min_def min_def)
  next
    case False
    then show ?thesis using s assms(1) \<open>capacity burst \<le> rnd (x + 2 ^ 1024)\<close>
      by (simp add: level_def refill_def to_float_nonneg float_min_def min_def)
  qed
qed

lemma bucket_take_primed:
  assumes "0 < rate" "burst < 2 ^ 63" "b_primed b" "b_tokens b = FFin x" "is_float x" "b_last b \<le> now"
  shows "bucket_take b now (FFin rate) burst = spend b now (level rate burst x (time_Sub now (b_last b)))"
proof -
  define d where "d = time_Sub now (b_last b)"
  have d: "0 \<le> d" "d < 2 ^ 63" using time_Sub_nonneg [OF assms(6)] by (auto simp: d_def)
  let ?x = "level rate burst x d"
  have "0 \<le> x + refill rate d" using refill_nonneg [OF assms(1) d] is_float_nonneg [OF assms(5)] by simp
  then have fl: "is_float ?x" using capacity_float(2) [OF assms(2)] rnd_is_float by (auto simp: level_def min_def)
  have lt: "?x < 2 ^ 1024" using capacity_float(4) [OF assms(2)] by (simp add: level_def)
  show ?thesis
    using assms(1,3,4) refill_level [OF assms(1,2,5) d] capacity_float(1) [OF assms(2)] to_float_pred [OF fl _ lt]
    unfolding d_def by (auto simp: bucket_take_def spend_def float_sub_def Let_def)
qed

lemma level_bounds:
  assumes "0 < rate" "burst < 2 ^ 63" "is_float x" "x \<le> capacity burst" "0 \<le> d" "d < 2 ^ 63"
  shows "is_float (level rate burst x d)" "level rate burst x d \<le> capacity burst"
    "level rate burst x d \<le> x + refill rate d + capacity burst / 2 ^ 53"
    "min (capacity burst) x \<le> level rate burst x d"
proof -
  note cap = capacity_float [OF assms(2)]
  have r: "0 \<le> refill rate d" using refill_nonneg [OF assms(1,5,6)] .
  have x: "0 \<le> x" using assms(3) by (rule is_float_nonneg)
  show "is_float (level rate burst x d)" using cap(2) rnd_is_float [of "x + refill rate d"] x r by (auto simp: level_def min_def)
  show "level rate burst x d \<le> capacity burst" by (simp add: level_def)
  show "min (capacity burst) x \<le> level rate burst x d"
    using rnd_ge [OF x _ assms(3), of "x + refill rate d"] r by (auto simp: level_def)
  show "level rate burst x d \<le> x + refill rate d + capacity burst / 2 ^ 53"
  proof (cases "x + refill rate d \<le> capacity burst")
    case True
    have "\<bar>rnd (x + refill rate d) - (x + refill rate d)\<bar> \<le> capacity burst / 2 ^ 53"
      using True x r cap(3) by (intro rnd_error_below) auto
    then show ?thesis unfolding level_def by linarith
  next
    case False
    have "0 \<le> capacity burst / 2 ^ 53" using cap(3) by simp
    with False show ?thesis unfolding level_def by linarith
  qed
qed

text \<open>A sequence of takes: how many succeed, and the bucket after them.\<close>

fun takes :: "bucket \<Rightarrow> rat \<Rightarrow> int \<Rightarrow> time list \<Rightarrow> nat \<times> bucket" where
  "takes b rate burst [] = (0, b)"
| "takes b rate burst (t # ts) =
     (case bucket_take b t (FFin rate) burst of (ok, b1) \<Rightarrow>
        (case takes b1 rate burst ts of (n, b2) \<Rightarrow> (if ok then Suc n else n, b2)))"

fun refills :: "rat \<Rightarrow> time \<Rightarrow> time list \<Rightarrow> rat" where
  "refills rate l [] = 0"
| "refills rate l (t # ts) = refill rate (time_Sub t l) + refills rate t ts"

lemma takes_bound:
  assumes "0 < rate" "burst < 2 ^ 63" "b_primed b" "b_tokens b = FFin x" "is_float x" "x \<le> capacity burst"
    and "sorted (b_last b # ts)"
  shows "of_nat (fst (takes b rate burst ts)) \<le> x + refills rate (b_last b) ts + of_nat (2 * length ts) * (capacity burst / 2 ^ 53)"
  using assms(3-7)
proof (induction ts arbitrary: b x)
  case Nil
  then show ?case using is_float_nonneg by simp
next
  case (Cons t ts)
  define e where "e = capacity burst / 2 ^ 53"
  note cap = capacity_float [OF assms(2)]
  have e: "0 \<le> e" using cap(3) by (simp add: e_def)
  have le: "b_last b \<le> t" using Cons.prems by simp
  let ?d = "time_Sub t (b_last b)"
  have d: "0 \<le> ?d" "?d < 2 ^ 63" using time_Sub_nonneg [OF le] by auto
  let ?l = "level rate burst x ?d"
  note lv = level_bounds [OF assms(1,2) Cons.prems(3,4) d, folded e_def]
  have take: "bucket_take b t (FFin rate) burst = spend b t ?l"
    using bucket_take_primed [OF assms(1,2) Cons.prems(1,2,3) le] .
  show ?case
  proof (cases "?l < 1")
    case True
    let ?b = "b\<lparr>b_tokens := FFin ?l, b_last := t, b_primed := True\<rparr>"
    have "of_nat (fst (takes ?b rate burst ts)) \<le> ?l + refills rate t ts + of_nat (2 * length ts) * e"
      using Cons.IH [of ?b ?l] Cons.prems(5) lv by (auto simp: e_def)
    moreover have "fst (takes b rate burst (t # ts)) = fst (takes ?b rate burst ts)"
      using True take by (simp add: spend_def split: prod.splits)
    ultimately show ?thesis using lv(3) e unfolding e_def [symmetric] by (simp add: distrib_right)
  next
    case False
    let ?y = "rnd (?l - 1)"
    let ?b = "b\<lparr>b_tokens := FFin ?y, b_last := t, b_primed := True\<rparr>"
    have y: "is_float ?y" "?y \<le> capacity burst" using False lv(2) cap by (auto intro!: rnd_is_float rnd_le)
    have "\<bar>?y - (?l - 1)\<bar> \<le> e" unfolding e_def using False lv(2) cap(3) by (intro rnd_error_below) auto
    then have "?y \<le> ?l - 1 + e" by linarith
    moreover have "of_nat (fst (takes ?b rate burst ts)) \<le> ?y + refills rate t ts + of_nat (2 * length ts) * e"
      using Cons.IH [of ?b ?y] Cons.prems(5) y by (auto simp: e_def)
    moreover have "fst (takes b rate burst (t # ts)) = Suc (fst (takes ?b rate burst ts))"
      using False take by (simp add: spend_def split: prod.splits)
    ultimately show ?thesis using lv(3) e unfolding e_def [symmetric] by (simp add: distrib_right)
  qed
qed

lemma level_zero:
  assumes "burst < 2 ^ 63" "is_float x" "x \<le> capacity burst"
  shows "level rate burst x 0 = x"
  using assms by (simp add: level_def refill_def rnd_float to_float_def)

lemma takes_instant:
  assumes "0 < rate" "1 \<le> burst" "burst \<le> 2 ^ 53"
    and "b_primed b" "b_tokens b = FFin (of_nat k)" "int k \<le> burst" "b_last b = now"
  shows "fst (takes b rate burst (replicate n now)) = min n k"
  using assms(4-7)
proof (induction n arbitrary: b k)
  case 0
  then show ?case by simp
next
  case (Suc n)
  have b63: "burst < 2 ^ 63" using assms(3) by simp
  have fl: "is_float (of_nat k)" using is_float_of_nat [of "int k"] Suc.prems(3) assms(3) by simp
  have "(of_nat k :: rat) \<le> of_int burst" using Suc.prems(3) by (metis of_int_le_iff of_int_of_nat_eq)
  then have lv: "level rate burst (of_nat k) 0 = of_nat k"
    using level_zero [OF b63 fl] capacity_exact [OF assms(2,3)] by simp
  have take: "bucket_take b now (FFin rate) burst = spend b now (of_nat k)"
    using bucket_take_primed [OF assms(1) b63 Suc.prems(1,2) fl, of now] Suc.prems(4) lv by (simp add: time_Sub_def int64_sat_def)
  show ?case
  proof (cases k)
    case 0
    then show ?thesis using take Suc.IH [of "b\<lparr>b_tokens := FFin 0, b_last := now, b_primed := True\<rparr>" 0] assms(2)
      by (simp add: spend_def split: prod.splits)
  next
    case (Suc j)
    have "rnd (of_nat j) = of_nat j" using is_float_of_nat [of "int j"] Suc Suc.prems(3) assms(3) by (simp add: rnd_float)
    then show ?thesis using take Suc Suc.prems(3)
        Suc.IH [of "b\<lparr>b_tokens := FFin (of_nat j), b_last := now, b_primed := True\<rparr>" j]
      by (auto simp: spend_def split: prod.splits)
  qed
qed

section \<open>Properties of token buckets\<close>

text \<open>
  C17.  A rate limit holds over any sequence of requests.  Of the requests taken from a new bucket
  at times in order, at most the burst plus the refills of the pauses between them succeed,
  where a refill is the elapsed seconds times the rate in floating point; rounding adds at most
  a two-to-the-fifty-second part of the burst per request.
\<close>

theorem bucket_rate_limit:
  assumes "0 < rate" "burst < 2 ^ 63" "sorted (t # ts)"
  shows "of_nat (fst (takes bucket_zero rate burst (t # ts))) \<le>
    capacity burst + refills rate t ts + of_nat (length (t # ts)) * (capacity burst / 2 ^ 52)"
proof -
  note cap = capacity_float [OF assms(2)]
  define e where "e = capacity burst / 2 ^ 53"
  have e: "0 \<le> e" "capacity burst / 2 ^ 52 = 2 * e" using cap(3) by (simp_all add: e_def)
  let ?x = "rnd (capacity burst - 1)"
  let ?b = "bucket_zero\<lparr>b_tokens := FFin ?x, b_last := t, b_primed := True\<rparr>"
  have x: "is_float ?x" "?x \<le> capacity burst" using cap by (auto intro!: rnd_is_float rnd_le)
  have "\<bar>?x - (capacity burst - 1)\<bar> \<le> e" unfolding e_def using cap(3) by (intro rnd_error_below) auto
  then have "?x \<le> capacity burst - 1 + e" by linarith
  moreover have "of_nat (fst (takes ?b rate burst ts)) \<le> ?x + refills rate t ts + of_nat (2 * length ts) * e"
    using takes_bound [OF assms(1,2), of ?b ?x ts] x assms(3) by (simp add: e_def)
  moreover have "fst (takes bucket_zero rate burst (t # ts)) = Suc (fst (takes ?b rate burst ts))"
    using cap(3) bucket_take_fresh [OF assms(1,2), of bucket_zero t] by (simp add: bucket_zero_def spend_def split: prod.splits)
  ultimately show ?thesis using e(1) unfolding e(2) by (simp add: algebra_simps)
qed

theorem bucket_rate_limit_witness:
  "of_nat (fst (takes bucket_zero 2 3 [0, 0, 5 * 10 ^ 8])) \<le>
     capacity 3 + refills 2 0 [0, 5 * 10 ^ 8] + of_nat 3 * (capacity 3 / 2 ^ 52)"
  using bucket_rate_limit [of 2 3 0 "[0, 5 * 10 ^ 8]"] by simp

text \<open>
  The burst is exact: of n requests of a new bucket at one instant, exactly the first
  \<^verbatim>\<open>max(burst, 1)\<close> succeed.
\<close>

theorem bucket_burst_exact:
  assumes "0 < rate" "burst \<le> 2 ^ 53"
  shows "fst (takes bucket_zero rate burst (replicate n now)) = min n (nat (max burst 1))"
proof (cases n)
  case (Suc m)
  define k where "k = nat (max burst 1) - 1"
  have b63: "burst < 2 ^ 63" using assms(2) by simp
  have cap: "capacity burst = of_nat (Suc k)"
    using is_float_of_nat [of "max burst 1"] assms(2) by (simp add: capacity_def rnd_float k_def of_nat_diff)
  have cap': "capacity burst = capacity (max burst 1)" by (simp add: capacity_def)
  have "int k \<le> 2 ^ 53" using assms(2) by (auto simp: k_def max_def)
  then have rk: "rnd (of_nat k) = of_nat k" using is_float_of_nat [of "int k"] by (simp add: rnd_float)
  let ?b = "bucket_zero\<lparr>b_tokens := FFin (of_nat k), b_last := now, b_primed := True\<rparr>"
  have first: "bucket_take bucket_zero now (FFin rate) burst = (True, ?b)"
    using bucket_take_fresh [OF assms(1) b63, of bucket_zero now] cap rk by (simp add: bucket_zero_def spend_def)
  have max: "bucket_take b t (FFin rate) (max burst 1) = bucket_take b t (FFin rate) burst" for b t
    by (simp add: bucket_take_def)
  then have tk: "takes b rate (max burst 1) ts = takes b rate burst ts" for b ts
    by (induction ts arbitrary: b) (auto split: prod.splits)
  have "int k \<le> max burst 1" by (auto simp: k_def max_def)
  then have "fst (takes ?b rate burst (replicate m now)) = min m k"
    using takes_instant [OF assms(1), of "max burst 1" ?b k now m] assms(2) tk by simp
  then show ?thesis using Suc first by (auto simp: k_def split: prod.splits)
qed simp

text \<open>
  C31.  A client that waits is served again: once the refill since its last request reaches one
  token, the next request is allowed, whatever happened before.
\<close>

theorem bucket_progress:
  assumes "0 < rate" "burst < 2 ^ 63" "b_primed b" "b_tokens b = FFin x" "is_float x" "b_last b \<le> now"
    and "1 \<le> refill rate (time_Sub now (b_last b))"
  shows "fst (bucket_take b now (FFin rate) burst)"
proof -
  have "1 \<le> rnd (x + refill rate (time_Sub now (b_last b)))"
    using assms(7) is_float_nonneg [OF assms(5)] by (intro rnd_ge) auto
  then have "1 \<le> level rate burst x (time_Sub now (b_last b))"
    using capacity_float(3) [OF assms(2)] by (simp add: level_def)
  then show ?thesis using bucket_take_primed [OF assms(1-6)] by (simp add: spend_def)
qed

theorem bucket_progress_witness:
  "fst (bucket_take \<lparr>b_tokens = FFin 0, b_last = 0, b_primed = True\<rparr> (10 ^ 9) (FFin 1) 5)"
proof (rule bucket_progress)
  show "1 \<le> refill 1 (time_Sub (10 ^ 9) (b_last \<lparr>b_tokens = FFin 0, b_last = 0, b_primed = True\<rparr>))"
    by (simp add: refill_def time_Sub_def int64_sat_def duration_Seconds_def float_of_int_def to_float_def rnd_float)
qed auto

section \<open>The tracker as a state machine\<close>

text \<open>
  The state is the tracker with the release functions handed out so far.  One step is one
  operation under the tracker's lock, with any arguments and any reading of the clock; the lock
  makes every interleaving of callers a sequence of such steps.
\<close>

type_synonym limits_state = "Tracker \<times> release_fn list"

inductive limits_step :: "limits_state \<Rightarrow> limits_state \<Rightarrow> bool" where
  acquired: "Acquire t ip lims maxTotal now = (Inr f, t') \<Longrightarrow> limits_step (t, fs) (t', fs @ [f])"
| refused: "Acquire t ip lims maxTotal now = (Inl e, t') \<Longrightarrow> limits_step (t, fs) (t', fs)"
| released: "i < length fs \<Longrightarrow> release (fs ! i) now t = (f, t') \<Longrightarrow> limits_step (t, fs) (t', fs[i := f])"
| allow: "Allow t ip lims now = (ok, t') \<Longrightarrow> limits_step (t, fs) (t', fs)"
| log: "Log t ip action host now = (ok, t') \<Longrightarrow> limits_step (t, fs) (t', fs)"
| log_unknown: "LogUnknown t ip now = (ok, t') \<Longrightarrow> limits_step (t, fs) (t', fs)"
| sweep: "Sweep t now = (out, t') \<Longrightarrow> limits_step (t, fs) (t', fs)"

inductive_cases limits_stepE: "limits_step s s'"

definition limits_reachable :: "limits_state \<Rightarrow> bool" where
  "limits_reachable s \<longleftrightarrow> limits_step\<^sup>*\<^sup>* (NewTracker, []) s"

text \<open>The connections that are still open on a client entry, and all of them.\<close>

definition is_open :: "client_ptr \<Rightarrow> release_fn \<Rightarrow> bool" where
  "is_open r f \<longleftrightarrow> \<not> rel_done f \<and> rel_client f = r"

definition open_on :: "client_ptr \<Rightarrow> release_fn list \<Rightarrow> int" where
  "open_on r fs = int (length (filter (is_open r) fs))"

definition open_total :: "release_fn list \<Rightarrow> int" where
  "open_total fs = int (length (filter (\<lambda>f. \<not> rel_done f) fs))"

definition entries :: "Tracker \<Rightarrow> client_ptr list" where
  "entries t = map snd (tr_clients t) @ map snd (tr_overflow t)"

definition client_wf :: "client \<Rightarrow> bool" where
  "client_wf c \<longleftrightarrow> length (cl_suppressed c) \<le> maxSuppressedKeys \<and> distinct (map fst (cl_suppressed c)) \<and>
     (\<forall>(k, n) \<in> set (cl_suppressed c). 1 \<le> n) \<and> 0 \<le> cl_other c"

text \<open>The structure of a tracker, without the connection counts.\<close>

definition tracker_wf :: "Tracker \<Rightarrow> bool" where
  "tracker_wf t \<longleftrightarrow>
     distinct (entries t) \<and> (\<forall>r \<in> set (entries t). r < length (tr_store t)) \<and>
     distinct (map fst (tr_clients t)) \<and> distinct (map fst (tr_overflow t)) \<and>
     length (tr_clients t) \<le> maxClients \<and>
     (\<forall>c \<in> set (tr_store t). client_wf c) \<and> client_wf (tr_unknown t)"

definition limits_inv :: "limits_state \<Rightarrow> bool" where
  "limits_inv s \<longleftrightarrow>
     (case s of (t, fs) \<Rightarrow>
        tracker_wf t \<and> tr_total t = open_total fs \<and>
        (\<forall>f \<in> set fs. rel_client f < length (tr_store t)) \<and>
        (\<forall>r < length (tr_store t). cl_conns (tr_store t ! r) = open_on r fs) \<and>
        (\<forall>r < length (tr_store t). open_on r fs \<noteq> 0 \<longrightarrow> r \<in> set (entries t)))"

lemma client_wf_zero [simp]: "client_wf client_zero"
  by (simp add: client_wf_def client_zero_def)

lemma limits_inv_init: "limits_inv (NewTracker, [])"
  by (simp add: limits_inv_def tracker_wf_def NewTracker_def entries_def open_total_def)

text \<open>Finding or creating an entry.\<close>

lemma map_of_snd: "map_of m k = Some v \<Longrightarrow> v \<in> snd ` set m"
  by (metis map_of_SomeD snd_conv imageI)

lemma tr_find_cases:
  assumes "tr_find t ip = (r, t')"
  obtains (old) "t' = t" "r \<in> set (entries t)"
  | (client) "r = length (tr_store t)" "map_of (tr_clients t) ip = None" "length (tr_clients t) < maxClients"
      "t' = t\<lparr>tr_store := tr_store t @ [client_zero], tr_clients := (ip, r) # tr_clients t\<rparr>"
  | (network) "r = length (tr_store t)" "map_of (tr_overflow t) (overflowPrefix ip) = None"
      "t' = t\<lparr>tr_store := tr_store t @ [client_zero], tr_overflow := (overflowPrefix ip, r) # tr_overflow t\<rparr>"
proof (cases "map_of (tr_clients t) ip")
  case (Some q)
  then have "q \<in> set (entries t)" using map_of_snd [of "tr_clients t"] by (force simp: entries_def)
  then show thesis using Some assms old by (simp add: tr_find_def)
next
  case None
  show thesis
  proof (cases "length (tr_clients t) < maxClients")
    case True
    then show thesis using None assms client by (auto simp: tr_find_def new_client_def)
  next
    case full: False
    show thesis
    proof (cases "map_of (tr_overflow t) (overflowPrefix ip)")
      case (Some q)
      then have "q \<in> set (entries t)" using map_of_snd [of "tr_overflow t"] by (force simp: entries_def)
      then show thesis using Some None full assms old by (simp add: tr_find_def)
    next
      case no: None
      then show thesis using None full assms network by (auto simp: tr_find_def new_client_def)
    qed
  qed
qed

lemma tr_find_wf:
  assumes "tr_find t ip = (r, t')" "tracker_wf t"
  shows "tracker_wf t' \<and> r \<in> set (entries t')"
proof -
  have fresh: "length (tr_store t) \<notin> set (entries t)" using assms(2) by (auto simp: tracker_wf_def)
  have lt: "\<forall>r \<in> set (entries t). r < Suc (length (tr_store t))" using assms(2) by (auto simp: tracker_wf_def)
  show ?thesis using assms(1)
  proof (cases rule: tr_find_cases)
    case client
    have "ip \<notin> fst ` set (tr_clients t)" using client(2) by (simp add: map_of_eq_None_iff)
    then show ?thesis using assms(2) client(1,3,4) fresh lt by (simp add: tracker_wf_def entries_def)
  next
    case network
    have "overflowPrefix ip \<notin> fst ` set (tr_overflow t)" using network(2) by (simp add: map_of_eq_None_iff)
    then show ?thesis using assms(2) network(1,3) fresh lt by (simp add: tracker_wf_def entries_def ball_Un)
  qed (use assms in simp)
qed

lemma open_on_beyond: "\<forall>f \<in> set fs. rel_client f < n \<Longrightarrow> n \<le> r \<Longrightarrow> open_on r fs = 0"
  by (auto simp: open_on_def is_open_def filter_empty_conv)

lemma tr_find_inv:
  assumes "tr_find t ip = (r, t')" "limits_inv (t, fs)"
  shows "limits_inv (t', fs) \<and> r \<in> set (entries t') \<and> r < length (tr_store t')"
proof -
  have wf: "tracker_wf t" and refs: "\<forall>f \<in> set fs. rel_client f < length (tr_store t)" using assms(2) by (auto simp: limits_inv_def)
  have wf': "tracker_wf t'" "r \<in> set (entries t')" using tr_find_wf [OF assms(1) wf] by auto
  have new: "open_on (length (tr_store t)) fs = 0" using open_on_beyond [OF refs] by simp
  have "limits_inv (t', fs)"
    using assms(1)
  proof (cases rule: tr_find_cases)
    case old
    then show ?thesis using assms(2) by simp
  next
    case client
    then show ?thesis using assms(2) wf'(1) new
      by (auto simp: limits_inv_def nth_append less_Suc_eq client_zero_def entries_def)
  next
    case network
    then show ?thesis using assms(2) wf'(1) new
      by (auto simp: limits_inv_def nth_append less_Suc_eq client_zero_def entries_def)
  qed
  then show ?thesis using wf' by (auto simp: tracker_wf_def)
qed

text \<open>Updates of an entry that leave its connection count alone.\<close>

lemma entries_update [simp]: "entries (update_client r f t) = entries t" "entries (t\<lparr>tr_total := n\<rparr>) = entries t"
  "entries (t\<lparr>tr_store := s\<rparr>) = entries t" "entries (t\<lparr>tr_unknown := c\<rparr>) = entries t"
  by (simp_all add: entries_def update_client_def)

lemma update_client_wf:
  assumes "tracker_wf t" "r < length (tr_store t)" "client_wf (f (tr_store t ! r))"
  shows "tracker_wf (update_client r f t)"
  using assms set_update_subset_insert [of "tr_store t" r "f (tr_store t ! r)"]
  by (auto simp: tracker_wf_def update_client_def entries_def)

lemma update_client_inv:
  assumes "limits_inv (t, fs)" "r < length (tr_store t)" "client_wf (f (tr_store t ! r))"
    "cl_conns (f (tr_store t ! r)) = cl_conns (tr_store t ! r)"
  shows "limits_inv (update_client r f t, fs)"
  using assms update_client_wf [of t r f]
  by (auto simp: limits_inv_def nth_list_update) (auto simp: update_client_def nth_list_update)

lemma inv_entry_wf: "limits_inv (t, fs) \<Longrightarrow> r < length (tr_store t) \<Longrightarrow> client_wf (tr_store t ! r)"
  by (auto simp: limits_inv_def tracker_wf_def)

lemma tr_get_inv:
  assumes "tr_get t ip now = (r, t')" "limits_inv (t, fs)"
  shows "limits_inv (t', fs)" "r \<in> set (entries t')" "r < length (tr_store t')"
proof -
  obtain t1 where t1: "tr_find t ip = (r, t1)" "t' = update_client r (cl_seen_update (\<lambda>_. now)) t1"
    using assms(1) by (auto simp: tr_get_def split: prod.splits)
  note f = tr_find_inv [OF t1(1) assms(2)]
  have "client_wf (tr_store t1 ! r)" using f inv_entry_wf by blast
  then show "limits_inv (t', fs)" unfolding t1(2) using f by (intro update_client_inv) (auto simp: client_wf_def)
  show "r \<in> set (entries t')" "r < length (tr_store t')" using f t1(2) by (simp_all add: update_client_def entries_def)
qed

lemma client_wf_fields [simp]:
  "client_wf (c\<lparr>cl_requests := b\<rparr>) = client_wf c" "client_wf (c\<lparr>cl_logs := b\<rparr>) = client_wf c"
  "client_wf (c\<lparr>cl_seen := now\<rparr>) = client_wf c" "client_wf (c\<lparr>cl_conns := n\<rparr>) = client_wf c"
  by (simp_all add: client_wf_def)

lemma count_key_keys: "fst ` set (count_key m k) = insert k (fst ` set m)"
  by (induction m k rule: count_key.induct) auto

lemma count_key_length:
  "length (count_key m k) = (if map_of m k = None then Suc (length m) else length m)"
  by (induction m k rule: count_key.induct) auto

lemma count_key_distinct: "distinct (map fst m) \<Longrightarrow> distinct (map fst (count_key m k))"
  by (induction m k rule: count_key.induct) (auto simp: count_key_keys)

lemma count_key_pos: "\<forall>(j, n) \<in> set m. 1 \<le> n \<Longrightarrow> \<forall>(j, n) \<in> set (count_key m k). 1 \<le> (n::int)"
  by (induction m k rule: count_key.induct) auto

lemma client_log_wf:
  assumes "client_log c now k = (ok, c')" "client_wf c"
  shows "client_wf c'" "cl_conns c' = cl_conns c" "cl_seen c' = cl_seen c" "cl_requests c' = cl_requests c"
  using assms count_key_distinct [of "cl_suppressed c" k] count_key_pos [of "cl_suppressed c" k]
  by (auto simp: client_log_def client_wf_def Let_def count_key_length split: prod.splits if_splits)

text \<open>One lemma per operation.\<close>

lemma open_on_snoc [simp]: "open_on r (fs @ [f]) = open_on r fs + (if is_open r f then 1 else 0)"
  by (simp add: open_on_def)

lemma open_total_snoc [simp]: "open_total (fs @ [f]) = open_total fs + (if rel_done f then 0 else 1)"
  by (simp add: open_total_def)

lemma filter_update:
  assumes "i < length xs"
  shows "int (length (filter P (xs[i := y]))) = int (length (filter P xs)) - (if P (xs ! i) then 1 else 0) + (if P y then 1 else 0)"
  using assms
proof (induction xs arbitrary: i)
  case (Cons x xs)
  show ?case
  proof (cases i)
    case (Suc j)
    then show ?thesis using Cons.IH [of j] Cons.prems by (auto split: if_splits)
  qed simp
qed simp

lemma Acquire_inv:
  assumes "Acquire t ip lims maxTotal now = (res, t')" "limits_inv (t, fs)"
  shows "case res of Inl _ \<Rightarrow> limits_inv (t', fs) | Inr f \<Rightarrow> limits_inv (t', fs @ [f])"
proof (cases "maxTotal > 0 \<and> tr_total t \<ge> maxTotal")
  case True
  then show ?thesis using assms by (auto simp: Acquire_def)
next
  case False
  obtain r t1 where g: "tr_get t ip now = (r, t1)" by fastforce
  note inv = tr_get_inv [OF g assms(2)]
  show ?thesis
  proof (cases "MaxConnections lims > 0 \<and> cl_conns (tr_store t1 ! r) \<ge> MaxConnections lims")
    case True
    then show ?thesis using assms(1) False g inv by (auto simp: Acquire_def)
  next
    case ok: False
    let ?f = "\<lparr>rel_client = r, rel_done = False\<rparr>"
    have res: "res = Inr ?f" "t' = (update_client r (cl_conns_update (\<lambda>n. n + 1)) t1)\<lparr>tr_total := tr_total t1 + 1\<rparr>"
      using assms(1) False g ok by (auto simp: Acquire_def)
    have "tracker_wf (update_client r (cl_conns_update (\<lambda>n. n + 1)) t1)"
      using inv inv_entry_wf [OF inv(1,3)] by (intro update_client_wf) (auto simp: limits_inv_def client_wf_def)
    then have "tracker_wf t'" using res(2) by (simp add: tracker_wf_def)
    moreover have "entries t' = entries t1" using res(2) by simp
    ultimately have "limits_inv (t', fs @ [?f])"
      using inv res(2) by (auto simp: limits_inv_def update_client_def nth_list_update is_open_def)
    then show ?thesis using res(1) by simp
  qed
qed

lemma release_inv:
  assumes "i < length fs" "release (fs ! i) now t = (f, t')" "limits_inv (t, fs)"
  shows "limits_inv (t', fs[i := f])"
proof (cases "rel_done (fs ! i)")
  case True
  then have "f = fs ! i" "t' = t" using assms(2) by (auto simp: release_def)
  then show ?thesis using assms(3) by simp
next
  case False
  let ?r = "rel_client (fs ! i)"
  have f: "f = (fs ! i)\<lparr>rel_done := True\<rparr>"
    and t': "t' = (update_client ?r (\<lambda>c. c\<lparr>cl_conns := cl_conns c - 1, cl_seen := now\<rparr>) t)\<lparr>tr_total := tr_total t - 1\<rparr>"
    using assms(2) False by (auto simp: release_def)
  have r: "?r < length (tr_store t)" using assms(1,3) by (auto simp: limits_inv_def)
  have "tracker_wf (update_client ?r (\<lambda>c. c\<lparr>cl_conns := cl_conns c - 1, cl_seen := now\<rparr>) t)"
    using inv_entry_wf [OF assms(3) r] r assms(3) by (intro update_client_wf) (auto simp: limits_inv_def client_wf_def)
  then have wf: "tracker_wf t'" using t' by (simp add: tracker_wf_def)
  have on: "open_on q (fs[i := f]) = open_on q fs - (if q = ?r then 1 else 0)" for q
    using filter_update [OF assms(1), of "is_open q" f] False f by (auto simp: open_on_def is_open_def)
  have tot: "open_total (fs[i := f]) = open_total fs - 1"
    using filter_update [OF assms(1), of "\<lambda>f. \<not> rel_done f" f] False f by (simp add: open_total_def)
  have here: "?r \<in> set (entries t)"
  proof -
    have "fs ! i \<in> set (filter (is_open ?r) fs)" using assms(1) False by (simp add: is_open_def)
    then have "open_on ?r fs \<noteq> 0" by (auto simp: open_on_def simp del: set_filter)
    then show ?thesis using assms(3) r by (auto simp: limits_inv_def)
  qed
  have cl: "\<forall>g \<in> set (fs[i := f]). rel_client g < length (tr_store t)"
    using assms(3) r f by (auto simp: limits_inv_def dest!: set_update_subset_insert [THEN subsetD])
  have en: "entries t' = entries t" using t' by simp
  show ?thesis using assms(3) wf on tot cl here en t'
    by (auto simp: limits_inv_def update_client_def nth_list_update)
qed

lemma Allow_inv:
  assumes "Allow t ip lims now = (ok, t')" "limits_inv (t, fs)"
  shows "limits_inv (t', fs)"
proof -
  obtain r t1 where g: "tr_get t ip now = (r, t1)" by fastforce
  note inv = tr_get_inv [OF g assms(2)]
  obtain b where "t' = update_client r (cl_requests_update (\<lambda>_. b)) t1"
    using assms(1) g by (auto simp: Allow_def split: prod.splits)
  then show ?thesis using inv inv_entry_wf [OF inv(1,3)] by (auto intro!: update_client_inv)
qed

lemma Log_inv:
  assumes "Log t ip action host now = (ok, t')" "limits_inv (t, fs)"
  shows "limits_inv (t', fs)"
proof -
  obtain r t1 where g: "tr_get t ip now = (r, t1)" by fastforce
  note inv = tr_get_inv [OF g assms(2)]
  obtain c where c: "client_log (tr_store t1 ! r) now \<lparr>sk_Action = action, sk_Host = host\<rparr> = (ok, c)"
      "t' = update_client r (\<lambda>_. c) t1"
    using assms(1) g by (auto simp: Log_def split: prod.splits)
  then show ?thesis using inv client_log_wf [OF c(1) inv_entry_wf [OF inv(1,3)]] by (auto intro!: update_client_inv)
qed

lemma LogUnknown_inv:
  assumes "LogUnknown t ip now = (ok, t')" "limits_inv (t, fs)"
  shows "limits_inv (t', fs)"
proof -
  obtain c where c: "client_log (tr_unknown t) now \<lparr>sk_Action = ''deny'', sk_Host = addr_String ip\<rparr> = (ok, c)"
      "t' = t\<lparr>tr_unknown := c\<rparr>"
    using assms(1) by (auto simp: LogUnknown_def split: prod.splits)
  then show ?thesis using assms(2) client_log_wf(1) [OF c(1)]
    by (auto simp: limits_inv_def tracker_wf_def)
qed

text \<open>Sweeping one map.\<close>

definition swept :: "client \<Rightarrow> client" where
  "swept c = snd (sweep_take c no_summary)"

lemma sweep_take_swept: "snd (sweep_take c s) = swept c"
  by (simp add: swept_def sweep_take_def)

lemma swept_fields [simp]:
  "cl_conns (swept c) = cl_conns c" "cl_seen (swept c) = cl_seen c" "client_wf c \<Longrightarrow> client_wf (swept c)"
  "forgettable now (swept c) = forgettable now c"
  by (auto simp: swept_def sweep_take_def client_wf_def forgettable_def)

lemma sweep_map_result:
  assumes "sweep_map now mk m store = (store', m', out)" "distinct (map snd m)" "\<forall>r \<in> snd ` set m. r < length store"
  shows "length store' = length store \<and>
    (\<forall>q < length store. store' ! q = (if q \<in> snd ` set m then swept (store ! q) else store ! q)) \<and>
    m' = filter (\<lambda>(k, r). \<not> forgettable now (store ! r)) m \<and>
    out = concat (map (\<lambda>(k, r). fst (sweep_take (store ! r) (mk k))) m)"
  using assms
proof (induction m arbitrary: store m' out)
  case Nil
  then show ?case by simp
next
  case (Cons x m)
  obtain k r where x: "x = (k, r)" by (cases x)
  let ?c = "swept (store ! r)"
  let ?s = "store[r := ?c]"
  obtain out1 where t: "sweep_take (store ! r) (mk k) = (out1, ?c)"
    using sweep_take_swept [of "store ! r" "mk k"] by (metis prod.collapse)
  obtain m2 out2 where rec: "sweep_map now mk m ?s = (store', m2, out2)"
      "m' = (if forgettable now ?c then m2 else (k, r) # m2)" "out = out1 @ out2"
    using Cons.prems(1) t x by (auto split: prod.splits)
  have r: "r \<notin> snd ` set m" "r < length store" using Cons.prems(2,3) x by auto
  have IH: "length store' = length ?s"
    "\<forall>q < length ?s. store' ! q = (if q \<in> snd ` set m then swept (?s ! q) else ?s ! q)"
    "m2 = filter (\<lambda>(k, r). \<not> forgettable now (?s ! r)) m" "out2 = concat (map (\<lambda>(k, r). fst (sweep_take (?s ! r) (mk k))) m)"
    using Cons.IH [OF rec(1)] Cons.prems(2,3) x by auto
  have same: "?s ! q = store ! q" if "(j, q) \<in> set m" for j q using that r(1) by (metis imageI nth_list_update_neq snd_conv)
  have m2: "m2 = filter (\<lambda>(k, r). \<not> forgettable now (store ! r)) m" unfolding IH(3) using same by (intro filter_cong) auto
  have o2: "out2 = concat (map (\<lambda>(k, r). fst (sweep_take (store ! r) (mk k))) m)"
    unfolding IH(4) using same by (intro arg_cong [where f = concat] map_cong) auto
  have st: "\<forall>q < length store. store' ! q = (if q \<in> snd ` set (x # m) then swept (store ! q) else store ! q)"
    using IH(2) r x by (auto simp: nth_list_update)
  have "m' = filter (\<lambda>(k, r). \<not> forgettable now (store ! r)) (x # m)" using rec(2) m2 x by simp
  moreover have "out = concat (map (\<lambda>(k, r). fst (sweep_take (store ! r) (mk k))) (x # m))" using rec(3) o2 x t by simp
  ultimately show ?case using IH(1) st by (simp del: filter.simps list.map)
qed

lemma distinct_snd_filter: "distinct (map snd m) \<Longrightarrow> distinct (map snd (filter P m))" "distinct (map fst m) \<Longrightarrow> distinct (map fst (filter P m))"
  by (induction m) auto

lemma Sweep_result:
  assumes "Sweep t now = (out, t')" "tracker_wf t"
  shows "tr_total t' = tr_total t" "length (tr_store t') = length (tr_store t)"
    "\<forall>q < length (tr_store t). tr_store t' ! q = (if q \<in> set (entries t) then swept (tr_store t ! q) else tr_store t ! q)"
    "tr_clients t' = filter (\<lambda>(k, r). \<not> forgettable now (tr_store t ! r)) (tr_clients t)"
    "tr_overflow t' = filter (\<lambda>(k, r). \<not> forgettable now (tr_store t ! r)) (tr_overflow t)"
    "tr_unknown t' = swept (tr_unknown t)"
    "out = concat (map (\<lambda>(k, r). fst (sweep_take (tr_store t ! r) (no_summary\<lparr>su_Client := k\<rparr>))) (tr_clients t)) @
       concat (map (\<lambda>(k, r). fst (sweep_take (tr_store t ! r) (no_summary\<lparr>su_Prefix := k\<rparr>))) (tr_overflow t)) @
       fst (sweep_take (tr_unknown t) (no_summary\<lparr>su_Unknown := True\<rparr>))"
proof -
  have dis: "distinct (map snd (tr_clients t))" "distinct (map snd (tr_overflow t))"
      "\<forall>r \<in> snd ` set (tr_clients t). r < length (tr_store t)" "\<forall>r \<in> snd ` set (tr_overflow t). r < length (tr_store t)"
      "snd ` set (tr_clients t) \<inter> snd ` set (tr_overflow t) = {}"
    using assms(2) by (auto simp: tracker_wf_def entries_def)
  obtain store1 c1 out1 where s1: "sweep_map now (\<lambda>ip. no_summary\<lparr>su_Client := ip\<rparr>) (tr_clients t) (tr_store t) = (store1, c1, out1)"
    by (metis prod_cases3)
  note r1 = sweep_map_result [OF s1 dis(1,3)]
  obtain store2 c2 out2 where s2: "sweep_map now (\<lambda>p. no_summary\<lparr>su_Prefix := p\<rparr>) (tr_overflow t) store1 = (store2, c2, out2)"
    by (metis prod_cases3)
  have "\<forall>r \<in> snd ` set (tr_overflow t). r < length store1" using dis(4) r1 by simp
  note r2 = sweep_map_result [OF s2 dis(2) this]
  have same: "store1 ! r = tr_store t ! r" if "(k, r) \<in> set (tr_overflow t)" for k r
    using that r1 dis(4,5) by (metis Int_iff empty_iff image_eqI snd_conv)
  have f2: "filter (\<lambda>(k, r). \<not> forgettable now (store1 ! r)) (tr_overflow t) = filter (\<lambda>(k, r). \<not> forgettable now (tr_store t ! r)) (tr_overflow t)"
    using same by (intro filter_cong) auto
  have m2: "map (\<lambda>(k, r). fst (sweep_take (store1 ! r) (no_summary\<lparr>su_Prefix := k\<rparr>))) (tr_overflow t) =
      map (\<lambda>(k, r). fst (sweep_take (tr_store t ! r) (no_summary\<lparr>su_Prefix := k\<rparr>))) (tr_overflow t)"
    using same by (intro map_cong) auto
  have st: "\<forall>q < length (tr_store t). store2 ! q = (if q \<in> set (entries t) then swept (tr_store t ! q) else tr_store t ! q)"
    using r1 r2 dis(5) by (auto simp: entries_def)
  obtain o3 u where s3: "sweep_take (tr_unknown t) (no_summary\<lparr>su_Unknown := True\<rparr>) = (o3, u)" by fastforce
  have res: "out = out1 @ out2 @ o3" "t' = t\<lparr>tr_store := store2, tr_clients := c1, tr_overflow := c2, tr_unknown := u\<rparr>"
    using assms(1) s1 s2 s3 by (auto simp: Sweep_def)
  have u: "u = swept (tr_unknown t)" using sweep_take_swept [of "tr_unknown t" "no_summary\<lparr>su_Unknown := True\<rparr>"] s3 by simp
  show "tr_total t' = tr_total t" "tr_unknown t' = swept (tr_unknown t)" using res u by simp_all
  show "length (tr_store t') = length (tr_store t)" using res r1 r2 by simp
  show "\<forall>q < length (tr_store t). tr_store t' ! q = (if q \<in> set (entries t) then swept (tr_store t ! q) else tr_store t ! q)"
    using res st by simp
  show "tr_clients t' = filter (\<lambda>(k, r). \<not> forgettable now (tr_store t ! r)) (tr_clients t)"
    "tr_overflow t' = filter (\<lambda>(k, r). \<not> forgettable now (tr_store t ! r)) (tr_overflow t)" using res r1 r2 f2 by simp_all
  show "out = concat (map (\<lambda>(k, r). fst (sweep_take (tr_store t ! r) (no_summary\<lparr>su_Client := k\<rparr>))) (tr_clients t)) @
       concat (map (\<lambda>(k, r). fst (sweep_take (tr_store t ! r) (no_summary\<lparr>su_Prefix := k\<rparr>))) (tr_overflow t)) @
       fst (sweep_take (tr_unknown t) (no_summary\<lparr>su_Unknown := True\<rparr>))"
    using res(1) r1 r2 m2 s3 by simp
qed

lemma Sweep_inv:
  assumes "Sweep t now = (out, t')" "limits_inv (t, fs)"
  shows "limits_inv (t', fs)"
proof -
  have wf: "tracker_wf t" using assms(2) by (simp add: limits_inv_def)
  note r = Sweep_result [OF assms(1) wf]
  have sub: "set (entries t') \<subseteq> set (entries t)" unfolding entries_def r(4,5) by auto
  have conns: "cl_conns (tr_store t' ! q) = cl_conns (tr_store t ! q)" if "q < length (tr_store t)" for q
    using r(3) that by simp
  have keep: "q \<in> set (entries t')" if "q < length (tr_store t)" "open_on q fs \<noteq> 0" for q
  proof -
    have q: "q \<in> set (entries t)" "cl_conns (tr_store t ! q) \<noteq> 0" using assms(2) that by (auto simp: limits_inv_def)
    then have "\<not> forgettable now (tr_store t ! q)" by (simp add: forgettable_def)
    then show ?thesis using q(1) unfolding entries_def r(4,5) by force
  qed
  have "distinct (entries t')"
    using wf sub unfolding tracker_wf_def entries_def r(4,5)
    by (auto simp: distinct_snd_filter)
  moreover have "\<forall>c \<in> set (tr_store t'). client_wf c"
  proof
    fix c assume "c \<in> set (tr_store t')"
    then obtain q where q: "q < length (tr_store t)" "c = tr_store t' ! q" using r(2) by (metis in_set_conv_nth)
    moreover have "client_wf (tr_store t ! q)" using wf q(1) by (simp add: tracker_wf_def)
    ultimately show "client_wf c" using r(3) by simp
  qed
  moreover have "length (tr_clients t') \<le> maxClients"
    using wf length_filter_le [of _ "tr_clients t"] unfolding r(4) tracker_wf_def by (meson order_trans)
  ultimately have "tracker_wf t'"
    using wf sub r(2,6) unfolding tracker_wf_def by (auto simp: r(4,5) distinct_snd_filter)
  then show ?thesis using assms(2) r(1,2) conns keep by (auto simp: limits_inv_def)
qed

lemma limits_step_inv: "limits_step s s' \<Longrightarrow> limits_inv s \<Longrightarrow> limits_inv s'"
proof (induction rule: limits_step.induct)
  case (acquired t ip lims maxTotal now f t' fs)
  then show ?case using Acquire_inv by fastforce
next
  case (refused t ip lims maxTotal now e t' fs)
  then show ?case using Acquire_inv by fastforce
qed (auto intro: release_inv Allow_inv Log_inv LogUnknown_inv Sweep_inv)

interpretation tracker_machine: step_invariant limits_step "\<lambda>s. s = (NewTracker, [])" limits_inv
  by unfold_locales (auto intro: limits_inv_init limits_step_inv)

lemma limits_reachable_inv: "limits_reachable s \<Longrightarrow> limits_inv s"
  unfolding limits_reachable_def by (rule tracker_machine.holds_after [OF _ refl])

section \<open>Suppressed log lines\<close>

definition pending_of :: "client \<Rightarrow> int" where
  "pending_of c = sum_list (map snd (cl_suppressed c)) + cl_other c"

definition pending :: "Tracker \<Rightarrow> int" where
  "pending t = sum_list (map (\<lambda>r. pending_of (tr_store t ! r)) (entries t)) + pending_of (tr_unknown t)"

definition summarized :: "Suppressed list \<Rightarrow> int" where
  "summarized out = sum_list (map (\<lambda>s. sum_list (map snd (su_Counts s)) + su_Other s) out)"

lemma count_key_sum: "sum_list (map snd (count_key m k)) = sum_list (map snd m) + 1"
  by (induction m k rule: count_key.induct) auto

lemma client_log_pending: "client_log c now k = (ok, c') \<Longrightarrow> pending_of c' = pending_of c + (if ok then 0 else 1)"
  by (auto simp: client_log_def pending_of_def Let_def count_key_sum split: prod.splits if_splits)

lemma pending_update_client:
  assumes "distinct (entries t)" "r \<in> set (entries t)" "r < length (tr_store t)"
  shows "pending (update_client r f t) = pending t + pending_of (f (tr_store t ! r)) - pending_of (tr_store t ! r)"
proof -
  have "sum_list (map (\<lambda>q. pending_of ((tr_store t)[r := f (tr_store t ! r)] ! q)) xs) =
      sum_list (map (\<lambda>q. pending_of (tr_store t ! q)) xs) +
      (if r \<in> set xs then pending_of (f (tr_store t ! r)) - pending_of (tr_store t ! r) else 0)"
    if "distinct xs" for xs
    using that assms(3) by (induction xs) (auto simp: nth_list_update)
  from this [OF assms(1)] show ?thesis using assms(2) by (simp add: pending_def update_client_def entries_def)
qed

lemma tr_get_pending:
  assumes "tr_get t ip now = (r, t')" "tracker_wf t"
  shows "pending t' = pending t \<and> r \<in> set (entries t') \<and> r < length (tr_store t') \<and> tracker_wf t'"
proof -
  obtain t1 where t1: "tr_find t ip = (r, t1)" "t' = update_client r (cl_seen_update (\<lambda>_. now)) t1"
    using assms(1) by (auto simp: tr_get_def split: prod.splits)
  note wf = tr_find_wf [OF t1(1) assms(2)]
  then have r: "r < length (tr_store t1)" "distinct (entries t1)" "client_wf (tr_store t1 ! r)" by (auto simp: tracker_wf_def)
  let ?g = "\<lambda>q. pending_of ((tr_store t @ [client_zero]) ! q)" and ?h = "\<lambda>q. pending_of (tr_store t ! q)"
  have "map (?g \<circ> snd) (tr_clients t) = map (?h \<circ> snd) (tr_clients t)" "map (?g \<circ> snd) (tr_overflow t) = map (?h \<circ> snd) (tr_overflow t)"
    using assms(2) by (auto simp: tracker_wf_def entries_def nth_append)
  then have old: "sum_list (map (?g \<circ> snd) (tr_clients t)) = sum_list (map (?h \<circ> snd) (tr_clients t))"
      "sum_list (map (?g \<circ> snd) (tr_overflow t)) = sum_list (map (?h \<circ> snd) (tr_overflow t))"
    by (simp_all only:)
  have zero: "pending_of client_zero = 0" by (simp add: pending_of_def client_zero_def)
  have "pending t1 = pending t"
    using t1(1)
  proof (cases rule: tr_find_cases)
    case client
    then show ?thesis using old zero by (simp add: pending_def entries_def)
  next
    case network
    then show ?thesis using old zero by (simp add: pending_def entries_def)
  qed simp
  moreover have "pending t' = pending t1"
    using pending_update_client [OF r(2) _ r(1)] wf t1(2) by (simp add: pending_of_def)
  moreover have "tracker_wf t'" using t1(2) wf r update_client_wf [of t1 r] by (simp add: client_wf_def)
  ultimately show ?thesis using wf r t1(2) by (simp add: update_client_def entries_def)
qed

lemma Log_pending:
  assumes "Log t ip action host now = (ok, t')" "tracker_wf t"
  shows "pending t' = pending t + (if ok then 0 else 1)"
proof -
  obtain r t1 where g: "tr_get t ip now = (r, t1)" by fastforce
  note p = tr_get_pending [OF g assms(2)]
  obtain c where c: "client_log (tr_store t1 ! r) now \<lparr>sk_Action = action, sk_Host = host\<rparr> = (ok, c)"
      "t' = update_client r (\<lambda>_. c) t1"
    using assms(1) g by (auto simp: Log_def split: prod.splits)
  have "pending t' = pending t1 + pending_of c - pending_of (tr_store t1 ! r)"
    unfolding c(2) using p by (intro pending_update_client) (auto simp: tracker_wf_def)
  then show ?thesis using p client_log_pending [OF c(1)] by simp
qed

lemma LogUnknown_pending:
  "LogUnknown t ip now = (ok, t') \<Longrightarrow> pending t' = pending t + (if ok then 0 else 1)"
  using client_log_pending [of "tr_unknown t" now "\<lparr>sk_Action = ''deny'', sk_Host = addr_String ip\<rparr>" ok]
  by (auto simp: LogUnknown_def pending_def entries_def split: prod.splits)

lemma summarized_append [simp]: "summarized (xs @ ys) = summarized xs + summarized ys" "summarized [] = 0"
  by (simp_all add: summarized_def)

lemma sweep_take_count: "client_wf c \<Longrightarrow> summarized (fst (sweep_take c s)) = pending_of c" "client_wf c \<Longrightarrow> pending_of (swept c) = 0"
  by (auto simp: swept_def sweep_take_def summarized_def pending_of_def client_wf_def)

lemma summarized_sweep:
  assumes "\<And>k r. (k, r) \<in> set m \<Longrightarrow> client_wf (g r)"
  shows "summarized (concat (map (\<lambda>(k, r). fst (sweep_take (g r) (mk k))) m)) = sum_list (map (\<lambda>r. pending_of (g r)) (map snd m))"
  using assms
proof (induction m)
  case (Cons x m)
  obtain k r where x: "x = (k, r)" by (cases x)
  have "client_wf (g r)" using Cons.prems x by auto
  moreover have "summarized (concat (map (\<lambda>(k, r). fst (sweep_take (g r) (mk k))) m)) = sum_list (map (\<lambda>r. pending_of (g r)) (map snd m))"
    using Cons.IH Cons.prems by (meson list.set_intros(2))
  ultimately show ?case using x by (simp add: sweep_take_count)
qed simp

lemma Sweep_pending:
  assumes "Sweep t now = (out, t')" "tracker_wf t"
  shows "summarized out = pending t" "pending t' = 0"
proof -
  note r = Sweep_result [OF assms]
  have wf: "client_wf (tr_store t ! q)" if "q \<in> set (entries t)" for q using assms(2) that by (auto simp: tracker_wf_def)
  have u: "client_wf (tr_unknown t)" using assms(2) by (simp add: tracker_wf_def)
  have "client_wf (tr_store t ! q)" if "(k, q) \<in> set (tr_clients t)" for k q using wf that by (force simp: entries_def)
  moreover have "client_wf (tr_store t ! q)" if "(k, q) \<in> set (tr_overflow t)" for k q using wf that by (force simp: entries_def)
  ultimately show "summarized out = pending t"
    unfolding r(7) using sweep_take_count(1) [OF u]
    by (simp add: summarized_sweep pending_def entries_def)
  have "pending_of (tr_store t' ! q) = 0" if "q \<in> set (entries t')" for q
  proof -
    have q: "q \<in> set (entries t)" using that unfolding entries_def r(4,5) by auto
    then show ?thesis using r(3) wf [OF q] assms(2) sweep_take_count(2) by (auto simp: tracker_wf_def)
  qed
  then have "map (\<lambda>q. pending_of (tr_store t' ! q)) (entries t') = map (\<lambda>q. 0) (entries t')" by simp
  then show "pending t' = 0" using sweep_take_count(2) [OF u] unfolding pending_def r(6) by (simp only: sum_list_0)
qed

section \<open>Admission\<close>

text \<open>
  Whose connections an entry counts: those of an address that is tracked by itself, or, when the table of addresses is full,
  those of the addresses of one network, 24 bits of an IPv4 or 64 of an IPv6 address.
\<close>

fun same_network :: "addr \<Rightarrow> addr \<Rightarrow> bool" where
  "same_network (Addr4 a) (Addr4 b) \<longleftrightarrow> drop_bit 8 a = drop_bit 8 b"
| "same_network (Addr6 a _) (Addr6 b _) \<longleftrightarrow> drop_bit 64 a = drop_bit 64 b"
| "same_network AddrZero AddrZero \<longleftrightarrow> True"
| "same_network _ _ \<longleftrightarrow> False"

definition own_entry :: "Tracker \<Rightarrow> addr \<Rightarrow> client_ptr \<Rightarrow> bool" where
  "own_entry t ip r \<longleftrightarrow> map_of (tr_clients t) ip = Some r \<or>
     map_of (tr_clients t) ip = None \<and> 100000 \<le> length (tr_clients t) \<and> map_of (tr_overflow t) (overflowPrefix ip) = Some r"

lemma masked_eq: "(a :: 'a::len word) AND NOT (mask k) = b AND NOT (mask k) \<longleftrightarrow> drop_bit k a = drop_bit k b"
proof -
  have "a AND NOT (mask k) = b AND NOT (mask k) \<longleftrightarrow> (\<forall>n. k \<le> n \<longrightarrow> bit a n = bit b n)"
    by (auto simp: bit_eq_iff bit_simps dest: bit_imp_le_length)
  also have "\<dots> \<longleftrightarrow> (\<forall>n. bit a (k + n) = bit b (k + n))" by (metis le_add1 le_Suc_ex)
  also have "\<dots> \<longleftrightarrow> (\<forall>n. bit (drop_bit k a) n = bit (drop_bit k b) n)" by (simp add: bit_drop_bit_eq)
  also have "\<dots> \<longleftrightarrow> drop_bit k a = drop_bit k b" by (metis bit_eqI)
  finally show ?thesis .
qed

lemma overflowPrefix_eq: "overflowPrefix a = overflowPrefix b \<longleftrightarrow> same_network a b"
  by (cases a; cases b) (simp_all add: overflowPrefix_def AddrPrefix_def PrefixFrom_def PrefixZero_def masked_eq)

lemma tr_find_own: "tr_find t ip = (r, t') \<Longrightarrow> own_entry t' ip r"
  by (auto simp: tr_find_def own_entry_def new_client_def maxClients_def Let_def split: option.splits if_splits)

lemma own_entry_update [simp]: "own_entry (update_client r f t) = own_entry t" "own_entry (t\<lparr>tr_total := n\<rparr>) = own_entry t"
  by (rule ext, rule ext, simp add: own_entry_def update_client_def)+

lemma Acquire_own: "Acquire t ip lims maxTotal now = (Inr f, t') \<Longrightarrow> own_entry t' ip (rel_client f)"
  using tr_find_own [of t ip] by (auto simp: Acquire_def tr_get_def split: if_splits prod.splits)

lemma Acquire_refused:
  assumes "limits_inv (t, fs)" "Acquire t ip lims maxTotal now = (Inl e, t')"
  shows "e = ErrTotalConnections \<and> maxTotal > 0 \<and> maxTotal \<le> open_total fs \<or>
    e = ErrClientConnections \<and> MaxConnections lims > 0 \<and> (\<exists>r. own_entry t' ip r \<and> MaxConnections lims \<le> open_on r fs)"
proof (cases "maxTotal > 0 \<and> tr_total t \<ge> maxTotal")
  case True
  then show ?thesis using assms by (auto simp: Acquire_def limits_inv_def)
next
  case False
  obtain r t1 where f: "tr_find t ip = (r, t1)" by fastforce
  define t2 where "t2 = update_client r (cl_seen_update (\<lambda>_. now)) t1"
  have g: "tr_get t ip now = (r, t2)" using f by (simp add: tr_get_def t2_def)
  have own: "own_entry t2 ip r" using tr_find_own [OF f] by (simp add: t2_def)
  have conns: "cl_conns (tr_store t2 ! r) = open_on r fs" using tr_get_inv [OF g assms(1)] by (simp add: limits_inv_def)
  have "e = ErrClientConnections \<and> t' = t2 \<and> MaxConnections lims > 0 \<and> MaxConnections lims \<le> open_on r fs"
    using assms(2) False conns by (auto simp: Acquire_def g split: if_splits)
  then show ?thesis using own by blast
qed

lemma map_of_distinct_snd:
  assumes "distinct (map snd m)" "map_of m j = Some r" "map_of m k = Some r"
  shows "j = k"
  using assms by (induction m) (auto split: if_splits dest!: map_of_snd)

text \<open>Two addresses have the same entry only when the table is full and they are of the same network.\<close>

lemma own_entry_shared:
  assumes "tracker_wf t" "own_entry t ip r" "own_entry t ip' r" "ip \<noteq> ip'"
  shows "100000 \<le> length (tr_clients t) \<and> map_of (tr_clients t) ip = None \<and> map_of (tr_clients t) ip' = None \<and> same_network ip ip'"
proof -
  have d: "distinct (map snd (tr_clients t))" "distinct (map snd (tr_overflow t))" "set (map snd (tr_clients t)) \<inter> set (map snd (tr_overflow t)) = {}"
    using assms(1) by (auto simp: tracker_wf_def entries_def)
  have no: "\<not> (map_of (tr_clients t) a = Some r \<and> map_of (tr_overflow t) p = Some r)" for a p
    using d(3) map_of_snd [of "tr_clients t" a r] map_of_snd [of "tr_overflow t" p r] by auto
  consider "map_of (tr_clients t) ip = Some r" "map_of (tr_clients t) ip' = Some r" |
    "map_of (tr_clients t) ip = None" "map_of (tr_clients t) ip' = None" "100000 \<le> length (tr_clients t)"
      "map_of (tr_overflow t) (overflowPrefix ip) = Some r" "map_of (tr_overflow t) (overflowPrefix ip') = Some r"
    using assms(2,3) no by (auto simp: own_entry_def)
  then show ?thesis
  proof cases
    case 1
    then show ?thesis using map_of_distinct_snd [OF d(1)] assms(4) by blast
  next
    case 2
    then show ?thesis using map_of_distinct_snd [OF d(2) 2(4,5)] by (simp add: overflowPrefix_eq)
  qed
qed

lemma Acquire_within:
  assumes "limits_inv (t, fs)" "Acquire t ip lims maxTotal now = (res, t')"
  shows "case res of
      Inr f \<Rightarrow> (maxTotal > 0 \<longrightarrow> open_total (fs @ [f]) \<le> maxTotal) \<and>
        (MaxConnections lims > 0 \<longrightarrow> open_on (rel_client f) (fs @ [f]) \<le> MaxConnections lims)
    | Inl e \<Rightarrow> tr_total t' = tr_total t \<and>
        (e = ErrTotalConnections \<and> maxTotal > 0 \<and> maxTotal \<le> open_total fs \<or>
         e = ErrClientConnections \<and> MaxConnections lims > 0 \<and>
           (\<exists>r \<in> set (entries t'). MaxConnections lims \<le> open_on r fs))"
proof (cases "maxTotal > 0 \<and> tr_total t \<ge> maxTotal")
  case True
  moreover have "tr_total t = open_total fs" using assms(1) by (simp add: limits_inv_def)
  ultimately show ?thesis using assms(2) by (auto simp: Acquire_def)
next
  case False
  obtain r t1 where g: "tr_get t ip now = (r, t1)" by fastforce
  note gi = tr_get_inv [OF g assms(1)]
  have tot: "tr_total t = open_total fs" "tr_total t1 = open_total fs" using assms(1) gi(1) by (simp_all add: limits_inv_def)
  have conns: "cl_conns (tr_store t1 ! r) = open_on r fs" using gi by (simp add: limits_inv_def)
  show ?thesis
    using assms(2) False g tot conns gi(2) by (auto simp: Acquire_def is_open_def split: if_splits)
qed

section \<open>The contract of connection slots\<close>

text \<open>
  What the listener relies on: connections take a slot or are refused, a slot is given back through
  the function handed out with it, and the total counts the slots not given back.
\<close>

locale connection_slots =
  fixes inv :: "'t \<Rightarrow> 'f list \<Rightarrow> bool" and acquire :: "'a \<Rightarrow> 't \<Rightarrow> 'f result \<times> 't"
    and give_back :: "time \<Rightarrow> 'f \<Rightarrow> 't \<Rightarrow> 'f \<times> 't" and is_free :: "'f \<Rightarrow> bool" and total :: "'t \<Rightarrow> int"
  assumes acquired: "inv t fs \<Longrightarrow> acquire a t = (Inr f, t') \<Longrightarrow> inv t' (fs @ [f]) \<and> \<not> is_free f"
    and refused: "inv t fs \<Longrightarrow> acquire a t = (Inl e, t') \<Longrightarrow> inv t' fs"
    and given_back: "inv t fs \<Longrightarrow> i < length fs \<Longrightarrow> give_back now (fs ! i) t = (f, t') \<Longrightarrow> inv t' (fs[i := f]) \<and> is_free f"
    and total: "inv t fs \<Longrightarrow> total t = int (length (filter (\<lambda>f. \<not> is_free f) fs))"
begin

lemma acquire_total:
  assumes "inv t fs" "acquire a t = (res, t')"
  shows "total t' = total t + (case res of Inl _ \<Rightarrow> 0 | Inr _ \<Rightarrow> 1)"
proof (cases res)
  case (Inl e)
  then have "inv t' fs" using refused assms by blast
  then show ?thesis using total [of t' fs] total [OF assms(1)] Inl by simp
next
  case (Inr f)
  then have "inv t' (fs @ [f])" "\<not> is_free f" using acquired assms by blast+
  then show ?thesis using total [of t' "fs @ [f]"] total [OF assms(1)] Inr by simp
qed

lemma give_back_total:
  assumes "inv t fs" "i < length fs" "give_back now (fs ! i) t = (f, t')"
  shows "total t' = total t - (if is_free (fs ! i) then 0 else 1)"
  using given_back [OF assms] total [OF assms(1)] total [of t' "fs[i := f]"] filter_update [OF assms(2), of "\<lambda>f. \<not> is_free f" f] by simp

lemma give_back_twice:
  assumes "inv t fs" "i < length fs" "give_back now (fs ! i) t = (f, t')" "give_back now' f t' = (g, t'')"
  shows "total t'' = total t'"
proof -
  have "inv t' (fs[i := f])" "is_free f" using given_back [OF assms(1-3)] by simp_all
  then show ?thesis using give_back_total [of t' "fs[i := f]" i now' g t''] assms(2,4) by simp
qed

end

interpretation tracker_slots: connection_slots "\<lambda>t fs. limits_inv (t, fs)"
  "\<lambda>(ip, lims, maxTotal, now) t. Acquire t ip lims maxTotal now" "\<lambda>now f t. release f now t" rel_done tr_total
proof unfold_locales
  show "limits_inv (t', fs @ [f]) \<and> \<not> rel_done f"
    if "limits_inv (t, fs)" "(\<lambda>(ip, lims, maxTotal, now) t. Acquire t ip lims maxTotal now) a t = (Inr f, t')" for t fs a f t'
    using that Acquire_inv by (fastforce simp: Acquire_def split: prod.splits if_splits)
  show "limits_inv (t', fs)"
    if "limits_inv (t, fs)" "(\<lambda>(ip, lims, maxTotal, now) t. Acquire t ip lims maxTotal now) a t = (Inl e, t')" for t fs a e t'
    using that Acquire_inv by (fastforce split: prod.splits)
  show "limits_inv (t', fs[i := f]) \<and> rel_done f"
    if "limits_inv (t, fs)" "i < length fs" "release (fs ! i) now t = (f, t')" for t fs i now f t'
    using that release_inv by (auto simp: release_def split: if_splits)
  show "tr_total t = int (length (filter (\<lambda>f. \<not> rel_done f) fs))" if "limits_inv (t, fs)" for t fs
    using that by (simp add: limits_inv_def open_total_def)
qed

section \<open>Properties of the tracker\<close>

text \<open>
  C7.  The connection counts are exact in every reachable state, under any interleaving of
  operations: the total is the number of connections acquired and not yet released, each entry
  counts exactly its own open connections, an entry with open connections is never forgotten,
  at most 100000 addresses are tracked one by one, and no entry keeps more than 16 keys.
\<close>

theorem limits_counts_exact:
  assumes "limits_reachable (t, fs)"
  shows "tr_total t = open_total fs \<and> Tracked t \<le> 100000 \<and>
    (\<forall>r < length (tr_store t). cl_conns (tr_store t ! r) = open_on r fs \<and>
       (open_on r fs > 0 \<longrightarrow> r \<in> set (entries t)) \<and> length (cl_suppressed (tr_store t ! r)) \<le> 16)"
proof -
  have inv: "limits_inv (t, fs)" using limits_reachable_inv [OF assms] .
  have "client_wf (tr_store t ! r)" if "r < length (tr_store t)" for r using inv_entry_wf [OF inv that] .
  then show ?thesis using inv
    by (auto simp: limits_inv_def tracker_wf_def Tracked_def maxClients_def client_wf_def maxSuppressedKeys_def)
qed

definition demo_limits :: Client where
  "demo_limits = \<lparr>MaxConnections = 1, RequestsPerSecond = FFin 0, RequestBurst = 0, TunnelIdleTimeout = 0\<rparr>"

lemma demo_acquire:
  "Acquire NewTracker (Addr4 1) demo_limits 5 7 =
     (Inr \<lparr>rel_client = 0, rel_done = False\<rparr>,
      \<lparr>tr_store = [client_zero\<lparr>cl_conns := 1, cl_seen := 7\<rparr>], tr_clients = [(Addr4 1, 0)], tr_overflow = [],
       tr_unknown = client_zero, tr_total = 1\<rparr>)"
  by (simp add: Acquire_def NewTracker_def tr_get_def tr_find_def new_client_def update_client_def maxClients_def
      demo_limits_def client_zero_def)

definition demo_tracker :: Tracker where
  "demo_tracker = snd (Acquire NewTracker (Addr4 1) demo_limits 5 7)"

lemma demo_limits_reachable: "limits_reachable (demo_tracker, [\<lparr>rel_client = 0, rel_done = False\<rparr>])"
proof -
  have "limits_step (NewTracker, []) (demo_tracker, [] @ [\<lparr>rel_client = 0, rel_done = False\<rparr>])"
    by (rule limits_step.acquired [where ip = "Addr4 1" and lims = demo_limits and maxTotal = 5 and now = 7])
      (simp add: demo_tracker_def demo_acquire)
  then show ?thesis by (simp add: limits_reachable_def r_into_rtranclp)
qed

theorem limits_counts_exact_witness: "tr_total demo_tracker = 1 \<and> Tracked demo_tracker \<le> 100000"
  using limits_counts_exact [OF demo_limits_reachable] by (simp add: open_total_def)

text \<open>
  C30.  Admission respects both limits.  When a connection is admitted it counts in the entry of its own address, the number of open
  connections does not exceed the total limit nor, on this entry, the client limit (zero turns a limit off); a
  refusal names the limit that is reached, in all or on the entry of this address, and changes no count.  The entry of an address
  counts no other address, unless 100000 addresses are tracked one by one and neither is among them: then both are of the
  same network, 24 bits of an IPv4 and 64 bits of an IPv6 address.
\<close>

theorem Acquire_respects_limits:
  assumes "limits_reachable (t, fs)" "Acquire t ip lims maxTotal now = (res, t')"
  shows "(case res of
      Inr f \<Rightarrow> own_entry t' ip (rel_client f) \<and> (maxTotal > 0 \<longrightarrow> open_total (fs @ [f]) \<le> maxTotal) \<and>
        (MaxConnections lims > 0 \<longrightarrow> open_on (rel_client f) (fs @ [f]) \<le> MaxConnections lims)
    | Inl e \<Rightarrow> tr_total t' = open_total fs \<and> (\<forall>r < length (tr_store t'). cl_conns (tr_store t' ! r) = open_on r fs) \<and>
        (e = ErrTotalConnections \<and> maxTotal > 0 \<and> maxTotal \<le> open_total fs \<or>
         e = ErrClientConnections \<and> MaxConnections lims > 0 \<and>
           (\<exists>r. own_entry t' ip r \<and> MaxConnections lims \<le> open_on r fs))) \<and>
    (\<forall>ip1 ip2 r. own_entry t' ip1 r \<and> own_entry t' ip2 r \<and> ip1 \<noteq> ip2 \<longrightarrow>
       100000 \<le> length (tr_clients t') \<and> map_of (tr_clients t') ip1 = None \<and> same_network ip1 ip2)"
proof -
  have inv: "limits_inv (t, fs)" by (rule limits_reachable_inv [OF assms(1)])
  have inv': "limits_inv (t', case res of Inl _ \<Rightarrow> fs | Inr f \<Rightarrow> fs @ [f])"
    using Acquire_inv [OF assms(2) inv] by (cases res) auto
  then have "tracker_wf t'" by (simp add: limits_inv_def)
  then have shared: "\<forall>ip1 ip2 r. own_entry t' ip1 r \<and> own_entry t' ip2 r \<and> ip1 \<noteq> ip2 \<longrightarrow>
      100000 \<le> length (tr_clients t') \<and> map_of (tr_clients t') ip1 = None \<and> same_network ip1 ip2"
    using own_entry_shared by blast
  show ?thesis
  proof (cases res)
    case (Inr f)
    then show ?thesis using Acquire_own assms(2) Acquire_within [OF inv assms(2)] shared by simp
  next
    case (Inl e)
    then have "tr_total t' = open_total fs \<and> (\<forall>r < length (tr_store t'). cl_conns (tr_store t' ! r) = open_on r fs)"
      using inv' by (simp add: limits_inv_def)
    then show ?thesis using Acquire_refused [OF inv assms(2) [unfolded Inl]] shared Inl by simp
  qed
qed

theorem Acquire_respects_limits_witness:
  "case fst (Acquire demo_tracker (Addr4 1) demo_limits 5 9) of
     Inr f \<Rightarrow> False | Inl e \<Rightarrow> e = ErrClientConnections"
proof -
  have t: "demo_tracker = \<lparr>tr_store = [client_zero\<lparr>cl_conns := 1, cl_seen := 7\<rparr>], tr_clients = [(Addr4 1, 0)],
      tr_overflow = [], tr_unknown = client_zero, tr_total = 1\<rparr>"
    unfolding demo_tracker_def demo_acquire by simp
  obtain t' where a: "Acquire demo_tracker (Addr4 1) demo_limits 5 9 = (Inl ErrClientConnections, t')"
    unfolding t by (simp add: Acquire_def tr_get_def tr_find_def update_client_def demo_limits_def)
  from Acquire_respects_limits [OF demo_limits_reachable a] a show ?thesis by simp
qed

text \<open>
  A connection gives its slot back exactly once: running its release function frees one
  connection of the total and of its own entry and of no other, running it again changes
  nothing, whatever the state of the tracker is by then.
\<close>

theorem release_once:
  assumes "limits_reachable (t, fs)" "i < length fs" "release (fs ! i) now t = (f, t')"
  shows "rel_done f \<and> release f now' t'' = (f, t'') \<and>
    tr_total t' = tr_total t - (if rel_done (fs ! i) then 0 else 1) \<and> tr_total t' = open_total (fs[i := f]) \<and>
    (\<forall>r < length (tr_store t). cl_conns (tr_store t' ! r) =
       cl_conns (tr_store t ! r) - (if \<not> rel_done (fs ! i) \<and> r = rel_client (fs ! i) then 1 else 0))"
proof -
  have inv: "limits_inv (t', fs[i := f])" using release_inv [OF assms(2,3) limits_reachable_inv [OF assms(1)]] .
  have "rel_client (fs ! i) < length (tr_store t)" using limits_reachable_inv [OF assms(1)] assms(2) by (simp add: limits_inv_def)
  moreover have "rel_done f" using assms(3) by (auto simp: release_def split: if_splits)
  ultimately show ?thesis using inv assms(3)
    by (auto simp: release_def update_client_def limits_inv_def nth_list_update split: if_splits)
qed

text \<open>
  No suppressed log line is lost or reported twice: a line that may not be written now adds
  exactly one to the pending count, a line that is written adds nothing, and a sweep reports
  exactly the pending count and leaves none.
\<close>

theorem suppressed_lines_conserved:
  assumes "limits_reachable (t, fs)"
  shows "(Log t ip action host now = (ok, t1) \<longrightarrow> pending t1 = pending t + (if ok then 0 else 1)) \<and>
    (LogUnknown t ip now = (ok, t2) \<longrightarrow> pending t2 = pending t + (if ok then 0 else 1)) \<and>
    (Sweep t now = (out, t3) \<longrightarrow> summarized out = pending t \<and> pending t3 = 0)"
  using limits_reachable_inv [OF assms] Log_pending LogUnknown_pending Sweep_pending
  by (auto simp: limits_inv_def)

end
