(* ===== verification/Config.thy ===== *)
theory Config
  imports Policy Client_Limits
begin

text \<open>
  \<^verbatim>\<open>internal/config/config.go\<close>: the configuration file, its validation and the limits of a
  subnet.

  The YAML decoder and zerolog's level parser are not part of the sources.  The decoder is a
  parameter that gets the two \<^verbatim>\<open>UnmarshalYAML\<close> methods it calls back and returns what the
  first and the second call of \<^verbatim>\<open>Decode\<close> give; a YAML node is what these methods read of it.
\<close>

section \<open>The file\<close>

datatype yaml_kind = DocumentNode | SequenceNode | MappingNode | ScalarNode | AliasNode

datatype yaml_node =
  Node (node_Kind: yaml_kind) (node_Line: int) (node_ShortTag: string) (node_Value: string)
    (node_Content: "yaml_node list") (node_Alias: "yaml_node option")

text \<open>The target of an alias; following an alias that has none is a nil dereference.\<close>

definition resolve_alias :: "yaml_node \<Rightarrow> yaml_node result" where
  "resolve_alias c =
     (if node_Kind c = AliasNode
      then (case node_Alias c of None \<Rightarrow> Inl (ErrNew ''panic: nil pointer dereference'') | Some a \<Rightarrow> Inr a)
      else Inr c)"

definition list_entry :: "yaml_node \<Rightarrow> string result" where
  "list_entry c0 =
     rbind (resolve_alias c0) (\<lambda>c.
       if node_Kind c \<noteq> ScalarNode \<or> node_ShortTag c = ''!!null''
       then Inl (ErrFmt ''line %d: list entries must be plain non-empty values'' [itoa (nat (node_Line c))])
       else Inr (node_Value c))"

definition list_UnmarshalYAML :: "yaml_node \<Rightarrow> string list result" where
  "list_UnmarshalYAML n =
     (if node_Kind n \<noteq> SequenceNode then Inl (ErrFmt ''line %d: expected a list'' [itoa (nat (node_Line n))])
      else mapM list_entry (node_Content n))"

definition duration_UnmarshalYAML :: "yaml_node \<Rightarrow> duration result" where
  "duration_UnmarshalYAML n =
     (case ParseDuration (node_Value n) of
        Inl _ \<Rightarrow> Inl (ErrFmt ''line %d: expected a duration such as 30s, 10m or 1h'' [itoa (nat (node_Line n))])
      | Inr v \<Rightarrow>
          if node_Kind n \<noteq> ScalarNode then Inl (ErrFmt ''line %d: expected a duration such as 30s, 10m or 1h'' [itoa (nat (node_Line n))])
          else Inr v)"

text \<open>Fields that are pointers in the source are options.\<close>

record fileClientLimits =
  fcl_ClientConnections :: "int option"
  fcl_RequestsPerSecond :: "float64 option"
  fcl_RequestBurst :: "int option"
  fcl_TunnelIdleTimeout :: "duration option"

record fileLimits =
  fl_TotalConnections :: "int option"
  fl_client :: fileClientLimits

record fileSubnet =
  fs_Name :: string
  fs_CIDRs :: "string list"
  fs_Ports :: "string list"
  fs_Allow :: "string list"
  fs_Deny :: "string list"
  fs_Limits :: fileClientLimits

record config_file =
  f_LogLevel :: string
  f_Limits :: fileLimits
  f_Subnets :: "fileSubnet list"

section \<open>Limits\<close>

definition DefaultTotalConnections :: int where
  "DefaultTotalConnections = 20000"

definition DefaultClientLimits :: Client where
  "DefaultClientLimits =
     \<lparr>MaxConnections = 512, RequestsPerSecond = FFin 200, RequestBurst = 1000, TunnelIdleTimeout = 3600 * 10 ^ 9\<rparr>"

definition set_if :: "'a option \<Rightarrow> 'a \<Rightarrow> 'a" where
  "set_if o_v d = (case o_v of None \<Rightarrow> d | Some v \<Rightarrow> v)"

definition fileClientLimits_apply :: "fileClientLimits \<Rightarrow> Client \<Rightarrow> Client result" where
  "fileClientLimits_apply f base =
     (let l = \<lparr>MaxConnections = set_if (fcl_ClientConnections f) (MaxConnections base),
               RequestsPerSecond = set_if (fcl_RequestsPerSecond f) (RequestsPerSecond base),
               RequestBurst = set_if (fcl_RequestBurst f) (RequestBurst base),
               TunnelIdleTimeout = set_if (fcl_TunnelIdleTimeout f) (TunnelIdleTimeout base)\<rparr>
      in
      if float_IsNaN (RequestsPerSecond l) \<or> float_IsInf (RequestsPerSecond l)
      then Inl (ErrNew ''client_requests_per_second must be a finite number'')
      else if MaxConnections l < 0 \<or> float_less (RequestsPerSecond l) (FFin 0) \<or> RequestBurst l < 0 \<or> TunnelIdleTimeout l < 0
      then Inl (ErrNew ''values must not be negative'')
      else if float_less (FFin 0) (RequestsPerSecond l) \<and> RequestBurst l < 1
      then Inl (ErrNew ''client_request_burst must be at least 1 when client_requests_per_second is set'')
      else Inr l)"

section \<open>The configuration\<close>

text \<open>The limits of the compiled subnets are keyed by subnet pointer, here the subnet's position.\<close>

record 'lvl Config =
  c_LogLevel :: 'lvl
  c_Policy :: Policy
  c_TotalConnections :: int
  c_clientLimits :: Client
  c_subnetLimits :: "(subnet_ptr \<times> Client) list"

definition ClientLimits :: "'lvl Config \<Rightarrow> subnet_ptr option \<Rightarrow> Client" where
  "ClientLimits c subnet =
     (case Option.bind subnet (map_of (c_subnetLimits c)) of Some l \<Rightarrow> l | None \<Rightarrow> c_clientLimits c)"

text \<open>What a call of \<^verbatim>\<open>Decode\<close> gives: the end of the input, another error, or a value.\<close>

datatype 'a decoded = DecEOF | DecErr error | DecOk 'a

type_synonym yaml_decoder =
  "(yaml_node \<Rightarrow> string list result) \<Rightarrow> (yaml_node \<Rightarrow> duration result) \<Rightarrow> string \<Rightarrow> config_file decoded \<times> unit decoded"

text \<open>zerolog's level parser with the level the configuration starts from.\<close>

record 'lvl log_levels =
  InfoLevel :: 'lvl
  ParseLevel :: "string \<Rightarrow> 'lvl result"

definition subnet_spec :: "fileSubnet \<Rightarrow> SubnetSpec" where
  "subnet_spec s = \<lparr>ss_Name = fs_Name s, ss_CIDRs = fs_CIDRs s, ss_Ports = fs_Ports s, ss_Allow = fs_Allow s, ss_Deny = fs_Deny s\<rparr>"

definition parse_level :: "'lvl log_levels \<Rightarrow> config_file \<Rightarrow> 'lvl result" where
  "parse_level zl f =
     (if f_LogLevel f \<noteq> [] then wrap_err (ErrWrap ''log_level: %w'' []) (ParseLevel zl (f_LogLevel f))
      else Inr (InfoLevel zl))"

definition parse_total :: "config_file \<Rightarrow> int result" where
  "parse_total f =
     (case fl_TotalConnections (f_Limits f) of
        None \<Rightarrow> Inr DefaultTotalConnections
      | Some n \<Rightarrow> if n < 0 then Inl (ErrNew ''limits: total_connections must not be negative'') else Inr n)"

text \<open>The loop that attaches limits to the compiled subnets.\<close>

definition parse_subnet_limits :: "config_file \<Rightarrow> Client \<Rightarrow> Policy \<Rightarrow> (subnet_ptr \<times> Client) list result" where
  "parse_subnet_limits f base p =
     mapM (\<lambda>(i, s). rbind (wrap_err (ErrWrap ''subnet %q: limits: %w'' [sn_name s])
                       (fileClientLimits_apply (fs_Limits (f_Subnets f ! i)) base)) (\<lambda>l. Inr (i, l)))
       (enumerate 0 (p_subnets p))"

definition Config_of_file :: "re_engine \<Rightarrow> 'lvl log_levels \<Rightarrow> config_file \<Rightarrow> 'lvl Config result" where
  "Config_of_file re zl f =
     rbind (parse_level zl f) (\<lambda>lvl.
     rbind (parse_total f) (\<lambda>total.
     rbind (wrap_err (ErrWrap ''limits: %w'' []) (fileClientLimits_apply (fl_client (f_Limits f)) DefaultClientLimits)) (\<lambda>lims.
     rbind (Policy_New re (map subnet_spec (f_Subnets f))) (\<lambda>p.
     rbind (parse_subnet_limits f lims p) (\<lambda>subs.
       Inr \<lparr>c_LogLevel = lvl, c_Policy = p, c_TotalConnections = total, c_clientLimits = lims, c_subnetLimits = subs\<rparr>)))))"

definition Config_Parse :: "re_engine \<Rightarrow> 'lvl log_levels \<Rightarrow> yaml_decoder \<Rightarrow> string \<Rightarrow> 'lvl Config result" where
  "Config_Parse re zl yaml data =
     (case yaml list_UnmarshalYAML duration_UnmarshalYAML data of (first, second) \<Rightarrow>
        (case first of
           DecEOF \<Rightarrow> Inl (ErrNew ''config is empty'')
         | DecErr e \<Rightarrow> Inl e
         | DecOk f \<Rightarrow>
             if second \<noteq> DecEOF then Inl (ErrNew ''config must be a single YAML document'')
             else Config_of_file re zl f))"

text \<open>\<^verbatim>\<open>Load\<close>: the argument is what \<^verbatim>\<open>os.ReadFile\<close> gives.\<close>

definition Config_Load :: "re_engine \<Rightarrow> 'lvl log_levels \<Rightarrow> yaml_decoder \<Rightarrow> string result \<Rightarrow> 'lvl Config result" where
  "Config_Load re zl yaml contents = rbind contents (Config_Parse re zl yaml)"

section \<open>Validated limits\<close>

definition limits_ok :: "Client \<Rightarrow> bool" where
  "limits_ok l \<longleftrightarrow> (\<exists>r. RequestsPerSecond l = FFin r \<and> 0 \<le> r \<and> (0 < r \<longrightarrow> 1 \<le> RequestBurst l)) \<and>
     0 \<le> MaxConnections l \<and> 0 \<le> RequestBurst l \<and> 0 \<le> TunnelIdleTimeout l"

lemma apply_Inr:
  assumes "fileClientLimits_apply f base = Inr l"
  shows "limits_ok l" "MaxConnections l = set_if (fcl_ClientConnections f) (MaxConnections base)"
    "RequestsPerSecond l = set_if (fcl_RequestsPerSecond f) (RequestsPerSecond base)"
    "RequestBurst l = set_if (fcl_RequestBurst f) (RequestBurst base)"
    "TunnelIdleTimeout l = set_if (fcl_TunnelIdleTimeout f) (TunnelIdleTimeout base)"
proof -
  show "limits_ok l"
  proof (cases "RequestsPerSecond l")
    case (FFin r)
    then show ?thesis using assms by (auto simp: fileClientLimits_apply_def limits_ok_def Let_def split: if_splits)
  qed (use assms in \<open>auto simp: fileClientLimits_apply_def Let_def split: if_splits\<close>)
qed (use assms in \<open>auto simp: fileClientLimits_apply_def Let_def split: if_splits\<close>)

lemma parse_subnet_limits_Inr:
  assumes "parse_subnet_limits f base p = Inr subs" "i < length (p_subnets p)"
  shows "\<exists>l. map_of subs i = Some l \<and> fileClientLimits_apply (fs_Limits (f_Subnets f ! i)) base = Inr l"
proof -
  have l2: "list_all2 (\<lambda>x y. rbind (wrap_err (ErrWrap ''subnet %q: limits: %w'' [sn_name (snd x)])
      (fileClientLimits_apply (fs_Limits (f_Subnets f ! fst x)) base)) (\<lambda>l. Inr (fst x, l)) = Inr y)
      (enumerate 0 (p_subnets p)) subs"
    using assms(1) unfolding parse_subnet_limits_def mapM_Inr_iff by (simp add: case_prod_unfold)
  have each: "\<exists>l. subs ! j = (j, l) \<and> fileClientLimits_apply (fs_Limits (f_Subnets f ! j)) base = Inr l"
    if "j < length (p_subnets p)" for j
    using l2 that by (auto simp: list_all2_conv_all_nth rbind_Inr_iff nth_enumerate_eq)
  have len: "length subs = length (p_subnets p)" using l2 by (auto dest: list_all2_lengthD)
  have keys: "map fst subs = [0..<length subs]"
    using each len by (intro nth_equalityI) (auto, metis fst_conv)
  obtain l where l: "subs ! i = (i, l)" "fileClientLimits_apply (fs_Limits (f_Subnets f ! i)) base = Inr l"
    using each [OF assms(2)] by blast
  have "distinct (map fst subs)" unfolding keys by simp
  moreover have "(i, l) \<in> set subs" using l(1) assms(2) len by (metis nth_mem)
  ultimately have "map_of subs i = Some l" by (rule map_of_is_SomeI)
  with l show ?thesis by blast
qed

lemma Config_of_file_Inr:
  assumes "Config_of_file re zl f = Inr c"
  shows "parse_level zl f = Inr (c_LogLevel c)" "parse_total f = Inr (c_TotalConnections c)"
    "fileClientLimits_apply (fl_client (f_Limits f)) DefaultClientLimits = Inr (c_clientLimits c)"
    "Policy_New re (map subnet_spec (f_Subnets f)) = Inr (c_Policy c)"
    "parse_subnet_limits f (c_clientLimits c) (c_Policy c) = Inr (c_subnetLimits c)"
  using assms by (auto simp: Config_of_file_def rbind_Inr_iff)

lemma Config_Parse_Inr:
  assumes "Config_Parse re zl yaml data = Inr c"
  obtains f where "yaml list_UnmarshalYAML duration_UnmarshalYAML data = (DecOk f, DecEOF)" "Config_of_file re zl f = Inr c"
  using assms by (auto simp: Config_Parse_def split: prod.splits decoded.splits if_splits)

text \<open>The limits in force for a client are validated, in a subnet or outside of all of them.\<close>

lemma ClientLimits_ok:
  assumes "Config_of_file re zl f = Inr c" "\<And>i. subnet = Some i \<Longrightarrow> i < length (p_subnets (c_Policy c))"
  shows "limits_ok (ClientLimits c subnet)"
proof (cases subnet)
  case None
  then show ?thesis using apply_Inr(1) [OF Config_of_file_Inr(3) [OF assms(1)]] by (simp add: ClientLimits_def)
next
  case (Some i)
  then have "i < length (p_subnets (c_Policy c))" using assms(2) by blast
  from parse_subnet_limits_Inr [OF Config_of_file_Inr(5) [OF assms(1)] this] Some
  show ?thesis using apply_Inr(1) by (auto simp: ClientLimits_def)
qed

text \<open>A setting: the subnet's own, else the top-level one, else the default.\<close>

fun setting :: "'a option \<Rightarrow> 'a option \<Rightarrow> 'a \<Rightarrow> 'a" where
  "setting (Some v) _ _ = v"
| "setting None (Some v) _ = v"
| "setting None None v = v"

definition settled :: "fileClientLimits \<Rightarrow> fileClientLimits \<Rightarrow> Client \<Rightarrow> bool" where
  "settled own common l \<longleftrightarrow>
     MaxConnections l = setting (fcl_ClientConnections own) (fcl_ClientConnections common) 512 \<and>
     RequestsPerSecond l = setting (fcl_RequestsPerSecond own) (fcl_RequestsPerSecond common) (FFin 200) \<and>
     RequestBurst l = setting (fcl_RequestBurst own) (fcl_RequestBurst common) 1000 \<and>
     TunnelIdleTimeout l = setting (fcl_TunnelIdleTimeout own) (fcl_TunnelIdleTimeout common) (3600 * 10 ^ 9)"

definition no_limits :: fileClientLimits where
  "no_limits = \<lparr>fcl_ClientConnections = None, fcl_RequestsPerSecond = None, fcl_RequestBurst = None, fcl_TunnelIdleTimeout = None\<rparr>"

lemma set_if_setting: "set_if a (set_if b d) = setting a b d" "set_if b d = setting None b d"
  by (cases a; cases b; simp add: set_if_def)+

lemma apply_settled:
  assumes "fileClientLimits_apply common DefaultClientLimits = Inr base" "fileClientLimits_apply own base = Inr l"
  shows "settled own common l"
  using apply_Inr(2-5) [OF assms(1)] apply_Inr(2-5) [OF assms(2)]
  by (simp add: settled_def set_if_setting(1) DefaultClientLimits_def)

lemma apply_top: "fileClientLimits_apply common DefaultClientLimits = Inr base \<Longrightarrow> settled no_limits common base"
  using apply_Inr(2-5) [of common DefaultClientLimits base]
  by (simp add: settled_def no_limits_def DefaultClientLimits_def set_if_setting(2))

section \<open>Lists\<close>

text \<open>
  The entry of a list that a node stands for: a scalar that is not null, or an alias of one.
\<close>

inductive entry_value :: "yaml_node \<Rightarrow> string \<Rightarrow> bool" where
  scalar: "tag \<noteq> ''!!null'' \<Longrightarrow> entry_value (Node ScalarNode line tag v content al) v"
| aliased: "tag \<noteq> ''!!null'' \<Longrightarrow> entry_value (Node AliasNode line' tag' v' content' (Some (Node ScalarNode line tag v content al))) v"

lemma list_entry_value: "list_entry c = Inr x \<longleftrightarrow> entry_value c x"
proof (cases c)
  case (Node kind line tag v content al)
  then show ?thesis by (cases kind; cases al)
      (auto simp: list_entry_def resolve_alias_def entry_value.simps rbind_Inr_iff, metis yaml_node.collapse)
qed

text \<open>
  A YAML list is taken over entry by entry: it is accepted exactly when it is a sequence whose
  entries are scalars other than null or aliases of such, and then no entry is dropped.
\<close>

lemma list_UnmarshalYAML_exact:
  "list_UnmarshalYAML n = Inr xs \<longleftrightarrow> node_Kind n = SequenceNode \<and> list_all2 entry_value (node_Content n) xs"
  by (auto simp: list_UnmarshalYAML_def mapM_Inr_iff list_entry_value)

section \<open>Properties\<close>

text \<open>
  C32.  An accepted configuration file is one YAML document that compiles to a well-formed policy
  with one subnet per entry of the file, under the name the entry gives; the total is the one of the file, 20000 without one, and
  not negative; every limit of a subnet is the subnet's own setting, else the top-level one, else the default (512 connections,
  200 requests a second, bursts of 1000, an hour), outside of all subnets the top-level one, else the default;
  and the limits in force are finite, not negative, and have a burst of at least one where a rate is set.
\<close>

theorem Config_Parse_sound:
  assumes "Config_Parse re zl yaml data = Inr c"
  shows "\<exists>f. yaml list_UnmarshalYAML duration_UnmarshalYAML data = (DecOk f, DecEOF) \<and>
    policy_wf (c_Policy c) \<and> length (p_subnets (c_Policy c)) = length (f_Subnets f) \<and>
    c_TotalConnections c = (case fl_TotalConnections (f_Limits f) of None \<Rightarrow> 20000 | Some n \<Rightarrow> n) \<and> 0 \<le> c_TotalConnections c \<and>
    settled no_limits (fl_client (f_Limits f)) (ClientLimits c None) \<and> limits_ok (ClientLimits c None) \<and>
    (\<forall>i < length (f_Subnets f).
       (fs_Name (f_Subnets f ! i) \<noteq> [] \<longrightarrow> sn_name (p_subnets (c_Policy c) ! i) = fs_Name (f_Subnets f ! i)) \<and>
       settled (fs_Limits (f_Subnets f ! i)) (fl_client (f_Limits f)) (ClientLimits c (Some i)) \<and> limits_ok (ClientLimits c (Some i)))"
proof -
  obtain f where f: "yaml list_UnmarshalYAML duration_UnmarshalYAML data = (DecOk f, DecEOF)" "Config_of_file re zl f = Inr c"
    using assms by (rule Config_Parse_Inr)
  note c = Config_of_file_Inr [OF f(2)]
  have len: "length (p_subnets (c_Policy c)) = length (f_Subnets f)"
    using Policy_New_Inr(2) [OF c(4)] by (auto dest: list_all2_lengthD)
  have "settled (fs_Limits (f_Subnets f ! i)) (fl_client (f_Limits f)) (ClientLimits c (Some i)) \<and> limits_ok (ClientLimits c (Some i))"
    if i: "i < length (f_Subnets f)" for i
  proof -
    have "fileClientLimits_apply (fs_Limits (f_Subnets f ! i)) (c_clientLimits c) = Inr (ClientLimits c (Some i))"
      using parse_subnet_limits_Inr [OF c(5), of i] i len by (auto simp: ClientLimits_def)
    then show ?thesis using apply_settled [OF c(3)] apply_Inr(1) by blast
  qed
  moreover have "sn_name (p_subnets (c_Policy c) ! i) = fs_Name (f_Subnets f ! i)"
    if "i < length (f_Subnets f)" "fs_Name (f_Subnets f ! i) \<noteq> []" for i
  proof -
    have "compileSubnet re ((subnet_spec (f_Subnets f ! i))\<lparr>ss_Name := fs_Name (f_Subnets f ! i)\<rparr>) = Inr (p_subnets (c_Policy c) ! i)"
      using Policy_New_subnet [OF c(4), of i] that len by (simp add: default_name_def subnet_spec_def)
    from compileSubnet_Inr(1) [OF this] show ?thesis by simp
  qed
  moreover have "c_TotalConnections c = (case fl_TotalConnections (f_Limits f) of None \<Rightarrow> 20000 | Some n \<Rightarrow> n) \<and> 0 \<le> c_TotalConnections c"
    using c(2) by (auto simp: parse_total_def DefaultTotalConnections_def split: option.splits if_splits)
  moreover have "ClientLimits c None = c_clientLimits c" by (simp add: ClientLimits_def)
  ultimately show ?thesis using f(1) Policy_New_wf [OF c(4)] len apply_top [OF c(3)] apply_Inr(1) [OF c(3)] by (intro exI [of _ f]) simp
qed

text \<open>A file with one subnet that lowers the connection limit, and a decoder that yields it.\<close>

definition demo_file :: config_file where
  "demo_file = \<lparr>f_LogLevel = [], f_Limits = \<lparr>fl_TotalConnections = Some 50, fl_client = no_limits\<rparr>,
     f_Subnets = [\<lparr>fs_Name = ''lan'', fs_CIDRs = [''192.168.1.0/24''], fs_Ports = [], fs_Allow = [''.example.com''],
       fs_Deny = [''10.0.0.0/8''], fs_Limits = no_limits\<lparr>fcl_ClientConnections := Some 8\<rparr>\<rparr>]\<rparr>"

definition demo_yaml :: yaml_decoder where
  "demo_yaml ul ud data = (DecOk demo_file, DecEOF)"

definition demo_levels :: "int log_levels" where
  "demo_levels = \<lparr>InfoLevel = 1, ParseLevel = (\<lambda>s. Inl (ErrNew ''unknown level''))\<rparr>"

definition demo_config :: "int Config" where
  "demo_config = \<lparr>c_LogLevel = 1, c_Policy = demo_policy, c_TotalConnections = 50,
     c_clientLimits = DefaultClientLimits, c_subnetLimits = [(0, DefaultClientLimits\<lparr>MaxConnections := 8\<rparr>)]\<rparr>"

lemma demo_config_parsed: "Config_Parse MustCompile demo_levels demo_yaml data = Inr demo_config"
proof -
  have specs: "map subnet_spec (f_Subnets demo_file) = demo_specs"
    by (simp add: demo_file_def subnet_spec_def demo_specs_def)
  have lims: "fileClientLimits_apply (fl_client (f_Limits demo_file)) DefaultClientLimits = Inr DefaultClientLimits"
    by (simp add: demo_file_def no_limits_def fileClientLimits_apply_def set_if_def DefaultClientLimits_def)
  have subs: "parse_subnet_limits demo_file DefaultClientLimits demo_policy = Inr [(0, DefaultClientLimits\<lparr>MaxConnections := 8\<rparr>)]"
    by (simp add: parse_subnet_limits_def demo_policy_def demo_file_def no_limits_def fileClientLimits_apply_def set_if_def
        DefaultClientLimits_def wrap_err_def)
  have "parse_level demo_levels demo_file = Inr 1" "parse_total demo_file = Inr 50"
    by (simp_all add: parse_level_def parse_total_def demo_levels_def demo_file_def)
  then show ?thesis using demo_policy_compiled lims subs
    by (simp add: Config_Parse_def demo_yaml_def Config_of_file_def specs demo_config_def wrap_err_def)
qed

theorem Config_Parse_sound_witness:
  "policy_wf (c_Policy demo_config) \<and> limits_ok (ClientLimits demo_config (Some 0)) \<and> MaxConnections (ClientLimits demo_config (Some 0)) = 8"
proof -
  obtain f where f: "demo_yaml list_UnmarshalYAML duration_UnmarshalYAML [] = (DecOk f, DecEOF)" "policy_wf (c_Policy demo_config)"
    "\<forall>i < length (f_Subnets f). limits_ok (ClientLimits demo_config (Some i))"
    using Config_Parse_sound [OF demo_config_parsed [of "[]"]] by blast
  then have "f = demo_file" by (simp add: demo_yaml_def)
  with f show ?thesis by (simp add: demo_file_def) (simp add: demo_config_def ClientLimits_def)
qed

text \<open>
  C33.  A duration in the file needs a unit: a text of digits other than \<^verbatim>\<open>0\<close> is always
  rejected, \<^verbatim>\<open>0\<close> is zero, and a decimal number of seconds, minutes or hours that fits is
  read back exactly, in nanoseconds.
\<close>

theorem duration_needs_unit:
  "(list_all is_digit s \<and> s \<noteq> ''0'' \<longrightarrow> (\<exists>e. duration_UnmarshalYAML (Node k line tag s content al) = Inl e)) \<and>
   duration_UnmarshalYAML (Node ScalarNode line tag ''0'' content al) = Inr 0 \<and>
   (n * 10 ^ 9 < 2 ^ 63 \<longrightarrow> duration_UnmarshalYAML (Node ScalarNode line tag (itoa n @ ''s'') content al) = Inr (int n * 10 ^ 9)) \<and>
   (n * (60 * 10 ^ 9) < 2 ^ 63 \<longrightarrow> duration_UnmarshalYAML (Node ScalarNode line tag (itoa n @ ''m'') content al) = Inr (int n * (60 * 10 ^ 9))) \<and>
   (n * (3600 * 10 ^ 9) < 2 ^ 63 \<longrightarrow> duration_UnmarshalYAML (Node ScalarNode line tag (itoa n @ ''h'') content al) = Inr (int n * (3600 * 10 ^ 9)))"
proof (intro conjI impI)
  show "\<exists>e. duration_UnmarshalYAML (Node k line tag s content al) = Inl e" if "list_all is_digit s \<and> s \<noteq> ''0''"
    using ParseDuration_bare [of s] that by (auto simp: duration_UnmarshalYAML_def)
  have m: "map_of unitMap ''s'' = Some (10 ^ 9)" "map_of unitMap ''m'' = Some (60 * 10 ^ 9)" "map_of unitMap ''h'' = Some (3600 * 10 ^ 9)"
    by (simp_all add: unitMap_def bytes_def)
  note digits = unit_end_def is_digit_def between_def
  show "duration_UnmarshalYAML (Node ScalarNode line tag (itoa n @ ''s'') content al) = Inr (int n * 10 ^ 9)" if "n * 10 ^ 9 < 2 ^ 63"
    using ParseDuration_unit [OF m(1), of n] that by (simp add: duration_UnmarshalYAML_def digits)
  show "duration_UnmarshalYAML (Node ScalarNode line tag (itoa n @ ''m'') content al) = Inr (int n * (60 * 10 ^ 9))" if "n * (60 * 10 ^ 9) < 2 ^ 63"
    using ParseDuration_unit [OF m(2), of n] that by (simp add: duration_UnmarshalYAML_def digits)
  show "duration_UnmarshalYAML (Node ScalarNode line tag (itoa n @ ''h'') content al) = Inr (int n * (3600 * 10 ^ 9))" if "n * (3600 * 10 ^ 9) < 2 ^ 63"
    using ParseDuration_unit [OF m(3), of n] that by (simp add: duration_UnmarshalYAML_def digits)
qed (simp add: duration_UnmarshalYAML_def ParseDuration_def)

theorem duration_needs_unit_witness:
  "\<exists>e. duration_UnmarshalYAML (Node ScalarNode 3 ''!!int'' ''90'' [] None) = Inl e"
  using duration_needs_unit [of "''90''" ScalarNode 3 "''!!int''" "[]" None 0] by (simp add: is_digit_def between_def)

end
