(* ===== verification/Store.thy ===== *)
theory Store
  imports Config
begin

text \<open>
  \<^verbatim>\<open>internal/config/store.go\<close>: the active configuration and its reloading.  Reading the file is
  an effect: every operation that loads takes what \<^verbatim>\<open>os.ReadFile\<close> gives at that moment.  The
  watch loop is a step relation, one step per case of its \<^verbatim>\<open>select\<close>.
\<close>

section \<open>File paths\<close>

text \<open>\<^verbatim>\<open>filepath.Clean\<close> and \<^verbatim>\<open>filepath.Abs\<close> on a system with \<^verbatim>\<open>/\<close> as separator.\<close>

fun clean_parts :: "bool \<Rightarrow> string list \<Rightarrow> string list \<Rightarrow> string list" where
  "clean_parts rooted st [] = rev st"
| "clean_parts rooted st (c # cs) =
     (if c = [] \<or> c = ''.'' then clean_parts rooted st cs
      else if c = ''..'' then
        (if st \<noteq> [] \<and> hd st \<noteq> ''..'' then clean_parts rooted (tl st) cs
         else if rooted then clean_parts rooted st cs
         else clean_parts rooted (c # st) cs)
      else clean_parts rooted (c # st) cs)"

definition Clean :: "string \<Rightarrow> string" where
  "Clean p =
     (let rooted = HasPrefix p ''/'';
          s = Join ''/'' (clean_parts rooted [] (Split CHR ''/'' p))
      in if rooted then CHR ''/'' # s else if s = [] then ''.'' else s)"

text \<open>The first argument is what \<^verbatim>\<open>os.Getwd\<close> gives.\<close>

definition Abs :: "string result \<Rightarrow> string \<Rightarrow> string result" where
  "Abs cwd p = (if HasPrefix p ''/'' then Inr (Clean p) else rbind cwd (\<lambda>wd. Inr (Clean (wd @ ''/'' @ p))))"

section \<open>The store\<close>

text \<open>
  \<open>st_applied\<close> lists the configurations the callback \<^verbatim>\<open>apply\<close> was called with, in order;
  \<open>st_apply\<close> says whether there is a callback.
\<close>

record 'lvl Store =
  st_path :: string
  st_apply :: bool
  st_cur :: "'lvl Config option"
  st_applied :: "'lvl Config list"

type_synonym 'lvl loader = "string result \<Rightarrow> 'lvl Config result"

definition Reload :: "'lvl loader \<Rightarrow> string result \<Rightarrow> 'lvl Store \<Rightarrow> error option \<times> 'lvl Store" where
  "Reload load contents s =
     (case load contents of
        Inl e \<Rightarrow> (Some e, s)
      | Inr cfg \<Rightarrow>
          (None, s\<lparr>st_cur := Some cfg, st_applied := (if st_apply s then st_applied s @ [cfg] else st_applied s)\<rparr>))"

definition NewStore :: "'lvl loader \<Rightarrow> string result \<Rightarrow> string \<Rightarrow> bool \<Rightarrow> string result \<Rightarrow> error option \<times> 'lvl Store option" where
  "NewStore load cwd path hasApply contents =
     (case Abs cwd path of
        Inl e \<Rightarrow> (Some e, None)
      | Inr p \<Rightarrow>
          (case Reload load contents \<lparr>st_path = p, st_apply = hasApply, st_cur = None, st_applied = []\<rparr> of
             (err, s) \<Rightarrow> (err, Some s)))"

definition Current :: "'lvl Store \<Rightarrow> 'lvl Config option" where
  "Current s = st_cur s"

section \<open>The watch loop\<close>

definition reloadDebounce :: duration where
  "reloadDebounce = 250 * 10 ^ 6"

text \<open>What the loop can receive; the channels of the watcher can also be closed.\<close>

datatype 'op watch_event =
  CtxDone | Event string 'op | EventsClosed | WatchError | ErrorsClosed | DebounceFired | Hangup

text \<open>The debounce timer is stopped (\<open>None\<close>) or fires at a time.\<close>

record 'lvl watch =
  w_store :: "'lvl Store"
  w_debounce :: "time option"
  w_running :: bool

definition watch_init :: "'lvl Store \<Rightarrow> 'lvl watch" where
  "watch_init s = \<lparr>w_store = s, w_debounce = None, w_running = True\<rparr>"

text \<open>An event that starts the timer again: it names the file and is not a mere change of its mode.\<close>

definition relevant :: "'op \<Rightarrow> string \<Rightarrow> 'op watch_event \<Rightarrow> bool" where
  "relevant chmod path ev = (case ev of Event name op \<Rightarrow> Clean name = path \<and> op \<noteq> chmod | _ \<Rightarrow> False)"

definition watch_handle ::
  "'lvl loader \<Rightarrow> 'op \<Rightarrow> 'op watch_event \<Rightarrow> time \<Rightarrow> string result \<Rightarrow> 'lvl watch \<Rightarrow> 'lvl watch" where
  "watch_handle load chmod ev now contents w =
     (case ev of
        CtxDone \<Rightarrow> w\<lparr>w_running := False\<rparr>
      | EventsClosed \<Rightarrow> w\<lparr>w_running := False\<rparr>
      | ErrorsClosed \<Rightarrow> w\<lparr>w_running := False\<rparr>
      | Event name op \<Rightarrow>
          (if Clean name = st_path (w_store w) \<and> op \<noteq> chmod then w\<lparr>w_debounce := Some (now + reloadDebounce)\<rparr> else w)
      | WatchError \<Rightarrow> w
      | DebounceFired \<Rightarrow> w\<lparr>w_debounce := None, w_store := snd (Reload load contents (w_store w))\<rparr>
      | Hangup \<Rightarrow> w\<lparr>w_store := snd (Reload load contents (w_store w))\<rparr>)"

text \<open>The timer's channel is ready from the time it was set for.\<close>

definition watch_enabled :: "'op watch_event \<Rightarrow> time \<Rightarrow> 'lvl watch \<Rightarrow> bool" where
  "watch_enabled ev now w \<longleftrightarrow> w_running w \<and>
     (ev = DebounceFired \<longrightarrow> (case w_debounce w of None \<Rightarrow> False | Some d \<Rightarrow> d \<le> now))"

text \<open>A run of the loop, with the events it received, when, and what the file held then.\<close>

type_synonym 'op watch_input = "'op watch_event \<times> time \<times> string result"

inductive watch_run :: "'lvl loader \<Rightarrow> 'op \<Rightarrow> 'lvl watch \<Rightarrow> 'op watch_input list \<Rightarrow> 'lvl watch \<Rightarrow> bool"
  for load chmod w0 where
  start: "watch_run load chmod w0 [] w0"
| receive: "watch_run load chmod w0 tr w \<Longrightarrow> watch_enabled ev now w \<Longrightarrow>
    watch_run load chmod w0 (tr @ [(ev, now, contents)]) (watch_handle load chmod ev now contents w)"

lemma watch_run_snocE:
  assumes "watch_run load chmod w0 (tr @ [(ev, now, r)]) w"
  obtains w1 where "watch_run load chmod w0 tr w1" "watch_enabled ev now w1" "w = watch_handle load chmod ev now r w1"
  using assms by (cases rule: watch_run.cases) auto

section \<open>Clean paths\<close>

text \<open>The parts of a clean path: no empty one, no dot, double dots only in front of a relative one.\<close>

definition normal_parts :: "bool \<Rightarrow> string list \<Rightarrow> bool" where
  "normal_parts rooted ps \<longleftrightarrow>
     (\<forall>p \<in> set ps. p \<noteq> [] \<and> p \<noteq> ''.'' \<and> CHR ''/'' \<notin> set p) \<and> (rooted \<longrightarrow> ''..'' \<notin> set ps) \<and>
     (\<forall>xs ys. ps = xs @ ''..'' # ys \<longrightarrow> set xs \<subseteq> {''..''})"

lemma normal_parts_snoc:
  "normal_parts rooted (ps @ [p]) \<longleftrightarrow> normal_parts rooted ps \<and> p \<noteq> [] \<and> p \<noteq> ''.'' \<and> CHR ''/'' \<notin> set p \<and>
     (p = ''..'' \<longrightarrow> \<not> rooted \<and> set ps \<subseteq> {''..''})"
proof -
  have "(\<forall>xs ys. ps @ [p] = xs @ ''..'' # ys \<longrightarrow> set xs \<subseteq> {''..''}) \<longleftrightarrow>
      (\<forall>xs ys. ps = xs @ ''..'' # ys \<longrightarrow> set xs \<subseteq> {''..''}) \<and> (p = ''..'' \<longrightarrow> set ps \<subseteq> {''..''})" (is "?L \<longleftrightarrow> ?R")
  proof
    assume L: ?L
    have "set xs \<subseteq> {''..''}" if "ps = xs @ ''..'' # ys" for xs ys
      using L [rule_format, of xs "ys @ [p]"] that by simp
    moreover have "set ps \<subseteq> {''..''}" if "p = ''..''" using L [rule_format, of ps "[]"] that by simp
    ultimately show ?R by blast
  next
    assume R: ?R
    show ?L
    proof (intro allI impI)
      fix xs ys
      assume eq: "ps @ [p] = xs @ ''..'' # ys"
      show "set xs \<subseteq> {''..''}"
      proof (cases ys rule: rev_cases)
        case Nil
        with eq have "p = ''..''" "xs = ps" by auto
        then show ?thesis using R by blast
      next
        case (snoc zs z)
        with eq have "ps = xs @ ''..'' # zs" by simp
        then show ?thesis using R by blast
      qed
    qed
  qed
  then show ?thesis by (auto simp: normal_parts_def)
qed

lemma normal_parts_prefix: "normal_parts rooted (ps @ qs) \<Longrightarrow> normal_parts rooted ps"
proof (induction qs rule: rev_induct)
  case (snoc q qs)
  then have "normal_parts rooted ((ps @ qs) @ [q])" by simp
  then show ?case using snoc.IH normal_parts_snoc by blast
qed simp

lemma clean_parts_normal:
  assumes "normal_parts rooted (rev st)" "\<forall>c \<in> set cs. CHR ''/'' \<notin> set c"
  shows "normal_parts rooted (clean_parts rooted st cs)"
  using assms
proof (induction rooted st cs rule: clean_parts.induct)
  case (2 rooted st c cs)
  consider (skip) "c = [] \<or> c = ''.''" | (pop) "c = ''..''" "st \<noteq> []" "hd st \<noteq> ''..''"
    | (root) "c = ''..''" "\<not> (st \<noteq> [] \<and> hd st \<noteq> ''..'')" rooted | (up) "c = ''..''" "\<not> (st \<noteq> [] \<and> hd st \<noteq> ''..'')" "\<not> rooted"
    | (push) "c \<noteq> []" "c \<noteq> ''.''" "c \<noteq> ''..''" by blast
  then show ?case
  proof cases
    case pop
    have "rev st = rev (tl st) @ [hd st]" using pop by (cases st) auto
    then have "normal_parts rooted (rev (tl st))" using 2(6) normal_parts_prefix by metis
    then show ?thesis using 2 pop by simp
  next
    case up
    have "set (rev st) \<subseteq> {''..''}"
    proof (cases st)
      case (Cons x xs)
      then have "rev st = rev xs @ ''..'' # []" using up by simp
      moreover have "set (rev xs) \<subseteq> {''..''}" using 2(6) calculation unfolding normal_parts_def by blast
      ultimately show ?thesis by simp
    qed simp
    then have "normal_parts rooted (rev (c # st))" using 2(6) up by (simp add: normal_parts_snoc)
    then show ?thesis using 2 up by auto
  next
    case push
    then have "normal_parts rooted (rev (c # st))" using 2(6,7) by (simp add: normal_parts_snoc)
    then show ?thesis using 2 push by simp
  qed (use 2 in auto)
qed simp

lemma clean_parts_id:
  "normal_parts rooted (rev st @ ps) \<Longrightarrow> clean_parts rooted st ps = rev st @ ps"
proof (induction ps arbitrary: st)
  case (Cons p ps)
  have pre: "normal_parts rooted (rev st @ [p])" using Cons.prems normal_parts_prefix [of rooted "rev st @ [p]" ps] by simp
  then have p: "p \<noteq> []" "p \<noteq> ''.''" "p = ''..'' \<longrightarrow> \<not> rooted \<and> set st \<subseteq> {''..''}" by (auto simp: normal_parts_snoc)
  have hd: "p = ''..'' \<Longrightarrow> st \<noteq> [] \<Longrightarrow> hd st = ''..''" using p(3) by (cases st) auto
  have "clean_parts rooted (p # st) ps = rev (p # st) @ ps" using Cons.IH [of "p # st"] Cons.prems by simp
  then show ?case using p hd by auto
qed simp

lemma clean_parts_drop_empty: "clean_parts rooted st ([] # cs) = clean_parts rooted st cs"
  by simp

lemma Clean_parts_of:
  assumes "normal_parts rooted ps"
  shows "clean_parts rooted [] (Split CHR ''/'' (Join ''/'' ps)) = ps"
proof (cases "ps = []")
  case False
  then have "Split CHR ''/'' (Join [CHR ''/''] ps) = ps" using assms by (intro Split_Join) (auto simp: normal_parts_def)
  then show ?thesis using clean_parts_id [of rooted "[]" ps] assms by simp
qed simp

lemma Join_hd:
  assumes "normal_parts rooted ps"
  shows "\<not> HasPrefix (Join ''/'' ps) ''/''" "Join ''/'' ps = [] \<longleftrightarrow> ps = []"
proof -
  show "Join ''/'' ps = [] \<longleftrightarrow> ps = []"
    using assms by (induction ps rule: induct_list012) (auto simp: normal_parts_def)
  show "\<not> HasPrefix (Join ''/'' ps) ''/''"
  proof (cases ps)
    case (Cons p qs)
    then obtain c t where "p = c # t" "c \<noteq> CHR ''/''" using assms by (cases p) (auto simp: normal_parts_def)
    then show ?thesis using Cons by (cases qs) (auto simp: HasPrefix_iff)
  qed (simp add: HasPrefix_iff)
qed

lemma Clean_Clean: "Clean (Clean p) = Clean p"
proof -
  define rooted where "rooted = HasPrefix p ''/''"
  define ps where "ps = clean_parts rooted [] (Split CHR ''/'' p)"
  have n: "normal_parts rooted ps" unfolding ps_def
    by (intro clean_parts_normal) (auto simp: normal_parts_def dest: Split_no_sep)
  have c: "Clean p = (if rooted then CHR ''/'' # Join ''/'' ps else if Join ''/'' ps = [] then ''.'' else Join ''/'' ps)"
    by (simp add: Clean_def rooted_def ps_def Let_def)
  show ?thesis
  proof (cases rooted)
    case True
    have "clean_parts True [] (Split CHR ''/'' (CHR ''/'' # Join ''/'' ps)) = ps"
      using Clean_parts_of [OF n] True by simp
    then show ?thesis using True by (simp add: c Clean_def [of "CHR ''/'' # Join ''/'' ps"] HasPrefix_iff Let_def)
  next
    case False
    show ?thesis
    proof (cases "ps = []")
      case True
      then have "Clean p = ''.''" using False by (simp add: c)
      moreover have "Clean ''.'' = ''.''" by (simp add: Clean_def HasPrefix_iff)
      ultimately show ?thesis by simp
    next
      case ne: False
      then have "Clean (Join ''/'' ps) = Join ''/'' ps"
        using Join_hd [OF n] Clean_parts_of [OF n] False by (simp add: Clean_def [of "Join ''/'' ps"])
      then show ?thesis using False ne Join_hd(2) [OF n] by (simp add: c)
    qed
  qed
qed

lemma Abs_clean: "Abs cwd p = Inr q \<Longrightarrow> Clean q = q"
  by (auto simp: Abs_def rbind_Inr_iff Clean_Clean split: if_splits)

section \<open>Reloading\<close>

definition loaded :: "'lvl loader \<Rightarrow> string result list \<Rightarrow> 'lvl Config list" where
  "loaded load rs = List.map_filter (\<lambda>r. case load r of Inl _ \<Rightarrow> None | Inr c \<Rightarrow> Some c) rs"

lemma loaded_simps [simp]:
  "loaded load [] = []"
  "loaded load (rs @ [r]) = loaded load rs @ (case load r of Inl _ \<Rightarrow> [] | Inr c \<Rightarrow> [c])"
  "loaded load (r # rs) = (case load r of Inl _ \<Rightarrow> [] | Inr c \<Rightarrow> [c]) @ loaded load rs"
  by (auto simp: loaded_def map_filter_def split: sum.splits)

text \<open>The contents of the file at the moments the loop reloads.\<close>

definition reload_inputs :: "'op watch_input list \<Rightarrow> string result list" where
  "reload_inputs tr = map (\<lambda>(ev, now, r). r) (filter (\<lambda>(ev, now, r). ev = DebounceFired \<or> ev = Hangup) tr)"

definition store_after :: "'lvl loader \<Rightarrow> string result list \<Rightarrow> 'lvl Store \<Rightarrow> bool" where
  "store_after load rs s \<longleftrightarrow> loaded load rs \<noteq> [] \<and> st_cur s = Some (last (loaded load rs)) \<and>
     st_applied s = (if st_apply s then loaded load rs else [])"

lemma Reload_after:
  assumes "store_after load rs s"
  shows "store_after load (rs @ [r]) (snd (Reload load r s))"
  using assms by (auto simp: store_after_def Reload_def split: sum.splits)

lemma NewStore_after:
  assumes "NewStore load cwd path hasApply contents = (None, Some s)"
  shows "store_after load [contents] s" "Clean (st_path s) = st_path s" "st_apply s = hasApply"
  using assms by (auto simp: NewStore_def Reload_def store_after_def Abs_clean split: sum.splits)

lemma watch_run_after:
  assumes "watch_run load chmod w0 tr w" "store_after load rs (w_store w0)"
  shows "store_after load (rs @ reload_inputs tr) (w_store w) \<and> st_path (w_store w) = st_path (w_store w0) \<and>
    st_apply (w_store w) = st_apply (w_store w0)"
  using assms(1)
proof (induction rule: watch_run.induct)
  case start
  then show ?case using assms(2) by (simp add: reload_inputs_def)
next
  case (receive tr w ev now contents)
  have path: "st_path (snd (Reload load contents s)) = st_path s" "st_apply (snd (Reload load contents s)) = st_apply s" for s
    by (auto simp: Reload_def split: sum.splits)
  show ?case using receive.IH Reload_after [of load "rs @ reload_inputs tr" "w_store w" contents] path
    by (cases ev) (auto simp: watch_handle_def reload_inputs_def)
qed

section \<open>Debouncing\<close>

text \<open>The timer runs exactly while the last relevant event has not been followed by a reload.\<close>

lemma watch_run_debounce:
  assumes "watch_run load chmod w0 tr w" "w_debounce w0 = None"
  shows "w_debounce w = Some d \<longrightarrow>
    (\<exists>pre ev t r post. tr = pre @ (ev, t, r) # post \<and> relevant chmod (st_path (w_store w0)) ev \<and> d = t + reloadDebounce \<and>
       (\<forall>(e, _) \<in> set post. \<not> relevant chmod (st_path (w_store w0)) e \<and> e \<noteq> DebounceFired))"
    (is "_ \<longrightarrow> ?P tr d")
  using assms(1)
proof (induction arbitrary: d rule: watch_run.induct)
  case start
  then show ?case using assms(2) by simp
next
  case (receive tr w ev now contents)
  have path: "st_path (w_store w) = st_path (w_store w0)"
    using receive.hyps(1)
  proof (induction rule: watch_run.induct)
    case (receive tr w ev now contents)
    then show ?case by (cases ev) (auto simp: watch_handle_def Reload_def split: sum.splits)
  qed simp
  show ?case
  proof (cases "relevant chmod (st_path (w_store w0)) ev")
    case True
    then obtain name op where ev: "ev = Event name op" "Clean name = st_path (w_store w)" "op \<noteq> chmod"
      using path by (cases ev) (auto simp: relevant_def)
    then have d: "w_debounce (watch_handle load chmod ev now contents w) = Some (now + reloadDebounce)" by (simp add: watch_handle_def)
    have "?P (tr @ [(ev, now, contents)]) (now + reloadDebounce)"
      using True by (intro exI [of _ tr] exI [of _ ev] exI [of _ now] exI [of _ contents] exI [of _ "[]"]) auto
    then show ?thesis unfolding d by blast
  next
    case False
    show ?thesis
    proof (cases "ev = DebounceFired")
      case True
      then show ?thesis by (simp add: watch_handle_def)
    next
      case nf: False
      have "w_debounce (watch_handle load chmod ev now contents w) = w_debounce w"
        using False nf path by (cases ev) (auto simp: watch_handle_def relevant_def)
      moreover have "?P (tr @ [(ev, now, contents)]) d" if P: "?P tr d"
      proof -
        from P obtain pre e t r post where "tr = pre @ (e, t, r) # post" "relevant chmod (st_path (w_store w0)) e"
          "d = t + reloadDebounce" "\<forall>(e, _) \<in> set post. \<not> relevant chmod (st_path (w_store w0)) e \<and> e \<noteq> DebounceFired" by blast
        then show ?thesis using False nf
          by (intro exI [of _ pre] exI [of _ e] exI [of _ t] exI [of _ r] exI [of _ "post @ [(ev, now, contents)]"]) auto
      qed
      ultimately show ?thesis using receive.IH by auto
    qed
  qed
qed

section \<open>Properties\<close>

text \<open>
  C12.  The active configuration is always the last one that loaded: after the initial load and any
  run of the watch loop, it is the configuration of the last successful load, whatever failed
  loads came in between or after, and the callback was called with every configuration that
  became active, in order and once each.
\<close>

theorem store_last_good:
  assumes "NewStore load cwd path hasApply contents = (None, Some s)" "watch_run load chmod (watch_init s) tr w"
  shows "loaded load (contents # reload_inputs tr) \<noteq> [] \<and>
    Current (w_store w) = Some (last (loaded load (contents # reload_inputs tr))) \<and>
    st_applied (w_store w) = (if hasApply then loaded load (contents # reload_inputs tr) else [])"
proof -
  note n = NewStore_after [OF assms(1)]
  have "store_after load ([contents] @ reload_inputs tr) (w_store w) \<and> st_apply (w_store w) = hasApply"
    using watch_run_after [OF assms(2), of "[contents]"] n by (simp add: watch_init_def)
  then show ?thesis by (simp add: store_after_def Current_def)
qed

definition demo_load :: "int loader" where
  "demo_load = Config_Load MustCompile demo_levels demo_yaml"

definition demo_store :: "int Store" where
  "demo_store = \<lparr>st_path = ''/etc/proxy.yml'', st_apply = True, st_cur = Some demo_config, st_applied = [demo_config]\<rparr>"

lemma demo_load_simps: "demo_load (Inr data) = Inr demo_config" "demo_load (Inl e) = Inl e"
  by (simp_all add: demo_load_def Config_Load_def demo_config_parsed)

lemma demo_store_new: "NewStore demo_load (Inr ''/'') ''/etc//x/../proxy.yml'' True (Inr []) = (None, Some demo_store)"
  by (simp add: NewStore_def Abs_def Clean_def HasPrefix_iff Reload_def demo_load_simps demo_store_def)

lemma demo_watch:
  "watch_run demo_load CHR ''m'' (watch_init demo_store)
     [(Event ''/etc/./proxy.yml'' CHR ''w'', 0, Inr []), (DebounceFired, 250 * 10 ^ 6, Inl (ErrNew ''gone''))]
     \<lparr>w_store = demo_store, w_debounce = None, w_running = True\<rparr>"
proof -
  let ?e = "Event ''/etc/./proxy.yml'' CHR ''w'' :: char watch_event"
  let ?w = "watch_handle demo_load CHR ''m'' ?e 0 (Inr []) (watch_init demo_store)"
  have w: "?w = \<lparr>w_store = demo_store, w_debounce = Some (250 * 10 ^ 6), w_running = True\<rparr>"
    by (simp add: watch_handle_def watch_init_def demo_store_def Clean_def HasPrefix_iff reloadDebounce_def)
  have "watch_run demo_load CHR ''m'' (watch_init demo_store) ([] @ [(?e, 0, Inr [])]) ?w"
    by (rule watch_run.receive [OF watch_run.start]) (simp add: watch_enabled_def watch_init_def)
  from watch_run.receive [OF this [unfolded w], of DebounceFired "250 * 10 ^ 6" "Inl (ErrNew ''gone'')"]
  show ?thesis by (simp add: watch_enabled_def watch_handle_def Reload_def demo_load_simps)
qed

theorem store_last_good_witness: "Current (w_store \<lparr>w_store = demo_store, w_debounce = None, w_running = True\<rparr>) = Some demo_config"
  using store_last_good [OF demo_store_new demo_watch] by (simp add: reload_inputs_def demo_load_simps)

text \<open>
  C34.  A burst of file events causes one reload: the loop reloads for a file change only after an
  event that names the watched file (in any spelling that cleans to the same path) and is not
  a mere mode change, at least 250 milliseconds after the last such event, and never twice for
  the same event.
\<close>

theorem watch_debounce:
  fixes chmod :: 'op
  assumes "NewStore load cwd path hasApply contents = (err, Some s)"
    and "watch_run load chmod (watch_init s) (tr @ [(DebounceFired, now, r)]) w"
  shows "\<exists>pre name op t r' post. tr = pre @ (Event name op, t, r') # post \<and> Clean name = Clean (st_path s) \<and> op \<noteq> chmod \<and>
    t + 250 * 10 ^ 6 \<le> now \<and>
    (\<forall>(e, _) \<in> set post. e \<noteq> DebounceFired \<and> (\<forall>name' op'. e = Event name' op' \<longrightarrow> Clean name' \<noteq> st_path s \<or> op' = chmod))"
proof -
  have clean: "Clean (st_path s) = st_path s"
    using assms(1) by (auto simp: NewStore_def Reload_def Abs_clean split: sum.splits)
  obtain w1 where w1: "watch_run load chmod (watch_init s) tr w1" "watch_enabled (DebounceFired :: 'op watch_event) now w1"
    using assms(2) by (auto elim!: watch_run_snocE)
  then obtain d where d: "w_debounce w1 = Some d" "d \<le> now" by (auto simp: watch_enabled_def split: option.splits)
  from watch_run_debounce [OF w1(1), of d] d(1) obtain pre ev t r' post where
    p: "tr = pre @ (ev, t, r') # post" "relevant chmod (st_path s) ev" "d = t + reloadDebounce"
      "\<forall>(e, _) \<in> set post. \<not> relevant chmod (st_path s) e \<and> e \<noteq> DebounceFired"
    by (auto simp: watch_init_def)
  obtain name op where ev: "ev = Event name op" "Clean name = st_path s" "op \<noteq> chmod"
    using p(2) by (cases ev) (auto simp: relevant_def)
  have "\<forall>(e, _) \<in> set post. e \<noteq> DebounceFired \<and> (\<forall>name' op'. e = Event name' op' \<longrightarrow> Clean name' \<noteq> st_path s \<or> op' = chmod)"
    using p(4) by (fastforce simp: relevant_def)
  then show ?thesis using p(1,3) ev d(2) clean
    by (intro exI [of _ pre] exI [of _ name] exI [of _ op] exI [of _ t] exI [of _ r'] exI [of _ post]) (auto simp: reloadDebounce_def)
qed

theorem watch_debounce_witness:
  "\<exists>pre name op t r' post. [(Event ''/etc/./proxy.yml'' CHR ''w'', 0, Inr [] :: string result)] = pre @ (Event name op, t, r') # post \<and>
     Clean name = Clean (st_path demo_store) \<and> op \<noteq> CHR ''m'' \<and> t + 250 * 10 ^ 6 \<le> (250 * 10 ^ 6 :: int)"
proof -
  have "watch_run demo_load CHR ''m'' (watch_init demo_store)
     ([(Event ''/etc/./proxy.yml'' CHR ''w'', 0, Inr [])] @ [(DebounceFired, 250 * 10 ^ 6, Inl (ErrNew ''gone''))])
     \<lparr>w_store = demo_store, w_debounce = None, w_running = True\<rparr>" using demo_watch by simp
  from watch_debounce [OF demo_store_new this] show ?thesis by (elim exE conjE) (intro exI conjI)
qed

end
