(* ===== verification/Dial.thy ===== *)
theory Dial
  imports Policy Go_Time "HOL-Library.Multiset"
begin

text \<open>
  \<^verbatim>\<open>internal/proxy/dial.go\<close>: connecting to the addresses the ACL approved.

  Dialling one address is an effect on a world \<open>'w\<close>; the environment of a dial is the dialer, the
  clock and whether the context is done.  The two address families are dialled by two goroutines
  that send their results to a loop; the loop, the goroutines and the timer are a step relation.
\<close>

section \<open>Vetted destinations\<close>

definition errNotVetted :: error where
  "errNotVetted = ErrNew ''proxy-acl: refusing to dial a destination the ACL did not approve''"

definition dialBudget :: duration where "dialBudget = 30 * 10 ^ 9"
definition fallbackDelay :: duration where "fallbackDelay = 300 * 10 ^ 6"
definition maxAddrsPerFamily :: nat where "maxAddrsPerFamily = 3"
definition minAttemptTimeout :: duration where "minAttemptTimeout = 2 * 10 ^ 9"

record vetted =
  v_host :: string
  v_port :: port
  v_addrs :: "addr list"
  v_idle :: duration

text \<open>
  The environment: dialling with the deadline of the attempt, a network and an address; the clock;
  and whether a context with a given deadline is done.
\<close>

record ('c, 'w) dial_env =
  de_dial :: "time option \<Rightarrow> string \<Rightarrow> string \<Rightarrow> 'w \<Rightarrow> 'c result \<times> 'w"
  de_now :: "'w \<Rightarrow> time"
  de_done :: "time option \<Rightarrow> 'w \<Rightarrow> bool"

text \<open>The deadline of \<^verbatim>\<open>context.WithTimeout\<close> on a context with a deadline or without.\<close>

definition with_timeout :: "time option \<Rightarrow> time \<Rightarrow> duration \<Rightarrow> time option" where
  "with_timeout dl now d = Some (case dl of None \<Rightarrow> now + d | Some e \<Rightarrow> min e (now + d))"

text \<open>Go's integer division truncates toward zero.\<close>

definition go_div :: "int \<Rightarrow> int \<Rightarrow> int" where
  "go_div x y = sgn x * sgn y * (\<bar>x\<bar> div \<bar>y\<bar>)"

section \<open>One family after the other address\<close>

text \<open>The deadline of one attempt: an even share of the time left, but at least two seconds of it.\<close>

definition attempt_deadline :: "time option \<Rightarrow> time \<Rightarrow> nat \<Rightarrow> time option" where
  "attempt_deadline dl now n =
     (case dl of
        None \<Rightarrow> None
      | Some d \<Rightarrow>
          (let share = go_div (time_Sub d now) (int n) in with_timeout dl now (max share minAttemptTimeout)))"

fun dialSerial_loop ::
  "('c, 'w) dial_env \<Rightarrow> time option \<Rightarrow> string \<Rightarrow> port \<Rightarrow> addr list \<Rightarrow> error list \<Rightarrow> 'w \<Rightarrow> 'c result \<times> 'w" where
  "dialSerial_loop env dl network port [] errs w =
     (Inl (if errs = [] then errNotVetted else ErrJoin errs), w)"
| "dialSerial_loop env dl network port (a # as) errs w =
     (case de_dial env (attempt_deadline dl (de_now env w) (length (a # as))) network (addrport_String a (unat port)) w of
        (Inr c, w1) \<Rightarrow> (Inr c, w1)
      | (Inl e, w1) \<Rightarrow>
          if de_done env dl w1 then (Inl (ErrJoin (errs @ [e])), w1)
          else dialSerial_loop env dl network port as (errs @ [e]) w1)"

definition dialSerial :: "('c, 'w) dial_env \<Rightarrow> time option \<Rightarrow> string \<Rightarrow> addr list \<Rightarrow> port \<Rightarrow> 'w \<Rightarrow> 'c result \<times> 'w" where
  "dialSerial env dl network addrs port w = dialSerial_loop env dl network port addrs [] w"

section \<open>Both families\<close>

fun families :: "bool \<Rightarrow> addr list \<Rightarrow> addr list \<times> addr list \<Rightarrow> addr list \<times> addr list" where
  "families is4 [] (p, f) = (p, f)"
| "families is4 (a # as) (p, f) =
     families is4 as
       (if Is4 a = is4 then (if length p < maxAddrsPerFamily then p @ [a] else p, f)
        else (p, if length f < maxAddrsPerFamily then f @ [a] else f))"

text \<open>
  The state of the race: the variables of the loop, which goroutines still run, the buffered
  channel of results, whether the timer has yet to fire, whether the goroutine that waits for the
  loser runs, and the connections it closed.  \<open>ra_opened\<close> records every connection a goroutine
  delivered.
\<close>

record 'c race =
  ra_pending :: int
  ra_fallbackStarted :: bool
  ra_errs :: "error list"
  ra_return :: "'c result option"
  ra_primary :: bool
  ra_fallback :: bool
  ra_results :: "'c result list"
  ra_timer :: bool
  ra_loser :: bool
  ra_closed :: "'c list"
  ra_opened :: "'c list"

definition race_init :: "'c race" where
  "race_init = \<lparr>ra_pending = 1, ra_fallbackStarted = False, ra_errs = [], ra_return = None, ra_primary = True,
     ra_fallback = False, ra_results = [], ra_timer = True, ra_loser = False, ra_closed = [], ra_opened = []\<rparr>"

definition startFallback :: "'c race \<Rightarrow> 'c race" where
  "startFallback s =
     (if \<not> ra_fallbackStarted s
      then s\<lparr>ra_fallbackStarted := True, ra_pending := ra_pending s + 1, ra_fallback := True\<rparr>
      else s)"

definition conns_of :: "'c result \<Rightarrow> 'c list" where
  "conns_of r = (case r of Inl _ \<Rightarrow> [] | Inr c \<Rightarrow> [c])"

text \<open>The case \<^verbatim>\<open>r := <-results\<close> of the loop.\<close>

definition receive_result :: "'c result \<Rightarrow> 'c race \<Rightarrow> 'c race" where
  "receive_result r s0 =
     (let s = s0\<lparr>ra_pending := ra_pending s0 - 1\<rparr> in
      case r of
        Inr c \<Rightarrow> s\<lparr>ra_return := Some (Inr c), ra_loser := ra_pending s > 0\<rparr>
      | Inl e \<Rightarrow>
          (let s1 = startFallback (s\<lparr>ra_errs := ra_errs s @ [e]\<rparr>) in
           if ra_pending s1 = 0 then s1\<lparr>ra_return := Some (Inl (ErrJoin (ra_errs s1)))\<rparr> else s1))"

inductive race_step :: "('c result \<Rightarrow> bool) \<Rightarrow> ('c result \<Rightarrow> bool) \<Rightarrow> 'c race \<Rightarrow> 'c race \<Rightarrow> bool"
  for prim fb where
  primary_done: "ra_primary s \<Longrightarrow> prim r \<Longrightarrow>
    race_step prim fb s (s\<lparr>ra_primary := False, ra_results := ra_results s @ [r], ra_opened := ra_opened s @ conns_of r\<rparr>)"
| fallback_done: "ra_fallback s \<Longrightarrow> fb r \<Longrightarrow>
    race_step prim fb s (s\<lparr>ra_fallback := False, ra_results := ra_results s @ [r], ra_opened := ra_opened s @ conns_of r\<rparr>)"
| timer: "ra_return s = None \<Longrightarrow> ra_timer s \<Longrightarrow> race_step prim fb s ((startFallback s)\<lparr>ra_timer := False\<rparr>)"
| result: "ra_return s = None \<Longrightarrow> ra_results s = r # rest \<Longrightarrow>
    race_step prim fb s (receive_result r (s\<lparr>ra_results := rest\<rparr>))"
| loser: "ra_loser s \<Longrightarrow> ra_results s = r # rest \<Longrightarrow>
    race_step prim fb s (s\<lparr>ra_results := rest, ra_loser := False, ra_closed := ra_closed s @ conns_of r\<rparr>)"

inductive_cases race_stepE: "race_step prim fb s s'"

text \<open>The results a goroutine can deliver: what dialling its list gives in some state of the world.\<close>

definition serial_results :: "('c, 'w) dial_env \<Rightarrow> time option \<Rightarrow> string \<Rightarrow> addr list \<Rightarrow> port \<Rightarrow> 'c result \<Rightarrow> bool" where
  "serial_results env dl network addrs port r \<longleftrightarrow> (\<exists>w. fst (dialSerial env dl network addrs port w) = r)"

text \<open>What a parallel dial can return.\<close>

definition dialParallel_returns :: "('c, 'w) dial_env \<Rightarrow> time option \<Rightarrow> string \<Rightarrow> addr list \<Rightarrow> port \<Rightarrow> 'c result \<Rightarrow> bool" where
  "dialParallel_returns env dl network addrs port r \<longleftrightarrow>
     (case families (Is4 (hd addrs)) addrs ([], []) of (primary, fallback) \<Rightarrow>
        if fallback = [] then serial_results env dl network primary port r
        else \<exists>s. (race_step (serial_results env dl network primary port) (serial_results env dl network fallback port))\<^sup>*\<^sup>* race_init s \<and>
               ra_return s = Some r)"

definition vetted_ok :: "vetted \<Rightarrow> string \<Rightarrow> bool" where
  "vetted_ok v addr =
     (case SplitHostPort addr of
        Inl _ \<Rightarrow> False
      | Inr (host, port) \<Rightarrow> host = v_host v \<and> port = itoa (unat (v_port v)) \<and> v_addrs v \<noteq> [])"

text \<open>What \<^verbatim>\<open>vetted.dial\<close>, called at a time on a context with a deadline, can return.\<close>

definition vetted_dial :: "('c, 'w) dial_env \<Rightarrow> vetted \<Rightarrow> time option \<Rightarrow> time \<Rightarrow> string \<Rightarrow> string \<Rightarrow> 'c result \<Rightarrow> bool" where
  "vetted_dial env v dl now network addr r \<longleftrightarrow>
     (if \<not> vetted_ok v addr then r = Inl errNotVetted
      else dialParallel_returns env (with_timeout dl now dialBudget) network (v_addrs v) (v_port v) r)"

section \<open>The deadline of an attempt\<close>

text \<open>Within the budget, and not below the minimum unless the budget ends before.\<close>

definition attempt_ok :: "time option \<Rightarrow> time \<Rightarrow> time option \<Rightarrow> bool" where
  "attempt_ok dl now d =
     (case dl of
        None \<Rightarrow> d = None
      | Some t \<Rightarrow> (case d of None \<Rightarrow> False | Some t' \<Rightarrow> t' \<le> t \<and> min t (now + minAttemptTimeout) \<le> t'))"

lemma attempt_deadline_ok [simp]: "attempt_ok dl now (attempt_deadline dl now n)"
  by (auto simp: attempt_ok_def attempt_deadline_def with_timeout_def Let_def split: option.splits)

section \<open>Dialling within a contract\<close>

text \<open>
  What a dial may do to the world: an invariant that every call of the dialer keeps, as long as the
  call is one that the contract permits in that state.
\<close>

locale dial_contract =
  fixes env :: "('c, 'w) dial_env" and ok :: "time option \<Rightarrow> string \<Rightarrow> 'w \<Rightarrow> bool" and I :: "'w \<Rightarrow> bool"
  assumes dial_keeps: "I w \<Longrightarrow> ok dl addr w \<Longrightarrow> I (snd (de_dial env dl network addr w))"
begin

lemma dialSerial_loop_keeps:
  assumes "I w" "\<And>d a w. a \<in> set addrs \<Longrightarrow> I w \<Longrightarrow> attempt_ok dl (de_now env w) d \<Longrightarrow> ok d (addrport_String a (unat port)) w"
  shows "I (snd (dialSerial_loop env dl network port addrs errs w))"
  using assms
proof (induction addrs arbitrary: errs w)
  case (Cons a as)
  define d where "d = attempt_deadline dl (de_now env w) (length (a # as))"
  obtain r w1 where r: "de_dial env d network (addrport_String a (unat port)) w = (r, w1)" by (metis surj_pair)
  have "ok d (addrport_String a (unat port)) w"
    using Cons.prems attempt_deadline_ok by (simp add: d_def)
  then have "I w1" using Cons.prems(1) dial_keeps r by (metis snd_conv)
  moreover have "I (snd (dialSerial_loop env dl network port as (errs @ [e]) w1))" for e
    using Cons.IH [OF \<open>I w1\<close>] Cons.prems(2) by simp
  ultimately show ?case using r by (cases r) (simp_all add: d_def)
qed simp

end

text \<open>A dialer that keeps a record of the calls: the time, the deadline and the address of each.\<close>

definition recording :: "('c, 'w) dial_env \<Rightarrow> ('c, 'w \<times> (time \<times> time option \<times> string) list) dial_env" where
  "recording env =
     \<lparr>de_dial = (\<lambda>dl network addr (w, calls).
        case de_dial env dl network addr w of (r, w1) \<Rightarrow> (r, (w1, calls @ [(de_now env w, dl, addr)]))),
      de_now = (\<lambda>(w, calls). de_now env w), de_done = (\<lambda>dl (w, calls). de_done env dl w)\<rparr>"

text \<open>The calls of the dialer that a permission covers.\<close>

definition calls_ok :: "(time \<Rightarrow> time option \<Rightarrow> string \<Rightarrow> bool) \<Rightarrow> 'w \<times> (time \<times> time option \<times> string) list \<Rightarrow> bool" where
  "calls_ok P w \<longleftrightarrow> (\<forall>(now, dl, addr) \<in> set (snd w). P now dl addr)"

interpretation recorder: dial_contract "recording env" "\<lambda>dl addr w. P (de_now env (fst w)) dl addr" "calls_ok P"
  by unfold_locales (auto simp: recording_def calls_ok_def split: prod.splits)

lemma recording_now [simp]: "de_now (recording env) w = de_now env (fst w)"
  by (cases w) (simp add: recording_def)

lemma recording_simps [simp]:
  "de_done (recording env) dl (w, calls) = de_done env dl w"
  "de_dial env dl network addr w = (r, w1) \<Longrightarrow>
   de_dial (recording env) dl network addr (w, calls) = (r, (w1, calls @ [(de_now env w, dl, addr)]))"
  by (simp_all add: recording_def)

text \<open>Recording does not change what a dial returns.\<close>

lemma recording_result:
  "fst (dialSerial_loop (recording env) dl network port addrs errs (w, calls)) =
   fst (dialSerial_loop env dl network port addrs errs w)"
proof (induction addrs arbitrary: errs w calls)
  case (Cons a as)
  obtain r w1 where r: "de_dial env (attempt_deadline dl (de_now env w) (length (a # as))) network
      (addrport_String a (unat port)) w = (r, w1)" by (metis surj_pair)
  show ?case using Cons r by (cases r) simp_all
qed simp

lemma dialSerial_loop_from:
  assumes "fst (dialSerial_loop env dl network port addrs errs w) = Inr c"
  shows "\<exists>a \<in> set addrs. \<exists>d w'. fst (de_dial env d network (addrport_String a (unat port)) w') = Inr c"
  using assms
proof (induction addrs arbitrary: errs w)
  case (Cons a as)
  define d where "d = attempt_deadline dl (de_now env w) (length (a # as))"
  obtain r w1 where r: "de_dial env d network (addrport_String a (unat port)) w = (r, w1)" by (metis surj_pair)
  show ?case
  proof (cases r)
    case (Inl e)
    then have "fst (dialSerial_loop env dl network port as (errs @ [e]) w1) = Inr c"
      using Cons.prems r by (simp add: d_def split: if_splits)
    then show ?thesis using Cons.IH by auto
  next
    case (Inr c')
    then have "fst (de_dial env d network (addrport_String a (unat port)) w) = Inr c"
      using Cons.prems r by (simp add: d_def)
    then show ?thesis by auto
  qed
qed simp

lemma dialSerial_calls_length:
  "length (snd (snd (dialSerial_loop (recording env) dl network port addrs errs (w, calls)))) \<le> length calls + length addrs"
proof (induction addrs arbitrary: errs w calls)
  case (Cons a as)
  obtain r w1 where r: "de_dial env (attempt_deadline dl (de_now env w) (length (a # as))) network
      (addrport_String a (unat port)) w = (r, w1)" by (metis surj_pair)
  show ?case using Cons.IH [of _ w1 "calls @ [x]" for x] r by (cases r) (auto intro: order_trans)
qed simp

section \<open>The two families\<close>

lemma families_take:
  assumes "length p \<le> maxAddrsPerFamily" "length f \<le> maxAddrsPerFamily"
  shows "families is4 as (p, f) =
    (take maxAddrsPerFamily (p @ filter (\<lambda>a. Is4 a = is4) as), take maxAddrsPerFamily (f @ filter (\<lambda>a. Is4 a \<noteq> is4) as))"
  using assms
proof (induction is4 as "(p, f)" arbitrary: p f rule: families.induct)
  case (2 is4 a as p f)
  have "take maxAddrsPerFamily (xs @ a # ys) = take maxAddrsPerFamily ((if length xs < maxAddrsPerFamily then xs @ [a] else xs) @ ys)"
    if "length xs \<le> maxAddrsPerFamily" for xs ys :: "addr list" using that by (auto simp: take_Cons')
  then show ?case using 2 by (cases "Is4 a = is4") (simp_all del: take_append)
qed simp

text \<open>The first address of the list is the first of the preferred family.\<close>

lemma families_split:
  assumes "families (Is4 (hd as)) as ([], []) = (p, f)" "as \<noteq> []"
  shows "set p \<subseteq> set as" "set f \<subseteq> set as" "length p \<le> maxAddrsPerFamily" "length f \<le> maxAddrsPerFamily" "p \<noteq> []" "hd p = hd as"
    "f = [] \<longleftrightarrow> (\<forall>a \<in> set as. Is4 a = Is4 (hd as))"
proof -
  have m: "maxAddrsPerFamily = Suc 2" by (simp add: maxAddrsPerFamily_def)
  have p: "p = take maxAddrsPerFamily (filter (\<lambda>a. Is4 a = Is4 (hd as)) as)"
    and f: "f = take maxAddrsPerFamily (filter (\<lambda>a. Is4 a \<noteq> Is4 (hd as)) as)"
    using assms(1) by (simp_all add: families_take)
  show "set p \<subseteq> set as" "set f \<subseteq> set as" unfolding p f by (auto dest!: in_set_takeD)
  show "length p \<le> maxAddrsPerFamily" "length f \<le> maxAddrsPerFamily" unfolding p f by auto
  show "p \<noteq> []" "hd p = hd as" using assms(2) by (cases as; simp add: p m)+
  show "f = [] \<longleftrightarrow> (\<forall>a \<in> set as. Is4 a = Is4 (hd as))" by (auto simp: f m filter_empty_conv)
qed

section \<open>The race\<close>

text \<open>
  While the loop runs, every goroutine it started is counted in \<^verbatim>\<open>pending\<close> until its result is
  received; afterwards the goroutine that waits for the loser is there exactly when a result is
  still to come.  Every connection that was opened is in the channel, returned or closed.
\<close>

definition running :: "'c race \<Rightarrow> nat" where
  "running s = of_bool (ra_primary s) + of_bool (ra_fallback s)"

definition queued :: "'c race \<Rightarrow> 'c multiset" where
  "queued s = mset (concat (map conns_of (ra_results s)))"

definition race_inv :: "'c race \<Rightarrow> bool" where
  "race_inv s \<longleftrightarrow>
     (\<not> ra_fallbackStarted s \<longrightarrow> \<not> ra_fallback s) \<and>
     (case ra_return s of
        None \<Rightarrow> ra_pending s = int (running s + length (ra_results s)) \<and> ra_pending s \<ge> 1 \<and> \<not> ra_loser s \<and>
          ra_closed s = [] \<and> mset (ra_opened s) = queued s \<and>
          int (length (ra_errs s)) + ra_pending s = 1 + of_bool (ra_fallbackStarted s)
      | Some (Inr c) \<Rightarrow> running s + length (ra_results s) = of_bool (ra_loser s) \<and>
          mset (ra_opened s) = add_mset c (mset (ra_closed s)) + queued s
      | Some (Inl e) \<Rightarrow> running s = 0 \<and> ra_results s = [] \<and> \<not> ra_loser s \<and> ra_opened s = [] \<and> ra_closed s = [] \<and>
          e = ErrJoin (ra_errs s) \<and> length (ra_errs s) = 2 \<and> ra_fallbackStarted s)"

lemmas race_simps = running_def queued_def conns_of_def startFallback_def receive_result_def Let_def

lemma race_inv_init: "race_inv race_init"
  by (simp add: race_inv_def race_init_def race_simps)

lemma race_inv_step:
  assumes "race_step prim fb s s'" "race_inv s"
  shows "race_inv s'"
  using assms
proof (cases rule: race_step.cases)
  case (result r rest)
  show ?thesis
  proof (cases r)
    case (Inl e)
    then show ?thesis using result assms(2) by (cases "ra_fallbackStarted s") (auto simp: race_inv_def race_simps)
  next
    case (Inr c)
    have p: "ra_pending s = 1 + int (running s + length rest)" "int (length (ra_errs s)) + ra_pending s = 1 + of_bool (ra_fallbackStarted s)"
      using result assms(2) by (simp_all add: race_inv_def)
    then have "running s + length rest \<le> 1" by (cases "ra_fallbackStarted s") simp_all
    then have n: "running s + length rest = of_bool (ra_pending s > 1)" using p(1) by (cases "running s + length rest") simp_all
    have "running s' = running s" "ra_results s' = rest" "ra_return s' = Some (Inr c)" "ra_loser s' = (ra_pending s > 1)" "ra_closed s' = ra_closed s"
      "ra_opened s' = ra_opened s" "ra_fallback s' = ra_fallback s" "ra_fallbackStarted s' = ra_fallbackStarted s"
      using Inr result by (auto simp: running_def receive_result_def Let_def)
    then show ?thesis using n Inr result assms(2) by (simp add: race_inv_def queued_def conns_of_def)
  qed
qed (cases "ra_loser s"; auto simp: race_inv_def race_simps split: option.splits sum.splits)+

interpretation race_machine: step_invariant "race_step prim fb" "\<lambda>s. s = race_init" race_inv for prim fb
  by unfold_locales (auto simp: race_inv_init intro: race_inv_step)

lemma race_inv_reachable: "(race_step prim fb)\<^sup>*\<^sup>* race_init s \<Longrightarrow> race_inv s"
  by (rule race_machine.holds_after [OF _ refl])

text \<open>What remains to be done in the race.\<close>

definition race_measure :: "'c race \<Rightarrow> nat" where
  "race_measure s = 2 * running s + length (ra_results s) + of_bool (ra_timer s) + 3 * of_bool (\<not> ra_fallbackStarted s)"

lemma race_measure_step:
  assumes "race_step prim fb s s'" "race_inv s"
  shows "race_measure s' < race_measure s"
  using assms(1)
proof (cases rule: race_step.cases)
  case timer
  then show ?thesis using assms(2) by (simp add: race_inv_def race_measure_def running_def startFallback_def)
next
  case (result r rest)
  then show ?thesis using assms(2) by (cases r) (simp_all add: race_inv_def race_measure_def running_def startFallback_def receive_result_def Let_def)
qed (simp_all add: race_measure_def running_def)

lemma race_steps_bound:
  assumes "(race_step prim fb ^^ n) race_init s"
  shows "n + race_measure s \<le> 6"
  using assms
proof (induction n arbitrary: s)
  case 0
  then have "s = race_init" by simp
  then show ?case by (simp add: race_measure_def race_init_def running_def)
next
  case (Suc n)
  then obtain t where t: "(race_step prim fb ^^ n) race_init t" "race_step prim fb t s" by auto
  then have "race_inv t" using race_machine.holds_after_n by metis
  then show ?case using Suc.IH [OF t(1)] race_measure_step [OF t(2)] by simp
qed

text \<open>A race that cannot go on has returned, and the loser has been closed.\<close>

lemma race_final:
  assumes "race_inv s" "\<nexists>s'. race_step prim fb s s'" "\<exists>r. prim r" "\<exists>r. fb r"
  shows "ra_return s \<noteq> None" "running s = 0" "ra_results s = []"
proof -
  have run: "\<not> ra_primary s" "\<not> ra_fallback s" using assms(2-4) race_step.primary_done race_step.fallback_done by blast+
  then show "running s = 0" by (simp add: running_def)
  have res: "ra_results s = [] \<or> ra_return s \<noteq> None \<and> \<not> ra_loser s"
    using assms(2) race_step.result race_step.loser by (metis neq_Nil_conv)
  show ret: "ra_return s \<noteq> None" using assms(1) res run by (auto simp: race_inv_def running_def split: option.splits)
  show "ra_results s = []" using assms(1) res run ret by (auto simp: race_inv_def running_def split: sum.splits)
qed


text \<open>Every connection of the race was delivered by a family.\<close>

lemma race_opened:
  assumes "(race_step prim fb)\<^sup>*\<^sup>* race_init s" "c \<in> set (ra_opened s)"
  shows "prim (Inr c) \<or> fb (Inr c)"
  using assms
proof (induction rule: rtranclp_induct)
  case (step s s')
  have "ra_opened (receive_result r t) = ra_opened t" "ra_opened (startFallback t) = ra_opened t" for r :: "'a result" and t
    by (auto simp: race_simps split: sum.splits)
  with step(2) have "c \<in> set (ra_opened s) \<or> (\<exists>r. (prim r \<or> fb r) \<and> c \<in> set (conns_of r))"
    using step.prems by (cases rule: race_step.cases) auto
  then show ?case using step.IH by (auto simp: conns_of_def split: sum.splits)
qed (simp add: race_init_def)

lemma dialParallel_conn:
  assumes "dialParallel_returns env dl network addrs port (Inr c)" "families (Is4 (hd addrs)) addrs ([], []) = (p, f)"
  shows "serial_results env dl network p port (Inr c) \<or> serial_results env dl network f port (Inr c)"
proof (cases "f = []")
  case False
  then obtain s where s: "(race_step (serial_results env dl network p port) (serial_results env dl network f port))\<^sup>*\<^sup>* race_init s"
    "ra_return s = Some (Inr c)" using assms by (auto simp: dialParallel_returns_def)
  then have "c \<in># mset (ra_opened s)" using race_inv_reachable [OF s(1)] by (auto simp: race_inv_def)
  then show ?thesis using race_opened [OF s(1)] by simp
qed (use assms in \<open>simp add: dialParallel_returns_def\<close>)

lemma vetted_ok_iff: "vetted_ok v addr \<longleftrightarrow> SplitHostPort addr = Inr (v_host v, itoa (unat (v_port v))) \<and> v_addrs v \<noteq> []"
  by (auto simp: vetted_ok_def split: sum.splits)

lemma vetted_dial_conn:
  assumes "vetted_dial env v dl now network addr (Inr c)"
  shows "vetted_ok v addr" "\<exists>a \<in> set (v_addrs v). \<exists>d w. fst (de_dial env d network (addrport_String a (unat (v_port v))) w) = Inr c"
proof -
  show ok: "vetted_ok v addr" using assms by (auto simp: vetted_dial_def split: if_splits)
  then have ne: "v_addrs v \<noteq> []" by (auto simp: vetted_ok_def split: sum.splits)
  obtain p f where pf: "families (Is4 (hd (v_addrs v))) (v_addrs v) ([], []) = (p, f)" by (metis surj_pair)
  note fam = families_split [OF pf ne]
  have "\<exists>dl'. serial_results env dl' network p (v_port v) (Inr c) \<or> serial_results env dl' network f (v_port v) (Inr c)"
    using assms ok pf dialParallel_conn by (fastforce simp: vetted_dial_def)
  then show "\<exists>a \<in> set (v_addrs v). \<exists>d w. fst (de_dial env d network (addrport_String a (unat (v_port v))) w) = Inr c"
    using fam(1,2) dialSerial_loop_from unfolding serial_results_def dialSerial_def by (metis subsetD)
qed

section \<open>Properties\<close>

text \<open>
  C5.  Nothing but a vetted address is dialled.  A dial of another host or port than the vetted
  one, or without vetted addresses, is refused without dialling; a connection that a dial returns
  came from the dialer for the address and port of a vetted address; and the dial of a family, with the
  calls of the dialer recorded, calls it at most three times, only for vetted addresses, never
  beyond the deadline, and with at least two seconds unless the deadline comes first.
\<close>

theorem dial_only_vetted:
  assumes "vetted_dial env v dl now network addr r"
  shows "(SplitHostPort addr \<noteq> Inr (v_host v, itoa (unat (v_port v))) \<or> v_addrs v = [] \<longrightarrow> r = Inl errNotVetted) \<and>
    (\<forall>c. r = Inr c \<longrightarrow> SplitHostPort addr = Inr (v_host v, itoa (unat (v_port v))) \<and>
       (\<exists>a \<in> set (v_addrs v). \<exists>d w. fst (de_dial env d network (addrport_String a (unat (v_port v))) w) = Inr c)) \<and>
    (\<forall>is4 family w d r' w' calls. family \<in> {fst (families is4 (v_addrs v) ([], [])), snd (families is4 (v_addrs v) ([], []))} \<longrightarrow>
       dialSerial (recording env) (Some d) network family (v_port v) (w, []) = (r', (w', calls)) \<longrightarrow>
       length calls \<le> 3 \<and>
       (\<forall>(t, d', addr') \<in> set calls. (\<exists>a \<in> set (v_addrs v). addr' = addrport_String a (unat (v_port v))) \<and>
          (\<exists>e. d' = Some e \<and> e \<le> d \<and> min d (t + 2 * 10 ^ 9) \<le> e)))"
proof (intro conjI allI impI)
  show "r = Inl errNotVetted" if "SplitHostPort addr \<noteq> Inr (v_host v, itoa (unat (v_port v))) \<or> v_addrs v = []"
    using assms that by (auto simp: vetted_dial_def vetted_ok_iff)
next
  fix c assume c: "r = Inr c"
  show "SplitHostPort addr = Inr (v_host v, itoa (unat (v_port v)))"
    "\<exists>a \<in> set (v_addrs v). \<exists>d w. fst (de_dial env d network (addrport_String a (unat (v_port v))) w) = Inr c"
    using vetted_dial_conn [OF assms [unfolded c]] by (simp_all add: vetted_ok_iff)
next
  fix is4 family w d r' w' calls
  assume f: "family \<in> {fst (families is4 (v_addrs v) ([], [])), snd (families is4 (v_addrs v) ([], []))}"
    and run: "dialSerial (recording env) (Some d) network family (v_port v) (w, []) = (r', (w', calls))"
  have fam: "set family \<subseteq> set (v_addrs v)" "length family \<le> 3"
    using f by (auto simp: families_take maxAddrsPerFamily_def dest!: in_set_takeD)
  show "length calls \<le> 3"
    using dialSerial_calls_length [of env "Some d" network "v_port v" family "[]" w "[]"] run fam(2) by (simp add: dialSerial_def)
  let ?P = "\<lambda>t d' addr'. (\<exists>a \<in> set (v_addrs v). addr' = addrport_String a (unat (v_port v))) \<and> attempt_ok (Some d) t d'"
  have "calls_ok ?P (snd (dialSerial_loop (recording env) (Some d) network (v_port v) family [] (w, [])))"
    by (rule recorder.dialSerial_loop_keeps) (use fam(1) in \<open>auto simp: calls_ok_def\<close>)
  then have "calls_ok ?P (w', calls)" using run by (simp add: dialSerial_def)
  then show "\<forall>(t, d', addr') \<in> set calls. (\<exists>a \<in> set (v_addrs v). addr' = addrport_String a (unat (v_port v))) \<and>
      (\<exists>e. d' = Some e \<and> e \<le> d \<and> min d (t + 2 * 10 ^ 9) \<le> e)"
    by (fastforce simp: calls_ok_def attempt_ok_def minAttemptTimeout_def split: option.splits)
qed

definition demo_dial_env :: "(string, nat) dial_env" where
  "demo_dial_env = \<lparr>de_dial = (\<lambda>dl network addr w. (Inr addr, Suc w)), de_now = int, de_done = (\<lambda>dl w. False)\<rparr>"

definition demo_vetted :: vetted where
  "demo_vetted = \<lparr>v_host = ''a.com'', v_port = 443, v_addrs = [Addr4 0x08080808], v_idle = 0\<rparr>"

theorem dial_only_vetted_witness:
  "SplitHostPort ''a.com:443'' = Inr (v_host demo_vetted, itoa (unat (v_port demo_vetted))) \<and>
   (\<exists>a. a \<in> set (v_addrs demo_vetted) \<and>
     (\<exists>d w. fst (de_dial demo_dial_env d ''tcp'' (addrport_String a 443) w) = Inr ''8.8.8.8:443''))"
proof -
  have ok: "vetted_ok demo_vetted ''a.com:443''"
    by (simp add: vetted_ok_def demo_vetted_def eval_simps)
  have "vetted_dial demo_dial_env demo_vetted None 0 ''tcp'' ''a.com:443'' (Inr ''8.8.8.8:443'')"
    by (simp add: vetted_dial_def ok dialParallel_returns_def serial_results_def dialSerial_def demo_dial_env_def)
      (simp add: demo_vetted_def maxAddrsPerFamily_def eval_simps)
  from dial_only_vetted [OF this] show ?thesis by (auto simp: demo_vetted_def)
qed

text \<open>
  C35.  The race of the two families ends: it takes at most six steps, and when no step is left the
  dial has returned, no goroutine runs and no result is left in the channel, whatever the dialer
  does; so a parallel dial always returns something.
\<close>

theorem race_terminates:
  assumes "(race_step (serial_results env dl network primary port) (serial_results env dl network fallback port) ^^ n) race_init s"
  shows "n \<le> 6 \<and>
    ((\<nexists>s'. race_step (serial_results env dl network primary port) (serial_results env dl network fallback port) s s') \<longrightarrow>
       ra_return s \<noteq> None \<and> \<not> ra_primary s \<and> \<not> ra_fallback s \<and> ra_results s = [] \<and> \<not> ra_loser s)"
proof (intro conjI impI)
  show "n \<le> 6" using race_steps_bound [OF assms] by simp
  have inv: "race_inv s" using race_machine.holds_after_n [OF assms refl] .
  assume stuck: "\<nexists>s'. race_step (serial_results env dl network primary port) (serial_results env dl network fallback port) s s'"
  have ex: "\<exists>r. serial_results env dl network as port r" for as by (auto simp: serial_results_def)
  note f = race_final [OF inv stuck ex ex]
  show "ra_return s \<noteq> None" "\<not> ra_primary s" "\<not> ra_fallback s" "ra_results s = []" using f by (auto simp: running_def)
  show "\<not> ra_loser s" using f inv by (auto simp: race_inv_def split: option.splits sum.splits)
qed

theorem race_terminates_witness:
  "(\<exists>s :: string race. (race_step (serial_results demo_dial_env None ''tcp'' [] 1) (serial_results demo_dial_env None ''tcp'' [] 1) ^^ 1) race_init s) \<and>
   (1 :: nat) \<le> 6"
proof -
  let ?s = "(startFallback (race_init :: string race))\<lparr>ra_timer := False\<rparr>"
  let ?step = "race_step (serial_results demo_dial_env None ''tcp'' [] 1) (serial_results demo_dial_env None ''tcp'' [] 1)"
  have "?step race_init ?s" by (rule race_step.timer) (simp_all add: race_init_def)
  then have s: "(?step ^^ 1) race_init ?s" by (simp only: relpowp_1)
  from race_terminates [OF s] s show ?thesis by blast
qed

text \<open>
  C16.  No connection of a race is lost and none is used twice: every connection a goroutine opened
  is, at any time, exactly one of returned to the caller, closed as the loser, or waiting in the
  channel where the loser is received; an error is returned only after both families failed, with both
  errors, and then no connection was opened.
\<close>

theorem race_no_leak:
  assumes "(race_step prim fb)\<^sup>*\<^sup>* race_init s"
  shows "mset (ra_opened s) = mset (case ra_return s of Some (Inr c) \<Rightarrow> [c] | _ \<Rightarrow> []) + mset (ra_closed s) +
      mset (concat (map conns_of (ra_results s))) \<and>
    (ra_return s \<noteq> None \<and> ra_results s \<noteq> [] \<longrightarrow> ra_loser s) \<and>
    (ra_return s = None \<longrightarrow> ra_closed s = []) \<and>
    (\<forall>e. ra_return s = Some (Inl e) \<longrightarrow> (\<exists>e1 e2. e = ErrJoin [e1, e2]) \<and> ra_opened s = [] \<and> ra_fallbackStarted s)"
  using race_inv_reachable [OF assms]
  by (cases "ra_loser s") (auto simp: race_inv_def queued_def length_Suc_conv numeral_2_eq_2 split: option.splits sum.splits)

text \<open>Both families connect: the fallback's connection is returned, the other one is closed.\<close>

definition demo_race :: "nat race" where
  "demo_race = \<lparr>ra_pending = 1, ra_fallbackStarted = True, ra_errs = [], ra_return = Some (Inr 6), ra_primary = False,
     ra_fallback = False, ra_results = [], ra_timer = False, ra_loser = False, ra_closed = [4], ra_opened = [6, 4]\<rparr>"

lemma demo_race_reachable: "(race_step ((=) (Inr 4)) ((=) (Inr 6)))\<^sup>*\<^sup>* race_init demo_race"
proof -
  let ?step = "race_step ((=) (Inr 4 :: nat result)) ((=) (Inr 6))"
  note defs = race_init_def startFallback_def conns_of_def receive_result_def
  define s1 where "s1 = (startFallback (race_init :: nat race))\<lparr>ra_timer := False\<rparr>"
  define s2 where "s2 = s1\<lparr>ra_fallback := False, ra_results := ra_results s1 @ [Inr 6], ra_opened := ra_opened s1 @ conns_of (Inr 6)\<rparr>"
  define s3 where "s3 = receive_result (Inr 6) (s2\<lparr>ra_results := []\<rparr>)"
  define s4 where "s4 = s3\<lparr>ra_primary := False, ra_results := ra_results s3 @ [Inr 4], ra_opened := ra_opened s3 @ conns_of (Inr 4)\<rparr>"
  define s5 where "s5 = s4\<lparr>ra_results := [], ra_loser := False, ra_closed := ra_closed s4 @ conns_of (Inr 4 :: nat result)\<rparr>"
  note ss = s1_def s2_def s3_def s4_def s5_def
  have "?step race_init s1" unfolding s1_def by (rule race_step.timer) (simp_all add: defs)
  moreover have "?step s1 s2" unfolding s2_def by (rule race_step.fallback_done) (simp_all add: defs ss)
  moreover have "?step s2 s3" unfolding s3_def by (rule race_step.result) (simp_all add: defs ss)
  moreover have "?step s3 s4" unfolding s4_def by (rule race_step.primary_done) (simp_all add: defs ss)
  moreover have "?step s4 s5" unfolding s5_def by (rule race_step.loser) (simp_all add: defs ss)
  moreover have "s5 = demo_race" by (simp add: defs ss demo_race_def)
  ultimately show ?thesis by (meson rtranclp.rtrancl_into_rtrancl rtranclp.rtrancl_refl)
qed

theorem race_no_leak_witness: "mset (ra_opened demo_race) = mset [6] + mset (ra_closed demo_race)"
  using race_no_leak [OF demo_race_reachable] by (simp add: demo_race_def)

end
