(* ===== verification/Netip_Text.thy ===== *)
theory Netip_Text
  imports Netip
begin

text \<open>
  The text of an address determines it: \<^verbatim>\<open>Addr.String\<close> is injective on the addresses that the policy
  hands out.  The keys of the upstream pools rely on it.
\<close>

section \<open>The text of an address\<close>

lemma byte_hex_digit: "d < 16 \<Longrightarrow> byte (hex_digit d) = (if d < 10 then 48 + d else 87 + d)"
proof -
  assume "d < 16"
  then have "48 + d < 256" "\<not> d < 10 \<Longrightarrow> 97 + (d - 10) = 87 + d" "87 + d < 256" by auto
  then show ?thesis by (auto simp: hex_digit_def digit_char_def)
qed

lemma hex_digit_inject:
  assumes "d < 16" "e < 16"
  shows "hex_digit d = hex_digit e \<longleftrightarrow> d = e"
proof
  assume "hex_digit d = hex_digit e"
  then have "(if d < 10 then 48 + d else 87 + d) = (if e < 10 then 48 + e else 87 + e)" using byte_hex_digit assms by metis
  then show "d = e" by (auto split: if_splits)
qed simp

lemma hex_str_nonempty [simp]: "hex_str n \<noteq> []"
  by (subst hex_str.simps) auto

lemma hex_str_inject: "hex_str m = hex_str n \<longleftrightarrow> m = n"
proof (induction m arbitrary: n rule: hex_str.induct)
  case (1 m)
  show ?case
  proof (cases "m < 16")
    case True
    then show ?thesis by (subst (1 2) hex_str.simps) (auto simp: hex_digit_inject dest: sym)
  next
    case False
    have "m = n" if "m div 16 = n div 16" "m mod 16 = n mod 16" using that by (metis div_mult_mod_eq)
    then show ?thesis using False 1 [OF False, of "n div 16"]
      by (subst (1 2) hex_str.simps) (auto simp: hex_digit_inject)
  qed
qed

lemma set_hex_str: "c \<in> set (hex_str n) \<Longrightarrow> \<exists>d < 16. c = hex_digit d"
proof (induction n rule: hex_str.induct)
  case (1 n)
  have "n mod 16 < 16" by simp
  then have "\<exists>d < 16. hex_digit (n mod 16) = hex_digit d" by blast
  then show ?case using 1 by (cases "n < 16") (auto simp: hex_str.simps [of n])
qed

lemma hex_str_chars: "byte c \<notin> {48 .. 57} \<union> {97 .. 102} \<Longrightarrow> c \<notin> set (hex_str n)"
proof
  assume *: "byte c \<notin> {48 .. 57} \<union> {97 .. 102}" "c \<in> set (hex_str n)"
  then obtain d where "d < 16" "c = hex_digit d" using set_hex_str by blast
  then show False using * byte_hex_digit [of d] by (auto split: if_splits)
qed

text \<open>Numbers below a power of the base are equal when all their digits are.\<close>

lemma same_digits:
  fixes m n B :: nat
  assumes "\<And>i. i < k \<Longrightarrow> m div B ^ i mod B = n div B ^ i mod B"
  shows "m mod B ^ k = n mod B ^ k"
  using assms
proof (induction k)
  case (Suc k)
  have "x mod B ^ Suc k = B ^ k * (x div B ^ k mod B) + x mod B ^ k" for x
    using mod_mult2_eq [of x "B ^ k" B] by (simp add: mult.commute)
  then show ?case using Suc by simp
qed simp

lemma v4octets_inject: "v4octets a = v4octets b \<longleftrightarrow> a = b"
proof
  assume eq: "v4octets a = v4octets b"
  have d: "unat a div 256 ^ i mod 256 = unat b div 256 ^ i mod 256" if "i < 4" for i
  proof -
    have "i = 0 \<or> i = 1 \<or> i = 2 \<or> i = 3" using that by auto
    then show ?thesis using eq by (auto simp: v4octets_def)
  qed
  have "unat a mod 256 ^ 4 = unat b mod 256 ^ 4" by (rule same_digits) (rule d)
  moreover have "unat x < 256 ^ 4" for x :: "32 word" using unsigned_less [of x] by simp
  ultimately show "a = b" by (simp only: word_unat_eq_iff mod_less)
qed simp

lemma v6groups_nth: "i < 8 \<Longrightarrow> v6groups x ! (7 - i) = unat x div 65536 ^ i mod 65536"
proof -
  assume "i < 8"
  then have "i = 0 \<or> i = 1 \<or> i = 2 \<or> i = 3 \<or> i = 4 \<or> i = 5 \<or> i = 6 \<or> i = 7" by auto
  then show ?thesis by (elim disjE) (simp_all add: v6groups_def)
qed

lemma v6groups_inject: "v6groups a = v6groups b \<longleftrightarrow> a = b"
proof
  assume eq: "v6groups a = v6groups b"
  have "unat a mod 65536 ^ 8 = unat b mod 65536 ^ 8"
    by (rule same_digits) (simp only: v6groups_nth [symmetric] eq)
  moreover have "unat x < 65536 ^ 8" for x :: "128 word" using unsigned_less [of x] by simp
  ultimately show "a = b" by (simp only: word_unat_eq_iff mod_less)
qed simp

lemma string4_chars: "c \<in> set (string4 a) \<Longrightarrow> is_digit c \<or> c = CHR ''.''"
  by (auto simp: string4_def v4octets_def dest: set_itoa)

lemma string4_inject: "string4 a = string4 b \<longleftrightarrow> a = b"
proof
  assume eq: "string4 a = string4 b"
  have dot: "\<not> is_digit CHR ''.''" by (simp add: is_digit_def between_def)
  have "map itoa (v4octets a) = map itoa (v4octets b)"
    by (rule Join_inject [where c = "CHR ''.''"])
      (use eq dot in \<open>auto simp: string4_def v4octets_def dest: set_itoa\<close>)
  then have "v4octets a = v4octets b" by (rule map_injective) (simp add: inj_on_def)
  then show "a = b" by (simp add: v4octets_inject)
qed simp

text \<open>The groups of an IPv6 text, with the double colon filled up.\<close>

definition ungroup :: "string \<Rightarrow> string list" where
  "ungroup s =
     (let ps = Split CHR '':'' s; b = takeWhile (\<lambda>p. p \<noteq> []) ps; r = filter (\<lambda>p. p \<noteq> []) (drop (length b) ps)
      in b @ replicate (8 - length b - length r) ''0'' @ r)"

lemma best_zero_run_spec:
  assumes "best_zero_run gs is best = Some (s, e)"
    "best = Some (s, e) \<Longrightarrow> s < e \<and> e \<le> length gs \<and> (\<forall>i. s \<le> i \<and> i < e \<longrightarrow> gs ! i = 0)"
  shows "s < e \<and> e \<le> length gs \<and> (\<forall>i. s \<le> i \<and> i < e \<longrightarrow> gs ! i = 0)"
  using assms
proof (induction gs "is" best rule: best_zero_run.induct)
  case (2 gs i "is" best)
  define l where "l = zero_run gs i"
  have "i < i + l \<and> i + l \<le> length gs \<and> (\<forall>j. i \<le> j \<and> j < i + l \<longrightarrow> gs ! j = 0)" if "l \<ge> 2"
  proof -
    have le: "l \<le> length (drop i gs)" unfolding l_def zero_run_def by (rule length_takeWhile_le)
    have "gs ! j = 0" if "i \<le> j" "j < i + l" for j
    proof -
      have "takeWhile (\<lambda>g. g = 0) (drop i gs) ! (j - i) \<in> set (takeWhile (\<lambda>g. g = 0) (drop i gs))"
        using that by (intro nth_mem) (simp add: l_def zero_run_def)
      then have "takeWhile (\<lambda>g. g = 0) (drop i gs) ! (j - i) = 0" by (blast dest: set_takeWhileD)
      moreover have "takeWhile (\<lambda>g. g = 0) (drop i gs) ! (j - i) = drop i gs ! (j - i)"
        using that by (intro takeWhile_nth) (simp add: l_def zero_run_def)
      ultimately show ?thesis using that le \<open>l \<ge> 2\<close> by simp
    qed
    then show ?thesis using le that by auto
  qed
  then have "(if l \<ge> 2 \<and> l > (case best of None \<Rightarrow> 0 | Some (a, b) \<Rightarrow> b - a) then Some (i, i + l) else best) = Some (s, e) \<Longrightarrow>
      s < e \<and> e \<le> length gs \<and> (\<forall>j. s \<le> j \<and> j < e \<longrightarrow> gs ! j = 0)"
    using 2(3) by (cases "l \<ge> 2 \<and> l > (case best of None \<Rightarrow> 0 | Some (a, b) \<Rightarrow> b - a)") (simp only: if_True if_False simp_thms option.inject prod.inject; blast)+
  then show ?case using 2(1) [OF refl refl] 2(2) unfolding best_zero_run.simps Let_def l_def by blast
qed simp

lemma string6_None:
  "best_zero_run (v6groups x) [0, 1, 2, 3, 4, 5, 6, 7] None = None \<Longrightarrow> string6 x = Join '':'' (map hex_str (v6groups x))"
  by (simp only: string6_def Let_def option.case)

lemma string6_Some:
  "best_zero_run (v6groups x) [0, 1, 2, 3, 4, 5, 6, 7] None = Some (s, e) \<Longrightarrow>
   string6 x = Join '':'' (map hex_str (take s (v6groups x))) @ ''::'' @ Join '':'' (map hex_str (drop e (v6groups x)))"
  by (simp only: string6_def Let_def option.case prod.case)

lemma ungroup_string6: "ungroup (string6 a) = map hex_str (v6groups a)"
proof -
  define gs where "gs = v6groups a"
  have len: "length gs = 8" by (simp add: gs_def v6groups_def)
  have colon: "CHR '':'' \<notin> set (hex_str g)" for g by (rule hex_str_chars) simp
  have ne: "filter (\<lambda>p. p \<noteq> []) (map hex_str gs') = map hex_str gs'" "takeWhile (\<lambda>p. p \<noteq> []) (map hex_str gs') = map hex_str gs'" for gs'
    by (auto simp: filter_id_conv takeWhile_eq_all_conv)
  have split: "Split CHR '':'' (Join '':'' (map hex_str gs')) = (if gs' = [] then [[]] else map hex_str gs')" for gs'
    using Split_Join [of "map hex_str gs'" "CHR '':''"] colon by auto
  show ?thesis
  proof (cases "best_zero_run gs [0, 1, 2, 3, 4, 5, 6, 7] None")
    case None
    then have "Split CHR '':'' (string6 a) = map hex_str gs" using split [of gs] len string6_None [of a] by (auto simp only: gs_def [symmetric] list.size split: if_splits)
    then show ?thesis using len by (simp add: ungroup_def ne gs_def)
  next
    case (Some p)
    obtain s e where p: "p = (s, e)" by (cases p)
    have z: "s < e" "e \<le> 8" "\<And>i. s \<le> i \<Longrightarrow> i < e \<Longrightarrow> gs ! i = 0"
      using best_zero_run_spec [OF Some [unfolded p]] len by auto
    have "gs = take s gs @ take (e - s) (drop s gs) @ drop e gs"
      using z(1) by (metis add_diff_inverse_nat append_take_drop_id drop_drop add.commute less_imp_le not_less)
    moreover have "take (e - s) (drop s gs) = replicate (e - s) 0"
      by (rule nth_equalityI) (use z len in auto)
    ultimately have gs: "gs = take s gs @ replicate (e - s) 0 @ drop e gs" by simp
    have "hex_str 0 = ''0''" by (simp add: hex_str.simps hex_digit_def digit_char_def char_of_def bit_iff_odd)
    then have m: "map hex_str gs = map hex_str (take s gs) @ replicate (e - s) ''0'' @ map hex_str (drop e gs)"
      by (subst gs) simp
    have str: "string6 a = Join '':'' (map hex_str (take s gs)) @ CHR '':'' # [] @ CHR '':'' # Join '':'' (map hex_str (drop e gs))"
      using string6_Some [of a s e] Some p by (simp only: gs_def [symmetric] append.simps)
    define A where "A = map hex_str (take s gs)"
    define B where "B = map hex_str (drop e gs)"
    have AB: "length A = s" "length B = 8 - e" "[] \<notin> set A" "[] \<notin> set B" using z len by (auto simp: A_def B_def hex_str_nonempty [THEN not_sym])
    have "Split CHR '':'' (string6 a) = (if A = [] then [[]] else A) @ [] # (if B = [] then [[]] else B)"
      unfolding str Split_append split by (simp add: A_def B_def)
    moreover have "takeWhile (\<lambda>p. p \<noteq> []) (A @ [] # xs) = A" "filter (\<lambda>p. p \<noteq> []) A = A" "filter (\<lambda>p. p \<noteq> []) B = B" for xs
      using AB by (auto simp: takeWhile_tail filter_id_conv) 
    ultimately have "ungroup (string6 a) = A @ replicate (8 - s - (8 - e)) ''0'' @ B"
      using AB by (auto simp: ungroup_def Let_def)
    then show ?thesis using m z by (simp add: A_def B_def gs_def)
  qed
qed

lemma string6_inject: "string6 a = string6 b \<longleftrightarrow> a = b"
proof
  assume "string6 a = string6 b"
  then have "map hex_str (v6groups a) = map hex_str (v6groups b)" using ungroup_string6 by metis
  then have "v6groups a = v6groups b" by (rule map_injective) (simp add: inj_on_def hex_str_inject)
  then show "a = b" by (simp add: v6groups_inject)
qed simp


text \<open>What the policy promises of an address: valid, without zone, and not an IPv4 address in IPv6 form.\<close>

definition plain_addr :: "addr \<Rightarrow> bool" where
  "plain_addr a \<longleftrightarrow> IsValid a \<and> Zone a = [] \<and> \<not> Is4In6 a"

lemma plain_addr_cases:
  assumes "plain_addr a"
  obtains (v4) x where "a = Addr4 x" "addr_String a = string4 x" | (v6) x where "a = Addr6 x []" "addr_String a = string6 x"
  using assms by (cases a) (auto simp: plain_addr_def)

lemma Join_sep_mem: "2 \<le> length ls \<Longrightarrow> c \<in> set (Join [c] ls)"
  by (cases "([c], ls)" rule: Join.cases) auto

lemma string6_colon: "CHR '':'' \<in> set (string6 x)"
proof (cases "best_zero_run (v6groups x) [0, 1, 2, 3, 4, 5, 6, 7] None")
  case None
  have "2 \<le> length (map hex_str (v6groups x))" by (simp add: v6groups_def)
  then show ?thesis unfolding string6_None [OF None] by (rule Join_sep_mem)
next
  case (Some p)
  then have "best_zero_run (v6groups x) [0, 1, 2, 3, 4, 5, 6, 7] None = Some (fst p, snd p)" by (simp only: prod.collapse)
  from string6_Some [OF this] show ?thesis by simp
qed

lemma string6_chars:
  assumes "c \<in> set (string6 x)"
  shows "c = CHR '':'' \<or> (\<exists>g. c \<in> set (hex_str g))"
proof -
  have j: "c \<in> set (Join '':'' (map hex_str gs)) \<Longrightarrow> c = CHR '':'' \<or> (\<exists>g. c \<in> set (hex_str g))" for gs
    by (induction gs rule: induct_list012) auto
  show ?thesis
  proof (cases "best_zero_run (v6groups x) [0, 1, 2, 3, 4, 5, 6, 7] None")
    case None
    then show ?thesis using assms j by (simp only: string6_None)
  next
    case (Some p)
    obtain s e where p: "p = (s, e)" by (cases p)
    have "string6 x = Join '':'' (map hex_str (take s (v6groups x))) @ ''::'' @ Join '':'' (map hex_str (drop e (v6groups x)))"
      using Some p by (simp only: string6_Some)
    then show ?thesis using assms j by auto
  qed
qed

lemma addr_String_inject:
  assumes "plain_addr a" "plain_addr b" "addr_String a = addr_String b"
  shows "a = b"
proof -
  have no: "string4 x \<noteq> string6 y" for x y
  proof
    assume "string4 x = string6 y"
    then have "CHR '':'' \<in> set (string4 x)" using string6_colon [of y] by simp
    then show False using string4_chars by (fastforce simp: is_digit_def between_def)
  qed
  show ?thesis using assms(3) no
    by (cases rule: plain_addr_cases [OF assms(1)]; cases rule: plain_addr_cases [OF assms(2)])
      (auto simp: string4_inject string6_inject dest: sym)
qed

lemma addr_String_no_sep:
  assumes "plain_addr a"
  shows "CHR '','' \<notin> set (addr_String a)"
  using assms
proof (cases rule: plain_addr_cases)
  case (v4 x)
  then show ?thesis using string4_chars [of "CHR '',''" x] by (auto simp: is_digit_def between_def)
next
  case (v6 x)
  have "CHR '','' \<notin> set (hex_str g)" for g by (rule hex_str_chars) simp
  then show ?thesis using v6 string6_chars [of "CHR '',''" x] by auto
qed

end
