(* ===== verification/Go_Map.thy ===== *)
theory Go_Map
  imports Prelude "HOL-Library.AList" "HOL-Library.Multiset"
begin

text \<open>
  Go maps as association lists with distinct keys: assignment is \<^const>\<open>AList.update\<close>, \<^verbatim>\<open>delete\<close> a filter.
\<close>

section \<open>Association lists with distinct keys\<close>

lemma mset_filter_key:
  "distinct (map fst xs) \<Longrightarrow> map_of xs k = Some p \<Longrightarrow> mset xs = add_mset (k, p) (mset (filter (\<lambda>(j, _). j \<noteq> k) xs))"
proof (induction xs)
  case (Cons x xs)
  then show ?case
  proof (cases "fst x = k")
    case True
    then have "filter (\<lambda>(j, _). j \<noteq> k) xs = xs" using Cons.prems by (auto simp: filter_id_conv image_iff)
    then show ?thesis using True Cons.prems by (cases x) auto
  qed auto
qed simp

lemma update_new: "map_of xs k = None \<Longrightarrow> AList.update k v xs = xs @ [(k, v)]"
  by (induction xs) (auto split: if_splits)

lemma mset_update:
  "distinct (map fst xs) \<Longrightarrow> map_of xs k = Some p \<Longrightarrow> mset (AList.update k v xs) = add_mset (k, v) (mset (filter (\<lambda>(j, _). j \<noteq> k) xs))"
proof (induction xs)
  case (Cons x xs)
  then show ?case
  proof (cases "fst x = k")
    case True
    then have "filter (\<lambda>(j, _). j \<noteq> k) xs = xs" using Cons.prems by (auto simp: filter_id_conv image_iff)
    then show ?thesis using True Cons.prems by (cases x) auto
  qed (cases x, auto)
qed simp

lemma distinct_map_filter_fst: "distinct (map f xs) \<Longrightarrow> distinct (map f (filter P xs))"
  by (rule distinct_map_filter)

lemma length_update: "length (AList.update k v xs) = (if map_of xs k = None then Suc (length xs) else length xs)"
  by (induction xs) (auto split: if_splits)

lemma in_set_update: "(j, w) \<in> set (AList.update k v xs) \<Longrightarrow> (j, w) = (k, v) \<or> (j, w) \<in> set xs"
  by (induction xs) (auto split: if_splits)

end
