(* ===== verification/Upstream.thy ===== *)
theory Upstream
  imports Dial Netip_Text Go_Map "HOL-Library.List_Lexorder" "HOL-Library.Char_ord"
begin

text \<open>
  \<^verbatim>\<open>internal/proxy/upstream.go\<close>: the pools of plain HTTP connections to upstream servers.

  The map of pools is an association list with distinct keys.  Go visits a map in any order, so an
  operation whose result can depend on the order takes it as an argument.  An \<^verbatim>\<open>http.Transport\<close>
  has an identity (the number of the allocation); its dialer is the vetted destination it was made
  for.  \<open>up_closed\<close> lists the transports that were told to close their idle connections.
\<close>

section \<open>Keys\<close>

definition maxUpstreamPools :: nat where "maxUpstreamPools = 1024"
definition upstreamIdleTimeout :: duration where "upstreamIdleTimeout = 30 * 10 ^ 9"
definition maxResponseHeaderBytes :: int where "maxResponseHeaderBytes = 2 ^ 20"
definition maxIdlePerDestination :: int where "maxIdlePerDestination = 32"

definition poolKey :: "string \<Rightarrow> vetted \<Rightarrow> string" where
  "poolKey scheme v =
     scheme @ ''|'' @ v_host v @ ''|'' @ itoa (unat (v_port v)) @ ''|'' @ Join '','' (sort (map addr_String (v_addrs v)))"

section \<open>Pools\<close>

record upstreamTransport =
  ut_id :: nat
  ut_DialContext :: vetted
  ut_MaxIdleConnsPerHost :: int
  ut_IdleConnTimeout :: duration
  ut_TLSHandshakeTimeout :: duration
  ut_MaxResponseHeaderBytes :: int
  ut_DisableCompression :: bool

record upstreamPool =
  po_tr :: upstreamTransport
  po_used :: time

record upstreamPools =
  up_pools :: "(string \<times> upstreamPool) list"
  up_made :: nat
  up_closed :: "nat list"

definition newUpstreamPools :: upstreamPools where
  "newUpstreamPools = \<lparr>up_pools = [], up_made = 0, up_closed = []\<rparr>"

definition newUpstreamTransport :: "nat \<Rightarrow> vetted \<Rightarrow> upstreamTransport" where
  "newUpstreamTransport n v =
     \<lparr>ut_id = n, ut_DialContext = v, ut_MaxIdleConnsPerHost = maxIdlePerDestination, ut_IdleConnTimeout = upstreamIdleTimeout,
      ut_TLSHandshakeTimeout = 10 * 10 ^ 9, ut_MaxResponseHeaderBytes = maxResponseHeaderBytes, ut_DisableCompression = True\<rparr>"

text \<open>\<^verbatim>\<open>p.tr.CloseIdleConnections(); delete(u.pools, k)\<close>\<close>

definition drop_pool :: "string \<Rightarrow> upstreamPools \<Rightarrow> upstreamPools" where
  "drop_pool k u =
     (case map_of (up_pools u) k of
        None \<Rightarrow> u
      | Some p \<Rightarrow> u\<lparr>up_pools := filter (\<lambda>(j, _). j \<noteq> k) (up_pools u), up_closed := up_closed u @ [ut_id (po_tr p)]\<rparr>)"

text \<open>The loop of \<^verbatim>\<open>dropOldestLocked\<close> over the map, in the order it visits it.\<close>

fun oldest_key :: "(string \<times> upstreamPool) list \<Rightarrow> (string \<times> upstreamPool) list \<Rightarrow> string \<Rightarrow> string" where
  "oldest_key pools [] oldest = oldest"
| "oldest_key pools ((k, p) # order) oldest =
     oldest_key pools order
       (if oldest = [] \<or> (case map_of pools oldest of None \<Rightarrow> False | Some q \<Rightarrow> po_used p < po_used q) then k else oldest)"

definition dropOldestLocked :: "(string \<times> upstreamPool) list \<Rightarrow> upstreamPools \<Rightarrow> upstreamPools" where
  "dropOldestLocked order u =
     (let oldest = oldest_key (up_pools u) order []
      in if oldest \<noteq> [] then drop_pool oldest u else u)"

definition transport ::
  "upstreamPools \<Rightarrow> string \<Rightarrow> vetted \<Rightarrow> time \<Rightarrow> (string \<times> upstreamPool) list \<Rightarrow> upstreamTransport \<times> upstreamPools" where
  "transport u scheme v now order =
     (let key = poolKey scheme v in
      case map_of (up_pools u) key of
        Some p \<Rightarrow> (po_tr p, u\<lparr>up_pools := AList.update key (p\<lparr>po_used := now\<rparr>) (up_pools u)\<rparr>)
      | None \<Rightarrow>
          (let u1 = (if length (up_pools u) \<ge> maxUpstreamPools then dropOldestLocked order u else u);
               tr = newUpstreamTransport (up_made u1) v
           in (tr, u1\<lparr>up_pools := AList.update key \<lparr>po_tr = tr, po_used = now\<rparr> (up_pools u1), up_made := Suc (up_made u1)\<rparr>)))"

text \<open>The loop of \<^verbatim>\<open>sweep\<close>.\<close>

fun sweep_pools :: "time \<Rightarrow> (string \<times> upstreamPool) list \<Rightarrow> upstreamPools \<Rightarrow> upstreamPools" where
  "sweep_pools now [] u = u"
| "sweep_pools now ((k, p) # order) u =
     sweep_pools now order (if time_Sub now (po_used p) > upstreamIdleTimeout then drop_pool k u else u)"

definition upstream_sweep :: "time \<Rightarrow> upstreamPools \<Rightarrow> upstreamPools" where
  "upstream_sweep now u = sweep_pools now (up_pools u) u"

text \<open>
  \<^verbatim>\<open>roundTrip\<close>, with the vetted destination \<open>None\<close> for a nil pointer and the \<^verbatim>\<open>RoundTrip\<close> of the
  transport as an argument.
\<close>

definition roundTrip ::
  "(upstreamTransport \<Rightarrow> 'resp result) \<Rightarrow> upstreamPools \<Rightarrow> string \<Rightarrow> vetted option \<Rightarrow> time \<Rightarrow> (string \<times> upstreamPool) list \<Rightarrow>
    'resp result \<times> upstreamPools" where
  "roundTrip rt u scheme ov now order =
     (case ov of
        None \<Rightarrow> (Inl errNotVetted, u)
      | Some v \<Rightarrow>
          if v_addrs v = [] then (Inl errNotVetted, u)
          else (case transport u scheme v now order of (tr, u1) \<Rightarrow> (rt tr, u1)))"

section \<open>Keys identify destinations\<close>

text \<open>What a check makes of a request: no separator in the host, and addresses as the policy gives them.\<close>

definition vetted_wf :: "vetted \<Rightarrow> bool" where
  "vetted_wf v \<longleftrightarrow> CHR ''|'' \<notin> set (v_host v) \<and> v_addrs v \<noteq> [] \<and> list_all plain_addr (v_addrs v)"

definition same_destination :: "vetted \<Rightarrow> vetted \<Rightarrow> bool" where
  "same_destination v w \<longleftrightarrow> v_host v = v_host w \<and> v_port v = v_port w \<and> mset (v_addrs v) = mset (v_addrs w)"

lemma image_mset_inject:
  assumes "image_mset f A = image_mset f B" "inj_on f (set_mset A \<union> set_mset B)"
  shows "A = B"
proof -
  let ?g = "the_inv_into (set_mset A \<union> set_mset B) f"
  have "image_mset ?g (image_mset f X) = X" if "set_mset X \<subseteq> set_mset A \<union> set_mset B" for X
    using that by (induction X) (auto simp: the_inv_into_f_f [OF assms(2)])
  then show ?thesis using assms(1) by (metis sup_ge1 sup_ge2)
qed

lemma poolKey_inject:
  assumes "vetted_wf v" "vetted_wf w" "CHR ''|'' \<notin> set s" "CHR ''|'' \<notin> set t"
  shows "poolKey s v = poolKey t w \<longleftrightarrow> s = t \<and> same_destination v w"
proof
  assume eq: "poolKey s v = poolKey t w"
  have bar: "CHR ''|'' \<notin> set (itoa n)" for n using set_itoa [of "CHR ''|''" n] by (auto simp: is_digit_def between_def)
  let ?j = "\<lambda>v. sort (map addr_String (v_addrs v))"
  have "s @ CHR ''|'' # v_host v @ CHR ''|'' # itoa (unat (v_port v)) @ CHR ''|'' # Join '','' (?j v) =
        t @ CHR ''|'' # v_host w @ CHR ''|'' # itoa (unat (v_port w)) @ CHR ''|'' # Join '','' (?j w)"
    using eq by (simp add: poolKey_def)
  then have parts: "s = t" "v_host v = v_host w" "unat (v_port v) = unat (v_port w)" "Join '','' (?j v) = Join '','' (?j w)"
    using assms bar by (simp_all add: sep_append_inject vetted_wf_def)
  have ne: "?j x \<noteq> []" if "vetted_wf x" for x
    using that by (metis map_is_Nil_conv mset_sort mset_zero_iff vetted_wf_def)
  have "?j v = ?j w"
    by (rule Join_inject [where c = "CHR '',''"])
      (use parts(4) assms ne addr_String_no_sep in \<open>auto simp: vetted_wf_def list_all_iff\<close>)
  then have "image_mset addr_String (mset (v_addrs v)) = image_mset addr_String (mset (v_addrs w))"
    by (metis mset_map mset_sort)
  moreover have "inj_on addr_String (set_mset (mset (v_addrs v)) \<union> set_mset (mset (v_addrs w)))"
    using assms addr_String_inject by (auto simp: inj_on_def vetted_wf_def list_all_iff)
  ultimately have "mset (v_addrs v) = mset (v_addrs w)" by (rule image_mset_inject)
  then show "s = t \<and> same_destination v w" using parts by (simp add: same_destination_def word_unat_eq_iff)
next
  assume "s = t \<and> same_destination v w"
  then have "sort (map addr_String (v_addrs v)) = sort (map addr_String (v_addrs w))"
    by (intro properties_for_sort) (auto simp: same_destination_def)
  then show "poolKey s v = poolKey t w" using \<open>s = t \<and> same_destination v w\<close> by (simp add: poolKey_def same_destination_def)
qed


section \<open>The invariant of the pools\<close>

text \<open>
  Distinct keys, at most 1024 pools; a pool's key is that of the destination its transport dials;
  and every transport that was made is in the map or was told to close its idle connections, once.
\<close>

definition pool_ok :: "string \<times> upstreamPool \<Rightarrow> bool" where
  "pool_ok kp \<longleftrightarrow> vetted_wf (ut_DialContext (po_tr (snd kp))) \<and>
     (\<exists>s. CHR ''|'' \<notin> set s \<and> fst kp = poolKey s (ut_DialContext (po_tr (snd kp))))"

abbreviation pool_id :: "string \<times> upstreamPool \<Rightarrow> nat" where
  "pool_id kp \<equiv> ut_id (po_tr (snd kp))"

definition pools_inv :: "upstreamPools \<Rightarrow> bool" where
  "pools_inv u \<longleftrightarrow> distinct (map fst (up_pools u)) \<and> length (up_pools u) \<le> maxUpstreamPools \<and> list_all pool_ok (up_pools u) \<and>
     image_mset pool_id (mset (up_pools u)) + mset (up_closed u) = mset [0..<up_made u]"

lemma poolKey_nonempty [simp]: "poolKey s v \<noteq> []"
  by (simp add: poolKey_def)

lemma pool_ok_key: "pool_ok kp \<Longrightarrow> fst kp \<noteq> []"
  by (auto simp: pool_ok_def poolKey_nonempty [THEN not_sym])

lemma drop_pool_Some:
  assumes "pools_inv u" "map_of (up_pools u) k = Some p"
  shows "mset (up_pools u) = add_mset (k, p) (mset (up_pools (drop_pool k u)))"
    "up_closed (drop_pool k u) = up_closed u @ [ut_id (po_tr p)]" "up_made (drop_pool k u) = up_made u"
    "up_pools (drop_pool k u) = filter (\<lambda>(j, _). j \<noteq> k) (up_pools u)"
  using assms mset_filter_key [of "up_pools u" k p] by (simp_all add: drop_pool_def pools_inv_def)

lemma drop_pool_length:
  assumes "pools_inv u" "map_of (up_pools u) k = Some p"
  shows "length (up_pools u) = Suc (length (up_pools (drop_pool k u)))"
  using arg_cong [OF drop_pool_Some(1) [OF assms], of size] by simp

lemma drop_pool_inv:
  assumes "pools_inv u"
  shows "pools_inv (drop_pool k u)"
proof (cases "map_of (up_pools u) k")
  case (Some p)
  note d = drop_pool_Some [OF assms Some]
  have "distinct (map fst (up_pools (drop_pool k u)))" "list_all pool_ok (up_pools (drop_pool k u))"
    using assms by (auto simp: d(4) pools_inv_def list_all_iff distinct_map_filter)
  moreover have "length (up_pools (drop_pool k u)) \<le> maxUpstreamPools"
    using assms drop_pool_length [OF assms Some] by (simp add: pools_inv_def)
  moreover have "image_mset pool_id (mset (up_pools (drop_pool k u))) + mset (up_closed (drop_pool k u)) = mset [0..<up_made (drop_pool k u)]"
    using assms unfolding pools_inv_def d(1-3) by simp
  ultimately show ?thesis by (simp only: pools_inv_def simp_thms)
qed (use assms in \<open>simp add: drop_pool_def\<close>)

lemma sweep_pools_inv: "pools_inv u \<Longrightarrow> pools_inv (sweep_pools now order u)"
  by (induction now order u rule: sweep_pools.induct) (auto simp: drop_pool_inv)

text \<open>The pool chosen to be dropped is one used least recently.\<close>

lemma oldest_key_min:
  assumes "list_all (\<lambda>(k, p). map_of pools k = Some p \<and> k \<noteq> []) order"
    and "o0 = [] \<or> map_of pools o0 = Some q0" and "order \<noteq> [] \<or> o0 \<noteq> []"
  shows "\<exists>q. oldest_key pools order o0 \<noteq> [] \<and> map_of pools (oldest_key pools order o0) = Some q \<and>
    (\<forall>(k, p) \<in> set order. po_used q \<le> po_used p) \<and> (o0 \<noteq> [] \<longrightarrow> po_used q \<le> po_used q0)"
  using assms
proof (induction order arbitrary: o0 q0)
  case (Cons x order)
  obtain k p where x: "x = (k, p)" by (cases x)
  let ?o = "if o0 = [] \<or> (case map_of pools o0 of None \<Rightarrow> False | Some q \<Rightarrow> po_used p < po_used q) then k else o0"
  let ?q = "if ?o = k then p else q0"
  have o: "?o \<noteq> []" "map_of pools ?o = Some ?q" "po_used ?q \<le> po_used p" "o0 \<noteq> [] \<longrightarrow> po_used ?q \<le> po_used q0"
    using Cons.prems x by (auto split: if_splits)
  obtain q where "oldest_key pools order ?o \<noteq> []" "map_of pools (oldest_key pools order ?o) = Some q"
      "\<forall>(k, p) \<in> set order. po_used q \<le> po_used p" "po_used q \<le> po_used ?q"
    using Cons.IH [of ?o ?q] Cons.prems(1) o by auto
  then show ?case using o x by (intro exI [of _ q]) (auto intro: order_trans)
qed auto


lemma dropOldest_spec:
  assumes "pools_inv u" "up_pools u \<noteq> []" "mset order = mset (up_pools u)"
  shows "\<exists>k p. map_of (up_pools u) k = Some p \<and> (\<forall>(j, q) \<in> set (up_pools u). po_used p \<le> po_used q) \<and>
    dropOldestLocked order u = drop_pool k u"
proof -
  have set: "set order = set (up_pools u)" using assms(3) by (metis set_mset_mset)
  have "list_all (\<lambda>(k, p). map_of (up_pools u) k = Some p \<and> k \<noteq> []) order"
    using assms(1) set pool_ok_key by (fastforce simp: pools_inv_def list_all_iff)
  moreover have "order \<noteq> []" using assms(2) set by auto
  ultimately obtain q where "oldest_key (up_pools u) order [] \<noteq> []" "map_of (up_pools u) (oldest_key (up_pools u) order []) = Some q"
      "\<forall>(k, p) \<in> set order. po_used q \<le> po_used p"
    using oldest_key_min [of "up_pools u" order "[]"] by blast
  then show ?thesis using set by (auto simp: dropOldestLocked_def Let_def)
qed

text \<open>The pools before a new one is added: one is dropped when they are full.\<close>

definition make_room :: "(string \<times> upstreamPool) list \<Rightarrow> upstreamPools \<Rightarrow> upstreamPools" where
  "make_room order u = (if length (up_pools u) \<ge> maxUpstreamPools then dropOldestLocked order u else u)"

lemma transport_hit:
  "map_of (up_pools u) (poolKey scheme v) = Some p \<Longrightarrow>
   transport u scheme v now order = (po_tr p, u\<lparr>up_pools := AList.update (poolKey scheme v) (p\<lparr>po_used := now\<rparr>) (up_pools u)\<rparr>)"
  by (simp add: transport_def)

lemma transport_miss:
  assumes "map_of (up_pools u) (poolKey scheme v) = None" "map_of (up_pools (make_room order u)) (poolKey scheme v) = None"
  shows "transport u scheme v now order =
    (let u1 = make_room order u; tr = newUpstreamTransport (up_made u1) v
     in (tr, u1\<lparr>up_pools := up_pools u1 @ [(poolKey scheme v, \<lparr>po_tr = tr, po_used = now\<rparr>)], up_made := Suc (up_made u1)\<rparr>))"
  using assms by (simp add: transport_def make_room_def update_new Let_def)

lemma make_room_spec:
  assumes "pools_inv u" "mset order = mset (up_pools u)"
  shows "pools_inv (make_room order u) \<and> length (up_pools (make_room order u)) < maxUpstreamPools \<and>
    (map_of (up_pools u) k = None \<longrightarrow> map_of (up_pools (make_room order u)) k = None)"
proof (cases "length (up_pools u) \<ge> maxUpstreamPools")
  case True
  then have "up_pools u \<noteq> []" by (auto simp: maxUpstreamPools_def)
  then obtain j p where j: "map_of (up_pools u) j = Some p" "make_room order u = drop_pool j u"
    using dropOldest_spec [OF assms(1) _ assms(2)] True by (auto simp: make_room_def)
  have "length (up_pools (drop_pool j u)) < maxUpstreamPools"
    using drop_pool_length [OF assms(1) j(1)] assms(1) by (simp add: pools_inv_def)
  moreover have "map_of (up_pools u) k = None \<longrightarrow> map_of (up_pools (drop_pool j u)) k = None"
    unfolding drop_pool_Some(4) [OF assms(1) j(1)] by (force simp: map_of_eq_None_iff)
  ultimately show ?thesis using j assms(1) by (simp only: drop_pool_inv simp_thms)
qed (use assms in \<open>simp add: make_room_def\<close>)

lemma transport_inv:
  assumes "pools_inv u" "vetted_wf v" "CHR ''|'' \<notin> set scheme" "mset order = mset (up_pools u)"
  shows "pools_inv (snd (transport u scheme v now order))"
proof (cases "map_of (up_pools u) (poolKey scheme v)")
  case None
  let ?u = "make_room order u"
  note r = make_room_spec [OF assms(1,4), of "poolKey scheme v"]
  have miss: "map_of (up_pools ?u) (poolKey scheme v) = None" using None r by blast
  have "pools_inv (?u\<lparr>up_pools := up_pools ?u @ [(poolKey scheme v, \<lparr>po_tr = newUpstreamTransport (up_made ?u) v, po_used = now\<rparr>)], up_made := Suc (up_made ?u)\<rparr>)"
    using r miss assms(2,3)
    by (auto simp: pools_inv_def pool_ok_def newUpstreamTransport_def map_of_eq_None_iff simp del: mset_upt)
  then show ?thesis by (simp add: transport_miss [OF None miss] Let_def)
next
  case (Some p)
  let ?k = "poolKey scheme v" and ?p = "p\<lparr>po_used := now\<rparr>"
  define R where "R = mset (filter (\<lambda>(j, _). j \<noteq> ?k) (up_pools u))"
  let ?new = "AList.update ?k ?p (up_pools u)"
  have new: "mset ?new = add_mset (?k, ?p) R" and old: "mset (up_pools u) = add_mset (?k, p) R"
    using assms(1) mset_update [OF _ Some, of ?p] mset_filter_key [OF _ Some] by (simp_all only: pools_inv_def R_def simp_thms)
  have len: "length ?new = length (up_pools u)" using arg_cong [OF new, of size] arg_cong [OF old, of size] by simp
  have sets: "set ?new = insert (?k, ?p) (set_mset R)" "set (up_pools u) = insert (?k, p) (set_mset R)"
    using arg_cong [OF new, of set_mset] arg_cong [OF old, of set_mset] by simp_all
  have "pool_ok (?k, p)" using assms(1) sets(2) by (simp add: pools_inv_def list_all_iff)
  then have "pool_ok (?k, ?p)" by (simp add: pool_ok_def)
  then have ok: "list_all pool_ok ?new" using assms(1) sets by (simp add: pools_inv_def list_all_iff)
  have ids: "image_mset pool_id (mset ?new) = image_mset pool_id (mset (up_pools u))" by (simp add: new old)
  have "pools_inv (u\<lparr>up_pools := ?new\<rparr>)"
    using assms(1) len ok ids by (simp add: pools_inv_def distinct_update)
  then show ?thesis by (simp add: transport_hit [OF Some])
qed

inductive pools_reach :: "upstreamPools \<Rightarrow> bool" where
  new: "pools_reach newUpstreamPools"
| use: "pools_reach u \<Longrightarrow> vetted_wf v \<Longrightarrow> CHR ''|'' \<notin> set scheme \<Longrightarrow> mset order = mset (up_pools u) \<Longrightarrow>
    pools_reach (snd (transport u scheme v now order))"
| swept: "pools_reach u \<Longrightarrow> pools_reach (upstream_sweep now u)"

lemma pools_reach_inv: "pools_reach u \<Longrightarrow> pools_inv u"
  by (induction rule: pools_reach.induct)
    (auto simp: transport_inv upstream_sweep_def sweep_pools_inv, simp add: pools_inv_def newUpstreamPools_def)

text \<open>The transport for a destination dials that destination.\<close>

lemma transport_destination:
  assumes "pools_inv u" "vetted_wf v" "CHR ''|'' \<notin> set scheme" "mset order = mset (up_pools u)"
    and "transport u scheme v now order = (tr, u')"
  shows "same_destination (ut_DialContext tr) v" "map_of (up_pools u') (poolKey scheme v) = Some \<lparr>po_tr = tr, po_used = now\<rparr>"
proof -
  have "same_destination (ut_DialContext tr) v \<and> map_of (up_pools u') (poolKey scheme v) = Some \<lparr>po_tr = tr, po_used = now\<rparr>"
  proof (cases "map_of (up_pools u) (poolKey scheme v)")
    case None
    then have miss: "map_of (up_pools (make_room order u)) (poolKey scheme v) = None"
      using make_room_spec [OF assms(1,4)] by blast
    show ?thesis using assms(5) unfolding transport_miss [OF None miss] Let_def
      using miss by (auto simp: newUpstreamTransport_def same_destination_def map_add_def)
  next
    case (Some p)
    then have "pool_ok (poolKey scheme v, p)" using assms(1) by (auto simp: pools_inv_def list_all_iff dest: map_of_SomeD)
    then obtain s where s: "vetted_wf (ut_DialContext (po_tr p))" "CHR ''|'' \<notin> set s" "poolKey s (ut_DialContext (po_tr p)) = poolKey scheme v"
      by (auto simp: pool_ok_def)
    have "same_destination (ut_DialContext (po_tr p)) v" using poolKey_inject [OF s(1) assms(2) s(2) assms(3)] s(3) by simp
    moreover have "p\<lparr>po_used := now\<rparr> = \<lparr>po_tr = po_tr p, po_used = now\<rparr>" by simp
    ultimately show ?thesis using assms(5) by (auto simp: transport_hit [OF Some] update_conv')
  qed
  then show "same_destination (ut_DialContext tr) v" "map_of (up_pools u') (poolKey scheme v) = Some \<lparr>po_tr = tr, po_used = now\<rparr>"
    by simp_all
qed

lemma same_destination_addrs: "same_destination v w \<Longrightarrow> set (v_addrs v) = set (v_addrs w)"
  unfolding same_destination_def by (metis set_mset_mset)

section \<open>Properties\<close>

text \<open>
  C6.  A pooled connection is used only for requests approved for the same destination.  Without a
  vetted destination a request is not sent; otherwise it goes to a transport whose dialer has the
  same host, port and addresses as the request was approved for, so that every connection the
  transport ever opens comes from dialling an address and port approved for this request.
\<close>

theorem upstream_same_destination:
  assumes "pools_reach u" "mset order = mset (up_pools u)" "CHR ''|'' \<notin> set scheme"
    and "roundTrip rt u scheme ov now order = (r, u')" "case ov of None \<Rightarrow> True | Some v \<Rightarrow> v_addrs v \<noteq> [] \<longrightarrow> vetted_wf v"
  shows "(case ov of
      None \<Rightarrow> r = Inl errNotVetted \<and> u' = u
    | Some v \<Rightarrow>
        if v_addrs v = [] then r = Inl errNotVetted \<and> u' = u
        else \<exists>tr. r = rt tr \<and> map_of (up_pools u') (poolKey scheme v) = Some \<lparr>po_tr = tr, po_used = now\<rparr> \<and>
          v_host (ut_DialContext tr) = v_host v \<and> v_port (ut_DialContext tr) = v_port v \<and>
          mset (v_addrs (ut_DialContext tr)) = mset (v_addrs v) \<and>
          (\<forall>env dl t network addr c. vetted_dial env (ut_DialContext tr) dl t network addr (Inr c) \<longrightarrow>
             (\<exists>a \<in> set (v_addrs v). \<exists>d w. fst (de_dial env d network (addrport_String a (unat (v_port v))) w) = Inr c)))"
proof (cases ov)
  case (Some v)
  show ?thesis
  proof (cases "v_addrs v = []")
    case False
    obtain tr u1 where t: "transport u scheme v now order = (tr, u1)" by (metis surj_pair)
    have wf: "vetted_wf v" using assms(5) Some False by simp
    note d = transport_destination [OF pools_reach_inv [OF assms(1)] wf assms(3,2) t]
    have ru: "r = rt tr" "u' = u1" using assms(4) Some False t by (simp_all add: roundTrip_def)
    have "\<exists>a \<in> set (v_addrs v). \<exists>d w. fst (de_dial env d network (addrport_String a (unat (v_port v))) w) = Inr c"
      if "vetted_dial env (ut_DialContext tr) dl t network addr (Inr c)" for env dl t network addr c
      using vetted_dial_conn(2) [OF that] same_destination_addrs [OF d(1)] d(1) by (simp add: same_destination_def)
    then have "\<exists>tr. r = rt tr \<and> map_of (up_pools u') (poolKey scheme v) = Some \<lparr>po_tr = tr, po_used = now\<rparr> \<and>
          v_host (ut_DialContext tr) = v_host v \<and> v_port (ut_DialContext tr) = v_port v \<and>
          mset (v_addrs (ut_DialContext tr)) = mset (v_addrs v) \<and>
          (\<forall>env dl t network addr c. vetted_dial env (ut_DialContext tr) dl t network addr (Inr c) \<longrightarrow>
             (\<exists>a \<in> set (v_addrs v). \<exists>d w. fst (de_dial env d network (addrport_String a (unat (v_port v))) w) = Inr c))"
      using d ru unfolding same_destination_def by blast
    then show ?thesis using Some False by simp
  qed (use assms Some in \<open>simp add: roundTrip_def\<close>)
qed (use assms in \<open>simp add: roundTrip_def\<close>)

lemma demo_vetted_wf: "vetted_wf demo_vetted"
  by (simp add: vetted_wf_def demo_vetted_def plain_addr_def)

theorem upstream_same_destination_witness:
  "\<exists>tr. fst (roundTrip Inr newUpstreamPools ''http'' (Some demo_vetted) 7 []) = Inr tr \<and> v_host (ut_DialContext tr) = ''a.com'' \<and>
     v_addrs (ut_DialContext tr) = [Addr4 0x08080808]"
  using upstream_same_destination [OF pools_reach.new, of "[]" "''http''" Inr "Some demo_vetted" 7] demo_vetted_wf
  by (cases "roundTrip Inr newUpstreamPools ''http'' (Some demo_vetted) 7 []")
    (auto simp: newUpstreamPools_def, auto simp: demo_vetted_def)

text \<open>
  C36.  The number of pools stays bounded and no idle connection is forgotten: there are at most 1024
  pools with distinct keys, every transport ever made is either in the map or was told exactly once to
  close its idle connections, and a pool that makes room for another is one used least recently.
\<close>

theorem pools_bounded_lru:
  assumes "pools_reach u" "mset order = mset (up_pools u)"
  shows "length (up_pools u) \<le> 1024 \<and> distinct (map fst (up_pools u)) \<and>
    mset (map (\<lambda>(k, p). ut_id (po_tr p)) (up_pools u)) + mset (up_closed u) = mset [0..<up_made u] \<and>
    (map_of (up_pools u) (poolKey scheme v) = None \<and> length (up_pools u) = 1024 \<longrightarrow>
       (\<exists>k p. map_of (up_pools u) k = Some p \<and> (\<forall>(j, q) \<in> set (up_pools u). po_used p \<le> po_used q) \<and>
          up_closed (snd (transport u scheme v now order)) = up_closed u @ [ut_id (po_tr p)] \<and>
          map fst (up_pools (snd (transport u scheme v now order))) = filter (\<lambda>j. j \<noteq> k) (map fst (up_pools u)) @ [poolKey scheme v]))"
proof (intro conjI impI)
  note inv = pools_reach_inv [OF assms(1)]
  show "length (up_pools u) \<le> 1024" "distinct (map fst (up_pools u))"
    "mset (map (\<lambda>(k, p). ut_id (po_tr p)) (up_pools u)) + mset (up_closed u) = mset [0..<up_made u]"
    using inv by (simp_all add: pools_inv_def maxUpstreamPools_def case_prod_unfold)
  assume full: "map_of (up_pools u) (poolKey scheme v) = None \<and> length (up_pools u) = 1024"
  then have "up_pools u \<noteq> []" by auto
  then obtain k p where k: "map_of (up_pools u) k = Some p" "\<forall>(j, q) \<in> set (up_pools u). po_used p \<le> po_used q"
      "dropOldestLocked order u = drop_pool k u"
    using dropOldest_spec [OF inv _ assms(2)] by blast
  then have m: "make_room order u = drop_pool k u" using full by (simp add: make_room_def maxUpstreamPools_def)
  have miss: "map_of (up_pools (make_room order u)) (poolKey scheme v) = None"
    using full make_room_spec [OF inv assms(2)] by blast
  have f: "map fst (filter (\<lambda>(j, _). j \<noteq> k) xs) = filter (\<lambda>j. j \<noteq> k) (map fst xs)" for xs :: "(string \<times> upstreamPool) list"
    by (induction xs) auto
  have "up_closed (snd (transport u scheme v now order)) = up_closed u @ [ut_id (po_tr p)] \<and>
      map fst (up_pools (snd (transport u scheme v now order))) = filter (\<lambda>j. j \<noteq> k) (map fst (up_pools u)) @ [poolKey scheme v]"
    unfolding transport_miss [OF conjunct1 [OF full] miss] Let_def m
    by (simp add: drop_pool_Some(2,4) [OF inv k(1)] f)
  then show "\<exists>k p. map_of (up_pools u) k = Some p \<and> (\<forall>(j, q) \<in> set (up_pools u). po_used p \<le> po_used q) \<and>
          up_closed (snd (transport u scheme v now order)) = up_closed u @ [ut_id (po_tr p)] \<and>
          map fst (up_pools (snd (transport u scheme v now order))) = filter (\<lambda>j. j \<noteq> k) (map fst (up_pools u)) @ [poolKey scheme v]"
    using k(1,2) by blast
qed


theorem pools_bounded_lru_witness:
  "length (up_pools (snd (transport newUpstreamPools ''http'' demo_vetted 7 []))) = 1 \<and>
   mset (map (\<lambda>(k, p). ut_id (po_tr p)) (up_pools (snd (transport newUpstreamPools ''http'' demo_vetted 7 [])))) = mset [0..<1]"
proof -
  let ?u = "snd (transport newUpstreamPools ''http'' demo_vetted 7 [])"
  have "pools_reach ?u" by (intro pools_reach.intros) (simp_all add: demo_vetted_wf newUpstreamPools_def)
  from pools_bounded_lru [OF this refl]
  have "mset (map (\<lambda>(k, p). ut_id (po_tr p)) (up_pools ?u)) + mset (up_closed ?u) = mset [0..<up_made ?u]" by blast
  then show ?thesis by (simp add: transport_def newUpstreamPools_def maxUpstreamPools_def Let_def)
qed

end
