(* ===== verification/Dns_Cache.thy ===== *)
theory Dns_Cache
  imports Policy Go_Time Go_Map
begin

text \<open>
  \<^verbatim>\<open>internal/dnscache/dnscache.go\<close>: the cache in front of the resolver.

  Calls of \<^verbatim>\<open>LookupNetIP\<close> and the goroutines \<^verbatim>\<open>run\<close> are threads of a step relation.  A step is what
  a thread does under the mutex, or one operation on a channel; the program counter of a thread
  says what comes next.  Flights and client slots are shared objects, so they live in stores and
  are named by their position.  \<open>dr_answers\<close> records what the resolver behind the cache answered.
\<close>

section \<open>State\<close>

definition dns_ttl :: duration where "dns_ttl = 30 * 10 ^ 9"
definition negativeTTL :: duration where "negativeTTL = 5 * 10 ^ 9"
definition failureTTL :: duration where "failureTTL = 3 * 10 ^ 9"
definition maxEntries :: nat where "maxEntries = 10000"
definition maxConcurrent :: nat where "maxConcurrent = 256"
definition maxPerClient :: nat where "maxPerClient = 32"

record dns_entry =
  e_addrs :: "addr list"
  e_err :: "error option"
  e_expires :: time

text \<open>\<open>fl_key\<close> names what the flight looks up; the code keeps it only in the map.\<close>

record flight =
  fl_key :: string
  fl_done :: bool
  fl_addrs :: "addr list"
  fl_err :: "error option"

record clientSlots =
  cs_sem :: nat
  cs_users :: int

text \<open>
  The release function of a call: nothing for an untagged lookup, or the client and its slots.
\<close>

type_synonym slot = "(addr \<times> nat) option"

datatype call_pc =
  CStart | CNeedSlot | CAcquiring addr nat | CHaveSlot slot | CRelease slot call_pc | CLeave addr nat call_pc
| CWait nat | CReturned "addr list" "error option"

datatype run_pc = RStart | RLooking | RLooked | RStore | RDelete | RClose | RRelease | RLeave | RDone

text \<open>
  A call has the client its context is tagged with, the network and the host; a run has the key, the
  network and the host, its flight and the slot it releases at the end.
\<close>

datatype thread = Call "addr option" string string call_pc | Run string string string nat slot run_pc

record Resolver =
  dr_entries :: "(string \<times> dns_entry) list"
  dr_flights :: "(string \<times> nat) list"
  dr_clients :: "(addr \<times> nat) list"
  dr_flight :: "flight list"
  dr_slots :: "clientSlots list"
  dr_global :: nat
  dr_answers :: "(string \<times> addr list \<times> error option) list"
  dr_threads :: "thread list"
  dr_clock :: time

definition dns_New :: "time \<Rightarrow> Resolver" where
  "dns_New now =
     \<lparr>dr_entries = [], dr_flights = [], dr_clients = [], dr_flight = [], dr_slots = [], dr_global = 0, dr_answers = [],
      dr_threads = [], dr_clock = now\<rparr>"

definition dns_key :: "string \<Rightarrow> string \<Rightarrow> string" where
  "dns_key network host = network @ ''|'' @ host"

section \<open>The operations under the mutex\<close>

definition findLocked :: "Resolver \<Rightarrow> time \<Rightarrow> string \<Rightarrow> nat option \<times> dns_entry option" where
  "findLocked r now key =
     (case map_of (dr_entries r) key of
        Some e \<Rightarrow> if now < e_expires e then (None, Some e) else (map_of (dr_flights r) key, None)
      | None \<Rightarrow> (map_of (dr_flights r) key, None))"

text \<open>What a call does next after a search: wait for the flight, return the entry, or go on.\<close>

definition found :: "nat option \<times> dns_entry option \<Rightarrow> call_pc \<Rightarrow> call_pc" where
  "found fe pc =
     (case fe of
        (Some f, _) \<Rightarrow> CWait f
      | (None, Some e) \<Rightarrow> CReturned (e_addrs e) (e_err e)
      | (None, None) \<Rightarrow> pc)"

definition enter_client :: "addr \<Rightarrow> Resolver \<Rightarrow> nat \<times> Resolver" where
  "enter_client c r0 =
     (let (cs, r) =
        (case map_of (dr_clients r0) c of
           Some cs \<Rightarrow> (cs, r0)
         | None \<Rightarrow> (length (dr_slots r0),
             r0\<lparr>dr_slots := dr_slots r0 @ [\<lparr>cs_sem = 0, cs_users = 0\<rparr>], dr_clients := AList.update c (length (dr_slots r0)) (dr_clients r0)\<rparr>))
      in (cs, r\<lparr>dr_slots := (dr_slots r)[cs := (dr_slots r ! cs)\<lparr>cs_users := cs_users (dr_slots r ! cs) + 1\<rparr>]\<rparr>))"

definition leave_client :: "addr \<Rightarrow> nat \<Rightarrow> Resolver \<Rightarrow> Resolver" where
  "leave_client c cs r =
     (let users = cs_users (dr_slots r ! cs) - 1;
          r1 = r\<lparr>dr_slots := (dr_slots r)[cs := (dr_slots r ! cs)\<lparr>cs_users := users\<rparr>]\<rparr>
      in if users = 0 then r1\<lparr>dr_clients := filter (\<lambda>(d, _). d \<noteq> c) (dr_clients r1)\<rparr> else r1)"

definition sem_send :: "nat \<Rightarrow> Resolver \<Rightarrow> Resolver" where
  "sem_send cs r = r\<lparr>dr_slots := (dr_slots r)[cs := (dr_slots r ! cs)\<lparr>cs_sem := cs_sem (dr_slots r ! cs) + 1\<rparr>]\<rparr>"

definition sem_receive :: "nat \<Rightarrow> Resolver \<Rightarrow> Resolver" where
  "sem_receive cs r = r\<lparr>dr_slots := (dr_slots r)[cs := (dr_slots r ! cs)\<lparr>cs_sem := cs_sem (dr_slots r ! cs) - 1\<rparr>]\<rparr>"

definition start_flight :: "string \<Rightarrow> Resolver \<Rightarrow> nat \<times> Resolver" where
  "start_flight key r =
     (length (dr_flight r),
      r\<lparr>dr_flight := dr_flight r @ [\<lparr>fl_key = key, fl_done = False, fl_addrs = [], fl_err = None\<rparr>],
        dr_flights := AList.update key (length (dr_flight r)) (dr_flights r)\<rparr>)"

definition set_flight :: "nat \<Rightarrow> (flight \<Rightarrow> flight) \<Rightarrow> Resolver \<Rightarrow> Resolver" where
  "set_flight f g r = r\<lparr>dr_flight := (dr_flight r)[f := g (dr_flight r ! f)]\<rparr>"

text \<open>The entry that \<^verbatim>\<open>store\<close> makes of an answer; \<open>is_not_found\<close> says that an error is a DNS error for a missing name.\<close>

definition entry_of :: "(error \<Rightarrow> bool) \<Rightarrow> addr list \<Rightarrow> error option \<Rightarrow> time \<Rightarrow> dns_entry option" where
  "entry_of is_not_found addrs err now =
     (case err of
        None \<Rightarrow> if addrs \<noteq> [] then Some \<lparr>e_addrs = addrs, e_err = None, e_expires = now + dns_ttl\<rparr> else None
      | Some e \<Rightarrow>
          if is_not_found e then Some \<lparr>e_addrs = [], e_err = Some e, e_expires = now + negativeTTL\<rparr>
          else Some \<lparr>e_addrs = [], e_err = Some e, e_expires = now + failureTTL\<rparr>)"

text \<open>The second loop of the eviction, over the keys in the order the map is visited.\<close>

fun evict :: "string list \<Rightarrow> (string \<times> dns_entry) list \<Rightarrow> (string \<times> dns_entry) list" where
  "evict [] es = es"
| "evict (k # ks) es = (if length es < maxEntries then es else evict ks (filter (\<lambda>(j, _). j \<noteq> k) es))"

definition make_space :: "string list \<Rightarrow> time \<Rightarrow> (string \<times> dns_entry) list \<Rightarrow> (string \<times> dns_entry) list" where
  "make_space order now es =
     (if length es \<ge> maxEntries then evict order (filter (\<lambda>(_, old). now < e_expires old) es) else es)"

definition dns_store ::
  "(error \<Rightarrow> bool) \<Rightarrow> string \<Rightarrow> addr list \<Rightarrow> error option \<Rightarrow> time \<Rightarrow> time \<Rightarrow> string list \<Rightarrow> Resolver \<Rightarrow> Resolver" where
  "dns_store is_not_found key addrs err now1 now2 order r =
     (case entry_of is_not_found addrs err now1 of
        None \<Rightarrow> r
      | Some e \<Rightarrow> r\<lparr>dr_entries := AList.update key e (make_space order now2 (dr_entries r))\<rparr>)"

section \<open>Steps\<close>

definition ctx_Canceled :: error where "ctx_Canceled = ErrNew ''context canceled''"
definition ctx_DeadlineExceeded :: error where "ctx_DeadlineExceeded = ErrNew ''context deadline exceeded''"

text \<open>
  What one thread can do at a time: the resolver, the thread and the threads it starts.  \<open>answers\<close>
  are the possible answers of the resolver behind the cache.
\<close>

inductive thread_step ::
  "(error \<Rightarrow> bool) \<Rightarrow> (string \<Rightarrow> string \<Rightarrow> addr list \<Rightarrow> error option \<Rightarrow> bool) \<Rightarrow> time \<Rightarrow>
   Resolver \<Rightarrow> thread \<Rightarrow> Resolver \<Rightarrow> thread \<Rightarrow> thread list \<Rightarrow> bool"
  for nf answers now r where
  find: "thread_step nf answers now r (Call cl net host CStart) r
    (Call cl net host (found (findLocked r now (dns_key net host)) CNeedSlot)) []"
| untagged: "thread_step nf answers now r (Call None net host CNeedSlot) r (Call None net host (CHaveSlot None)) []"
| enter: "enter_client c r = (cs, r') \<Longrightarrow>
    thread_step nf answers now r (Call (Some c) net host CNeedSlot) r' (Call (Some c) net host (CAcquiring c cs)) []"
| acquired: "cs_sem (dr_slots r ! cs) < maxPerClient \<Longrightarrow>
    thread_step nf answers now r (Call cl net host (CAcquiring c cs)) (sem_send cs r) (Call cl net host (CHaveSlot (Some (c, cs)))) []"
| gave_up: "err \<in> {ctx_Canceled, ctx_DeadlineExceeded} \<Longrightarrow>
    thread_step nf answers now r (Call cl net host (CAcquiring c cs)) r
      (Call cl net host (CLeave c cs (CReturned [] (Some err)))) []"
| found_after: "findLocked r now (dns_key net host) \<noteq> (None, None) \<Longrightarrow>
    thread_step nf answers now r (Call cl net host (CHaveSlot s)) r
      (Call cl net host (CRelease s (found (findLocked r now (dns_key net host)) CStart))) []"
| start: "findLocked r now (dns_key net host) = (None, None) \<Longrightarrow> start_flight (dns_key net host) r = (f, r') \<Longrightarrow>
    thread_step nf answers now r (Call cl net host (CHaveSlot s)) r' (Call cl net host (CWait f))
      [Run (dns_key net host) net host f s RStart]"
| release_none: "thread_step nf answers now r (Call cl net host (CRelease None k)) r (Call cl net host k) []"
| release_slot: "thread_step nf answers now r (Call cl net host (CRelease (Some (c, cs)) k)) (sem_receive cs r)
    (Call cl net host (CLeave c cs k)) []"
| leave: "thread_step nf answers now r (Call cl net host (CLeave c cs k)) (leave_client c cs r) (Call cl net host k) []"
| wait_done: "fl_done (dr_flight r ! f) \<Longrightarrow>
    thread_step nf answers now r (Call cl net host (CWait f)) r
      (Call cl net host (CReturned (fl_addrs (dr_flight r ! f)) (fl_err (dr_flight r ! f)))) []"
| wait_ctx: "err \<in> {ctx_Canceled, ctx_DeadlineExceeded} \<Longrightarrow>
    thread_step nf answers now r (Call cl net host (CWait f)) r (Call cl net host (CReturned [] (Some err))) []"
| run_slot: "dr_global r < maxConcurrent \<Longrightarrow>
    thread_step nf answers now r (Run key net host f s RStart) (r\<lparr>dr_global := dr_global r + 1\<rparr>) (Run key net host f s RLooking) []"
| run_timeout: "thread_step nf answers now r (Run key net host f s RStart)
    (set_flight f (fl_err_update (\<lambda>_. Some ctx_DeadlineExceeded)) r) (Run key net host f s RDelete) []"
| run_answer: "answers net host addrs err \<Longrightarrow>
    thread_step nf answers now r (Run key net host f s RLooking)
      ((set_flight f (\<lambda>x. x\<lparr>fl_addrs := addrs, fl_err := err\<rparr>) r)\<lparr>dr_answers := dr_answers r @ [(key, addrs, err)]\<rparr>)
      (Run key net host f s RLooked) []"
| run_free: "thread_step nf answers now r (Run key net host f s RLooked) (r\<lparr>dr_global := dr_global r - 1\<rparr>) (Run key net host f s RStore) []"
| run_store: "now1 \<le> now \<Longrightarrow> dr_clock r \<le> now1 \<Longrightarrow>
    set order = fst ` set (filter (\<lambda>(_, old). now < e_expires old) (dr_entries r)) \<Longrightarrow>
    thread_step nf answers now r (Run key net host f s RStore)
      (dns_store nf key (fl_addrs (dr_flight r ! f)) (fl_err (dr_flight r ! f)) now1 now order r)
      (Run key net host f s RDelete) []"
| run_delete: "thread_step nf answers now r (Run key net host f s RDelete)
    (r\<lparr>dr_flights := filter (\<lambda>(k, _). k \<noteq> key) (dr_flights r)\<rparr>) (Run key net host f s RClose) []"
| run_close: "thread_step nf answers now r (Run key net host f s RClose) (set_flight f (fl_done_update (\<lambda>_. True)) r) (Run key net host f s RRelease) []"
| run_release_none: "thread_step nf answers now r (Run key net host f None RRelease) r (Run key net host f None RDone) []"
| run_release: "thread_step nf answers now r (Run key net host f (Some (c, cs)) RRelease) (sem_receive cs r)
    (Run key net host f (Some (c, cs)) RLeave) []"
| run_leave: "thread_step nf answers now r (Run key net host f (Some (c, cs)) RLeave) (leave_client c cs r) (Run key net host f (Some (c, cs)) RDone) []"

inductive_cases thread_stepE: "thread_step nf answers now r t r' t' sp"

text \<open>A step of the resolver: a new call, or a step of one of the threads.\<close>

inductive dns_step :: "(error \<Rightarrow> bool) \<Rightarrow> (string \<Rightarrow> string \<Rightarrow> addr list \<Rightarrow> error option \<Rightarrow> bool) \<Rightarrow> Resolver \<Rightarrow> Resolver \<Rightarrow> bool"
  for nf answers where
  lookup: "dns_step nf answers r (r\<lparr>dr_threads := dr_threads r @ [Call cl net host CStart]\<rparr>)"
| thread: "i < length (dr_threads r) \<Longrightarrow> dr_clock r \<le> now \<Longrightarrow>
    thread_step nf answers now r (dr_threads r ! i) r' t' sp \<Longrightarrow>
    dns_step nf answers r (r'\<lparr>dr_threads := (dr_threads r)[i := t'] @ sp, dr_clock := now\<rparr>)"

section \<open>Counting threads\<close>

definition cnt :: "('a \<Rightarrow> bool) \<Rightarrow> 'a list \<Rightarrow> int" where
  "cnt P ts = int (length (filter P ts))"

lemma cnt_simps [simp]: "cnt P [] = 0" "cnt P (t # ts) = of_bool (P t) + cnt P ts" "cnt P (ts @ us) = cnt P ts + cnt P us"
  by (auto simp: cnt_def)

lemma cnt_nonneg [simp]: "0 \<le> cnt P ts"
  by (simp add: cnt_def)

lemma cnt_update: "i < length ts \<Longrightarrow> cnt P (ts[i := t]) = cnt P ts - of_bool (P (ts ! i)) + of_bool (P t)"
  by (induction ts arbitrary: i) (auto split: nat.splits)

lemma cnt_pos_iff: "0 < cnt P ts \<longleftrightarrow> (\<exists>t \<in> set ts. P t)"
  by (auto simp: cnt_def filter_empty_conv length_greater_0_conv [symmetric] simp del: length_greater_0_conv)

lemma cnt_nth: "i < length ts \<Longrightarrow> P (ts ! i) \<Longrightarrow> 0 < cnt P ts"
  by (auto simp: cnt_pos_iff)

lemma cnt_mono: "(\<And>t. P t \<Longrightarrow> Q t) \<Longrightarrow> cnt P ts \<le> cnt Q ts"
  by (induction ts) auto

section \<open>Client slots\<close>

text \<open>
  The threads that hold a slot of a client, and those that hold or wait for one.
\<close>

fun holds :: "addr \<Rightarrow> nat \<Rightarrow> thread \<Rightarrow> bool" where
  "holds c cs (Call _ _ _ (CHaveSlot s)) \<longleftrightarrow> s = Some (c, cs)"
| "holds c cs (Call _ _ _ (CRelease s _)) \<longleftrightarrow> s = Some (c, cs)"
| "holds c cs (Call _ _ _ _) \<longleftrightarrow> False"
| "holds c cs (Run _ _ _ _ s pc) \<longleftrightarrow> s = Some (c, cs) \<and> pc \<noteq> RLeave \<and> pc \<noteq> RDone"

fun users :: "addr \<Rightarrow> nat \<Rightarrow> thread \<Rightarrow> bool" where
  "users c cs (Call _ _ _ (CHaveSlot s)) \<longleftrightarrow> s = Some (c, cs)"
| "users c cs (Call _ _ _ (CRelease s _)) \<longleftrightarrow> s = Some (c, cs)"
| "users c cs (Call _ _ _ (CAcquiring d ds)) \<longleftrightarrow> d = c \<and> ds = cs"
| "users c cs (Call _ _ _ (CLeave d ds _)) \<longleftrightarrow> d = c \<and> ds = cs"
| "users c cs (Call _ _ _ _) \<longleftrightarrow> False"
| "users c cs (Run _ _ _ _ s pc) \<longleftrightarrow> s = Some (c, cs) \<and> pc \<noteq> RDone"

text \<open>
  The slots agree with the number of holders and users of each client; a client is in the map as
  long as somebody uses its slots, so all of them use the same ones.
\<close>

definition slots_ok :: "clientSlots list \<Rightarrow> (addr \<times> nat) list \<Rightarrow> (addr \<Rightarrow> nat \<Rightarrow> int) \<Rightarrow> (addr \<Rightarrow> nat \<Rightarrow> int) \<Rightarrow> bool" where
  "slots_ok sl cl H U \<longleftrightarrow> distinct (map fst cl) \<and> distinct (map snd cl) \<and>
     (\<forall>(c, cs) \<in> set cl. cs < length sl \<and> int (cs_sem (sl ! cs)) = H c cs \<and> cs_users (sl ! cs) = U c cs \<and> U c cs > 0 \<and>
        cs_sem (sl ! cs) \<le> maxPerClient) \<and>
     (\<forall>c cs. U c cs > 0 \<longrightarrow> (c, cs) \<in> set cl)"

lemma slots_other:
  assumes "slots_ok sl cl H U" "(c, cs) \<in> set cl" "(d, ds) \<in> set cl"
  shows "cs = ds \<longleftrightarrow> c = d"
  using assms by (auto simp: slots_ok_def distinct_map inj_on_def, metis fst_conv snd_conv prod.inject, metis fst_conv snd_conv prod.inject)

lemma slots_ok_update:
  assumes "slots_ok sl cl H U" "(c, cs) \<in> set cl"
    and "int (cs_sem s) = H c cs + h" "cs_users s = U c cs + u" "U c cs + u > 0" "cs_sem s \<le> maxPerClient"
  shows "slots_ok (sl[cs := s]) cl (\<lambda>d ds. H d ds + h * of_bool (c = d \<and> cs = ds)) (\<lambda>d ds. U d ds + u * of_bool (c = d \<and> cs = ds))"
proof -
  have "ds < length (sl[cs := s]) \<and> int (cs_sem (sl[cs := s] ! ds)) = H d ds + h * of_bool (c = d \<and> cs = ds) \<and>
      cs_users (sl[cs := s] ! ds) = U d ds + u * of_bool (c = d \<and> cs = ds) \<and> U d ds + u * of_bool (c = d \<and> cs = ds) > 0 \<and>
      cs_sem (sl[cs := s] ! ds) \<le> maxPerClient" if "(d, ds) \<in> set cl" for d ds
  proof (cases "c = d")
    case True
    then have "ds = cs" using slots_other [OF assms(1,2) that] by simp
    then show ?thesis using True assms that by (auto simp: slots_ok_def)
  next
    case False
    then have "ds \<noteq> cs" using slots_other [OF assms(1,2) that] by auto
    then show ?thesis using False assms(1) that by (auto simp: slots_ok_def)
  qed
  moreover have "(d, ds) \<in> set cl" if "U d ds + u * of_bool (c = d \<and> cs = ds) > 0" for d ds
    using that assms(1,2) by (cases "c = d \<and> cs = ds") (auto simp: slots_ok_def)
  ultimately show ?thesis using assms(1) unfolding slots_ok_def by blast
qed

lemma slots_ok_mem: "slots_ok sl cl H U \<Longrightarrow> U c cs > 0 \<Longrightarrow> (c, cs) \<in> set cl"
  by (simp add: slots_ok_def)

lemma slots_ok_at:
  "slots_ok sl cl H U \<Longrightarrow> (c, cs) \<in> set cl \<Longrightarrow>
   int (cs_sem (sl ! cs)) = H c cs \<and> cs_users (sl ! cs) = U c cs \<and> U c cs > 0 \<and> cs_sem (sl ! cs) \<le> maxPerClient \<and> cs < length sl"
  by (auto simp: slots_ok_def)

lemma slots_ok_send:
  assumes "slots_ok sl cl H U" "U c cs > 0" "cs_sem (sl ! cs) < maxPerClient"
  shows "slots_ok (sl[cs := (sl ! cs)\<lparr>cs_sem := cs_sem (sl ! cs) + 1\<rparr>]) cl (\<lambda>d ds. H d ds + of_bool (c = d \<and> cs = ds)) U"
  using slots_ok_update [OF assms(1) slots_ok_mem [OF assms(1,2)], where h = 1 and u = 0 and s = "(sl ! cs)\<lparr>cs_sem := cs_sem (sl ! cs) + 1\<rparr>"]
    slots_ok_at [OF assms(1) slots_ok_mem [OF assms(1,2)]] assms(3) by simp

lemma slots_ok_receive:
  assumes "slots_ok sl cl H U" "U c cs > 0" "H c cs > 0"
  shows "slots_ok (sl[cs := (sl ! cs)\<lparr>cs_sem := cs_sem (sl ! cs) - 1\<rparr>]) cl (\<lambda>d ds. H d ds - of_bool (c = d \<and> cs = ds)) U"
proof -
  note at = slots_ok_at [OF assms(1) slots_ok_mem [OF assms(1,2)]]
  have "int (cs_sem (sl ! cs) - 1) = H c cs + (-1)" "cs_sem (sl ! cs) - 1 \<le> maxPerClient" using at assms(3) by auto
  then show ?thesis
    using slots_ok_update [OF assms(1) slots_ok_mem [OF assms(1,2)], where h = "-1" and u = 0 and s = "(sl ! cs)\<lparr>cs_sem := cs_sem (sl ! cs) - 1\<rparr>"] at
    by simp
qed

lemma slots_ok_leave:
  assumes "slots_ok sl cl H U" "U c cs > 0"
  shows "slots_ok (sl[cs := (sl ! cs)\<lparr>cs_users := cs_users (sl ! cs) - 1\<rparr>])
    (if cs_users (sl ! cs) - 1 = 0 then filter (\<lambda>(d, _). d \<noteq> c) cl else cl) H
    (\<lambda>d ds. U d ds - of_bool (c = d \<and> cs = ds))"
proof -
  have m: "(c, cs) \<in> set cl" by (rule slots_ok_mem [OF assms])
  note at = slots_ok_at [OF assms(1) m]
  note other = slots_other [OF assms(1) m]
  let ?sl = "sl[cs := (sl ! cs)\<lparr>cs_users := cs_users (sl ! cs) - 1\<rparr>]"
  show ?thesis
  proof (cases "U c cs = 1")
    case True
    have sub: "(d, ds) \<in> set cl \<and> d \<noteq> c" if "0 < U d ds - of_bool (c = d \<and> cs = ds)" for d ds
    proof -
      have d: "(d, ds) \<in> set cl" using that assms(1) by (cases "c = d \<and> cs = ds") (auto simp: slots_ok_def)
      moreover have "d \<noteq> c" using that True other [OF d] by auto
      ultimately show ?thesis by simp
    qed
    have "?sl ! ds = sl ! ds" if "(d, ds) \<in> set cl" "d \<noteq> c" for d ds
      using other [OF that(1)] that(2) by (simp add: nth_list_update)
    then have "slots_ok ?sl (filter (\<lambda>(d, _). d \<noteq> c) cl) H (\<lambda>d ds. U d ds - of_bool (c = d \<and> cs = ds))"
      using assms(1) sub by (auto simp: slots_ok_def distinct_map_filter)
    then show ?thesis using True at by simp
  next
    case False
    then show ?thesis
      using slots_ok_update [OF assms(1) m, where h = 0 and u = "-1" and s = "(sl ! cs)\<lparr>cs_users := cs_users (sl ! cs) - 1\<rparr>"] at
      by simp
  qed
qed

lemma slots_ok_enter:
  assumes "slots_ok (dr_slots r) (dr_clients r) H U" "enter_client c r = (cs, r')" "\<And>cs. H c cs \<ge> 0" "\<And>cs. H c cs \<le> U c cs"
  shows "slots_ok (dr_slots r') (dr_clients r') H (\<lambda>d ds. U d ds + of_bool (c = d \<and> cs = ds))"
proof (cases "map_of (dr_clients r) c")
  case None
  have new: "cs = length (dr_slots r)" "dr_clients r' = dr_clients r @ [(c, cs)]" "dr_slots r' = dr_slots r @ [\<lparr>cs_sem = 0, cs_users = 1\<rparr>]"
    using assms(2) None by (auto simp: enter_client_def update_new)
  have "U c cs \<le> 0" using assms(1) None new(1) by (fastforce simp: slots_ok_def map_of_eq_None_iff not_less [symmetric])
  then have 0: "U c cs = 0" "H c cs = 0" using assms(3) [of cs] assms(4) [of cs] by auto
  have c: "c \<notin> fst ` set (dr_clients r)" using None by (simp add: map_of_eq_None_iff)
  have lt: "ds < cs \<and> d \<noteq> c" if "(d, ds) \<in> set (dr_clients r)" for d ds
    using that assms(1) new(1) c by (force simp: slots_ok_def)
  have "distinct (map fst (dr_clients r'))" "distinct (map snd (dr_clients r'))"
    using assms(1) c unfolding new(2) by (auto simp: slots_ok_def dest: lt)
  moreover have "ds < length (dr_slots r') \<and> int (cs_sem (dr_slots r' ! ds)) = H d ds \<and> cs_users (dr_slots r' ! ds) = U d ds + of_bool (c = d \<and> cs = ds) \<and>
      U d ds + of_bool (c = d \<and> cs = ds) > 0 \<and> cs_sem (dr_slots r' ! ds) \<le> maxPerClient" if "(d, ds) \<in> set (dr_clients r')" for d ds
  proof (cases "(d, ds) \<in> set (dr_clients r)")
    case True
    then show ?thesis using slots_ok_at [OF assms(1) True] lt [OF True] by (simp add: new nth_append)
  next
    case False
    then have "d = c" "ds = cs" using that by (auto simp: new(2))
    then show ?thesis using 0 by (simp add: new)
  qed
  moreover have "(d, ds) \<in> set (dr_clients r')" if "U d ds + of_bool (c = d \<and> cs = ds) > 0" for d ds
    using that assms(1) by (cases "c = d \<and> cs = ds") (auto simp: slots_ok_def new(2))
  ultimately show ?thesis unfolding slots_ok_def by blast
next
  case (Some x)
  then have new: "cs = x" "dr_clients r' = dr_clients r"
      "dr_slots r' = (dr_slots r)[cs := (dr_slots r ! cs)\<lparr>cs_users := cs_users (dr_slots r ! cs) + 1\<rparr>]"
    using assms(2) by (auto simp: enter_client_def)
  have m: "(c, cs) \<in> set (dr_clients r)" using Some new(1) by (auto dest: map_of_SomeD)
  show ?thesis
    using slots_ok_update [OF assms(1) m, where h = 0 and u = 1 and s = "(dr_slots r ! cs)\<lparr>cs_users := cs_users (dr_slots r ! cs) + 1\<rparr>"]
      slots_ok_at [OF assms(1) m] by (simp add: new(2,3))
qed

section \<open>Lookups at once\<close>

fun looking :: "thread \<Rightarrow> bool" where
  "looking (Run _ _ _ _ _ pc) \<longleftrightarrow> pc = RLooking \<or> pc = RLooked"
| "looking (Call _ _ _ _) \<longleftrightarrow> False"

text \<open>What a call does after giving its slot back: it waits or has returned.\<close>

fun final_pc :: "call_pc \<Rightarrow> bool" where
  "final_pc (CWait _) \<longleftrightarrow> True"
| "final_pc (CReturned _ _) \<longleftrightarrow> True"
| "final_pc _ \<longleftrightarrow> False"

fun cont_ok :: "thread \<Rightarrow> bool" where
  "cont_ok (Call _ _ _ (CRelease _ k)) \<longleftrightarrow> final_pc k"
| "cont_ok (Call _ _ _ (CLeave _ _ k)) \<longleftrightarrow> final_pc k"
| "cont_ok (Call _ _ _ _) \<longleftrightarrow> True"
| "cont_ok (Run _ _ _ _ _ _) \<longleftrightarrow> True"

lemma final_pcE:
  assumes "final_pc k"
  obtains (wait) f where "k = CWait f" | (returned) as e where "k = CReturned as e"
  using assms by (cases k) auto

lemma found_final: "fe \<noteq> (None, None) \<Longrightarrow> final_pc (found fe pc)"
  by (auto simp: found_def split: option.splits prod.splits)

lemma final_no_slot: "final_pc k \<Longrightarrow> \<not> users c cs (Call cl net host k) \<and> \<not> holds c cs (Call cl net host k) \<and> cont_ok (Call cl net host k)"
  by (erule final_pcE) auto

lemma found_start:
  "\<not> users c cs (Call cl net host (found fe CNeedSlot)) \<and> \<not> holds c cs (Call cl net host (found fe CNeedSlot)) \<and>
   cont_ok (Call cl net host (found fe CNeedSlot))"
  by (auto simp: found_def split: option.splits prod.splits)

lemma holds_users: "holds c cs t \<Longrightarrow> users c cs t"
  by (induction c cs t rule: holds.induct) auto

abbreviation H :: "thread list \<Rightarrow> addr \<Rightarrow> nat \<Rightarrow> int" where
  "H ts c cs \<equiv> cnt (holds c cs) ts"

abbreviation U :: "thread list \<Rightarrow> addr \<Rightarrow> nat \<Rightarrow> int" where
  "U ts c cs \<equiv> cnt (users c cs) ts"

lemma H_le_U: "H ts c cs \<le> U ts c cs"
  by (rule cnt_mono) (rule holds_users)

definition cap_inv :: "Resolver \<Rightarrow> bool" where
  "cap_inv r \<longleftrightarrow> list_all cont_ok (dr_threads r) \<and>
     slots_ok (dr_slots r) (dr_clients r) (H (dr_threads r)) (U (dr_threads r)) \<and>
     int (dr_global r) = cnt looking (dr_threads r) \<and> dr_global r \<le> maxConcurrent"

lemma slots_step:
  assumes "thread_step nf answers now r t r' t' sp" "cont_ok t"
    and "slots_ok (dr_slots r) (dr_clients r) (H ts) (U ts)" "i < length ts" "ts ! i = t"
  shows "slots_ok (dr_slots r') (dr_clients r') (H (ts[i := t'] @ sp)) (U (ts[i := t'] @ sp))"
proof -
  have new: "H (ts[i := t'] @ sp) = (\<lambda>c cs. H ts c cs - of_bool (holds c cs t) + of_bool (holds c cs t') + H sp c cs)"
    "U (ts[i := t'] @ sp) = (\<lambda>c cs. U ts c cs - of_bool (users c cs t) + of_bool (users c cs t') + U sp c cs)"
    using assms(4,5) by (auto simp: cnt_update)
  have posU: "users c cs t \<Longrightarrow> U ts c cs > 0" and posH: "holds c cs t \<Longrightarrow> H ts c cs > 0" for c cs
    using assms(4,5) by (auto intro: cnt_nth)
  have same: ?thesis if "dr_slots r' = dr_slots r" "dr_clients r' = dr_clients r"
      "\<And>c cs. of_bool (holds c cs t) = of_bool (holds c cs t') + H sp c cs" "\<And>c cs. of_bool (users c cs t) = of_bool (users c cs t') + U sp c cs"
    using assms(3) unfolding new unfolding that by simp
  show ?thesis
    using assms(1)
  proof (cases rule: thread_step.cases)
    case (enter c cs net host)
    have "slots_ok (dr_slots r') (dr_clients r') (H ts) (\<lambda>d ds. U ts d ds + of_bool (c = d \<and> cs = ds))"
      by (rule slots_ok_enter [OF assms(3) enter(4)]) (auto simp: H_le_U)
    then show ?thesis unfolding new unfolding enter by simp
  next
    case (acquired cs cl net host c)
    have "U ts c cs > 0" by (rule posU) (simp add: acquired)
    then show ?thesis using slots_ok_send [OF assms(3) _ acquired(5)] unfolding new unfolding acquired
      by (simp add: sem_send_def)
  next
    case (release_slot cl net host c cs k)
    have "U ts c cs > 0" "H ts c cs > 0" by (rule posU posH, simp add: release_slot)+
    then show ?thesis using slots_ok_receive [OF assms(3)] unfolding new unfolding release_slot
      by (simp add: sem_receive_def)
  next
    case (run_release key net host f c cs)
    have "U ts c cs > 0" "H ts c cs > 0" by (rule posU posH, simp add: run_release)+
    then show ?thesis using slots_ok_receive [OF assms(3)] unfolding new unfolding run_release
      by (simp add: sem_receive_def)
  next
    case (leave cl net host c cs k)
    have f: "final_pc k" using assms(2) leave by simp
    have "U ts c cs > 0" by (rule posU) (simp add: leave)
    from slots_ok_leave [OF assms(3) this] show ?thesis unfolding new unfolding leave
      by (simp add: leave_client_def Let_def final_no_slot [OF f] split: if_splits)
  next
    case (run_leave key net host f c cs)
    have "U ts c cs > 0" by (rule posU) (simp add: run_leave)
    from slots_ok_leave [OF assms(3) this] show ?thesis unfolding new unfolding run_leave
      by (simp add: leave_client_def Let_def split: if_splits)
  qed (rule same; use assms(2) in \<open>auto simp: found_start final_no_slot found_final set_flight_def start_flight_def dns_store_def split: option.splits\<close>)+
qed


lemma thread_step_frame: "thread_step nf answers now r t r' t' sp \<Longrightarrow> dr_threads r' = dr_threads r \<and> dr_clock r' = dr_clock r"
  by (erule thread_step.cases)
    (auto simp: enter_client_def sem_send_def sem_receive_def leave_client_def set_flight_def start_flight_def dns_store_def Let_def split: option.splits)

lemma cont_step: "thread_step nf answers now r t r' t' sp \<Longrightarrow> cont_ok t \<Longrightarrow> cont_ok t' \<and> list_all cont_ok sp"
  by (erule thread_step.cases) (auto simp: found_start found_final final_no_slot)

lemma looking_step:
  assumes "thread_step nf answers now r t r' t' sp" "cont_ok t" "looking t \<Longrightarrow> dr_global r > 0" "dr_global r \<le> maxConcurrent"
  shows "int (dr_global r') = int (dr_global r) - of_bool (looking t) + of_bool (looking t') + cnt looking sp \<and> dr_global r' \<le> maxConcurrent"
  using assms
  by (cases rule: thread_step.cases)
    (auto simp: enter_client_def sem_send_def sem_receive_def leave_client_def set_flight_def start_flight_def dns_store_def Let_def split: option.splits)

lemma cap_inv_step:
  assumes "dns_step nf answers r r'" "cap_inv r"
  shows "cap_inv r'"
  using assms(1)
proof (cases rule: dns_step.cases)
  case (lookup cl net host)
  then show ?thesis using assms(2) by (simp add: cap_inv_def)
next
  case (thread i now r1 t' sp)
  let ?ts = "dr_threads r" and ?t = "dr_threads r ! i"
  have c: "cont_ok ?t" using assms(2) thread(2) by (simp add: cap_inv_def list_all_length)
  have pos: "0 < dr_global r" if "looking ?t"
    using cnt_nth [of i ?ts looking] thread(2) that assms(2) by (simp add: cap_inv_def)
  have g: "int (dr_global r1) = int (dr_global r) - of_bool (looking ?t) + of_bool (looking t') + cnt looking sp" "dr_global r1 \<le> maxConcurrent"
    using looking_step [OF thread(4) c pos] assms(2) by (auto simp: cap_inv_def)
  have "slots_ok (dr_slots r1) (dr_clients r1) (H (?ts[i := t'] @ sp)) (U (?ts[i := t'] @ sp))"
    using slots_step [OF thread(4) c] assms(2) thread(2) by (simp add: cap_inv_def)
  moreover have "list_all cont_ok (?ts[i := t'] @ sp)"
    using cont_step [OF thread(4) c] assms(2) thread(2) by (auto simp: cap_inv_def list_all_length nth_list_update nth_append)
  moreover have "int (dr_global r1) = cnt looking (?ts[i := t'] @ sp)" using g(1) assms(2) thread(2) by (simp add: cap_inv_def cnt_update)
  ultimately show ?thesis using g(2) thread(1) by (simp add: cap_inv_def)
qed

section \<open>Flights and answers\<close>

text \<open>A run whose flight is still in the map, and the run of a flight.\<close>

definition live_pcs :: "run_pc set" where "live_pcs = {RStart, RLooking, RLooked, RStore, RDelete}"

fun live :: "string \<Rightarrow> nat \<Rightarrow> thread \<Rightarrow> bool" where
  "live k f (Run key _ _ g _ pc) \<longleftrightarrow> key = k \<and> g = f \<and> pc \<in> live_pcs"
| "live k f (Call _ _ _ _) \<longleftrightarrow> False"

fun run_of :: "nat \<Rightarrow> thread \<Rightarrow> bool" where
  "run_of f (Run _ _ _ g _ _) \<longleftrightarrow> g = f"
| "run_of f (Call _ _ _ _) \<longleftrightarrow> False"

text \<open>A result for a key: an answer of the resolver for it, without the addresses of a failure, or an error of the context.\<close>

definition answered :: "Resolver \<Rightarrow> string \<Rightarrow> addr list \<Rightarrow> error option \<Rightarrow> bool" where
  "answered r key addrs err \<longleftrightarrow> (\<exists>as. (key, as, err) \<in> set (dr_answers r) \<and> (addrs = as \<or> err \<noteq> None \<and> addrs = []))"

definition result_ok :: "Resolver \<Rightarrow> string \<Rightarrow> addr list \<Rightarrow> error option \<Rightarrow> bool" where
  "result_ok r key addrs err \<longleftrightarrow> answered r key addrs err \<or> addrs = [] \<and> err \<in> {Some ctx_Canceled, Some ctx_DeadlineExceeded}"

fun pc_ok :: "Resolver \<Rightarrow> string \<Rightarrow> call_pc \<Rightarrow> bool" where
  "pc_ok r key (CWait f) \<longleftrightarrow> f < length (dr_flight r) \<and> fl_key (dr_flight r ! f) = key"
| "pc_ok r key (CReturned addrs err) \<longleftrightarrow> result_ok r key addrs err"
| "pc_ok r key (CRelease _ k) \<longleftrightarrow> pc_ok r key k"
| "pc_ok r key (CLeave _ _ k) \<longleftrightarrow> pc_ok r key k"
| "pc_ok r key _ \<longleftrightarrow> True"

text \<open>The contents of a flight at the stages of its run.\<close>

definition flight_ok :: "Resolver \<Rightarrow> flight \<Rightarrow> run_pc \<Rightarrow> bool" where
  "flight_ok r x pc \<longleftrightarrow>
     (fl_done x \<longleftrightarrow> pc \<in> {RRelease, RLeave, RDone}) \<and>
     (pc \<in> {RStart, RLooking} \<longrightarrow> fl_addrs x = [] \<and> fl_err x = None) \<and>
     (pc \<in> {RLooked, RStore} \<longrightarrow> answered r (fl_key x) (fl_addrs x) (fl_err x)) \<and>
     (pc \<in> {RDelete, RClose, RRelease, RLeave, RDone} \<longrightarrow> result_ok r (fl_key x) (fl_addrs x) (fl_err x))"

fun thread_ok :: "Resolver \<Rightarrow> thread \<Rightarrow> bool" where
  "thread_ok r (Call _ net host pc) \<longleftrightarrow> pc_ok r (dns_key net host) pc"
| "thread_ok r (Run key net host f _ pc) \<longleftrightarrow>
     key = dns_key net host \<and> f < length (dr_flight r) \<and> fl_key (dr_flight r ! f) = key \<and> flight_ok r (dr_flight r ! f) pc"

definition ttl_of :: "(error \<Rightarrow> bool) \<Rightarrow> error option \<Rightarrow> duration" where
  "ttl_of nf err = (case err of None \<Rightarrow> dns_ttl | Some e \<Rightarrow> if nf e then negativeTTL else failureTTL)"

definition entry_ok :: "(error \<Rightarrow> bool) \<Rightarrow> Resolver \<Rightarrow> string \<Rightarrow> dns_entry \<Rightarrow> bool" where
  "entry_ok nf r key e \<longleftrightarrow> answered r key (e_addrs e) (e_err e) \<and> e_expires e \<le> dr_clock r + ttl_of nf (e_err e)"

definition cache_inv :: "(error \<Rightarrow> bool) \<Rightarrow> Resolver \<Rightarrow> bool" where
  "cache_inv nf r \<longleftrightarrow>
     distinct (map fst (dr_flights r)) \<and> distinct (map fst (dr_entries r)) \<and> length (dr_entries r) \<le> maxEntries \<and>
     list_all (thread_ok r) (dr_threads r) \<and> list_all (\<lambda>(k, e). entry_ok nf r k e) (dr_entries r) \<and>
     (\<forall>k f. cnt (live k f) (dr_threads r) = of_bool ((k, f) \<in> set (dr_flights r))) \<and>
     (\<forall>f. cnt (run_of f) (dr_threads r) = of_bool (f < length (dr_flight r)))"

text \<open>A later state of the resolver: more flights, the same names, more answers.\<close>

definition extends :: "Resolver \<Rightarrow> Resolver \<Rightarrow> bool" where
  "extends r r' \<longleftrightarrow> length (dr_flight r) \<le> length (dr_flight r') \<and>
     (\<forall>f < length (dr_flight r). fl_key (dr_flight r' ! f) = fl_key (dr_flight r ! f)) \<and>
     set (dr_answers r) \<subseteq> set (dr_answers r')"

lemma answered_mono: "extends r r' \<Longrightarrow> answered r k as e \<Longrightarrow> answered r' k as e"
  by (auto simp: extends_def answered_def)

lemma result_mono: "extends r r' \<Longrightarrow> result_ok r k as e \<Longrightarrow> result_ok r' k as e"
  using answered_mono [of r r'] by (auto simp: result_ok_def)

lemma pc_ok_mono: "extends r r' \<Longrightarrow> pc_ok r k pc \<Longrightarrow> pc_ok r' k pc"
  by (induction pc) (simp_all add: result_mono, simp add: extends_def)

lemma flight_ok_mono: "extends r r' \<Longrightarrow> flight_ok r x pc \<Longrightarrow> flight_ok r' x pc"
  using answered_mono [of r r'] result_mono [of r r'] by (simp add: flight_ok_def)

text \<open>The steps change a flight only in its own run.\<close>

definition touches :: "Resolver \<Rightarrow> Resolver \<Rightarrow> thread \<Rightarrow> bool" where
  "touches r r' t \<longleftrightarrow> (\<forall>f < length (dr_flight r). dr_flight r' ! f = dr_flight r ! f \<or> run_of f t)"

lemmas dns_ops = enter_client_def sem_send_def sem_receive_def leave_client_def set_flight_def start_flight_def dns_store_def

lemma nth_update_key: "fl_key y = fl_key (xs ! f) \<Longrightarrow> fl_key (xs[f := y] ! g) = fl_key (xs ! g)"
  by (cases "f < length xs"; cases "f = g") (auto simp: list_update_beyond)

lemma nth_update_other: "xs[f := y] ! g = xs ! g \<or> f = g"
  by (cases "f = g") auto

lemma step_extends:
  assumes "thread_step nf answers now r t r' t' sp"
  shows "extends r r' \<and> touches r r' t"
  using assms
  by (cases rule: thread_step.cases)
    (auto simp: extends_def touches_def dns_ops nth_append nth_update_key nth_update_other Let_def split: option.splits)

lemma other_thread_ok:
  assumes "extends r r'" "touches r r' t" "thread_ok r u" "\<And>f. run_of f u \<Longrightarrow> run_of f t \<Longrightarrow> f < length (dr_flight r) \<Longrightarrow> False"
  shows "thread_ok r' u"
proof (cases u)
  case (Call cl net host pc)
  then show ?thesis using assms pc_ok_mono by simp
next
  case (Run key net host f s pc)
  then have "dr_flight r' ! f = dr_flight r ! f" using assms(2-4) by (auto simp: touches_def)
  then show ?thesis using assms(1,3) Run flight_ok_mono by (auto simp: extends_def)
qed


lemma ops_frame [simp]:
  "dr_flight (sem_send cs r) = dr_flight r" "dr_flights (sem_send cs r) = dr_flights r"
  "dr_answers (sem_send cs r) = dr_answers r" "dr_entries (sem_send cs r) = dr_entries r"
  "dr_flight (sem_receive cs r) = dr_flight r" "dr_flights (sem_receive cs r) = dr_flights r"
  "dr_answers (sem_receive cs r) = dr_answers r" "dr_entries (sem_receive cs r) = dr_entries r"
  "dr_flight (leave_client c cs r) = dr_flight r" "dr_flights (leave_client c cs r) = dr_flights r"
  "dr_answers (leave_client c cs r) = dr_answers r" "dr_entries (leave_client c cs r) = dr_entries r"
  "length (dr_flight (set_flight f g r)) = length (dr_flight r)" "dr_flights (set_flight f g r) = dr_flights r"
  "dr_answers (set_flight f g r) = dr_answers r" "dr_entries (set_flight f g r) = dr_entries r"
  "dr_flight (dns_store nf key as er n1 n2 ord r) = dr_flight r" "dr_flights (dns_store nf key as er n1 n2 ord r) = dr_flights r"
  "dr_answers (dns_store nf key as er n1 n2 ord r) = dr_answers r"
  by (simp_all add: dns_ops Let_def split: option.splits)

lemma enter_frame:
  "enter_client c r = (cs, r') \<Longrightarrow> dr_flight r' = dr_flight r \<and> dr_flights r' = dr_flights r \<and> dr_answers r' = dr_answers r \<and> dr_entries r' = dr_entries r"
  by (auto simp: enter_client_def Let_def split: option.splits)

lemma frame_ok:
  assumes "dr_flight r' = dr_flight r" "dr_answers r' = dr_answers r"
  shows "answered r' = answered r" "result_ok r' = result_ok r" "pc_ok r' = pc_ok r" "flight_ok r' = flight_ok r" "thread_ok r' = thread_ok r"
proof -
  show a: "answered r' = answered r" by (intro ext) (simp add: answered_def assms)
  then show b: "result_ok r' = result_ok r" by (intro ext) (simp add: result_ok_def)
  have "pc_ok r' k pc = pc_ok r k pc" for k pc by (induction pc) (simp_all add: assms b)
  then show c: "pc_ok r' = pc_ok r" by blast
  show d: "flight_ok r' = flight_ok r" by (intro ext) (simp add: flight_ok_def a b)
  show "thread_ok r' = thread_ok r"
  proof
    show "thread_ok r' t = thread_ok r t" for t by (cases t) (simp_all add: assms c d)
  qed
qed

lemmas ops_ok [simp] =
  frame_ok [of "sem_send cs r" r for cs r, simplified] frame_ok [of "sem_receive cs r" r for cs r, simplified]
  frame_ok [of "leave_client c cs r" r for c cs r, simplified] frame_ok [of "r\<lparr>dr_global := n\<rparr>" r for n r, simplified]
  frame_ok [of "r\<lparr>dr_flights := fs\<rparr>" r for fs r, simplified]
  frame_ok [of "dns_store nf key as er n1 n2 ord r" r for nf key as er n1 n2 ord r, simplified]

lemma flights_known:
  assumes "cache_inv nf r" "map_of (dr_flights r) k = Some f"
  shows "f < length (dr_flight r) \<and> fl_key (dr_flight r ! f) = k"
proof -
  have "(k, f) \<in> set (dr_flights r)" using assms(2) by (rule map_of_SomeD)
  then have "0 < cnt (live k f) (dr_threads r)" using assms(1) by (simp add: cache_inv_def)
  then obtain u where u: "u \<in> set (dr_threads r)" "live k f u" by (auto simp: cnt_pos_iff)
  then have "thread_ok r u" using assms(1) by (simp add: cache_inv_def list_all_iff)
  then show ?thesis using u(2) by (cases u) auto
qed

lemma flight_run:
  assumes "cache_inv nf r" "f < length (dr_flight r)"
  shows "\<exists>key net host s pc. Run key net host f s pc \<in> set (dr_threads r) \<and> thread_ok r (Run key net host f s pc)"
proof -
  have "0 < cnt (run_of f) (dr_threads r)" using assms by (simp add: cache_inv_def)
  then obtain u where u: "u \<in> set (dr_threads r)" "run_of f u" by (auto simp: cnt_pos_iff)
  then have "thread_ok r u" using assms(1) by (simp add: cache_inv_def list_all_iff)
  then show ?thesis using u by (cases u) auto
qed

lemma found_ok:
  assumes "cache_inv nf r" "findLocked r now key \<noteq> (None, None) \<or> pc_ok r key pc"
  shows "pc_ok r key (found (findLocked r now key) pc)"
proof -
  have "result_ok r key (e_addrs e) (e_err e)" if "map_of (dr_entries r) key = Some e" for e
    using assms(1) that by (auto simp: cache_inv_def list_all_iff entry_ok_def result_ok_def dest!: map_of_SomeD)
  then show ?thesis using assms flights_known [OF assms(1)]
    by (auto simp: found_def findLocked_def split: option.splits if_splits)
qed

lemma own_thread_ok:
  assumes "thread_step nf answers now r t r' t' sp" "cache_inv nf r" "thread_ok r t"
  shows "thread_ok r' t' \<and> list_all (thread_ok r') sp"
proof -
  have e: "result_ok r k [] (Some err)" if "err \<in> {ctx_Canceled, ctx_DeadlineExceeded}" for k err
    using that by (auto simp: result_ok_def)
  show ?thesis
    using assms(1)
  proof (cases rule: thread_step.cases)
    case (find cl net host)
    then show ?thesis using found_ok [OF assms(2), of now "dns_key net host" CNeedSlot] by simp
  next
    case (found_after net host cl s)
    then show ?thesis using found_ok [OF assms(2), of now "dns_key net host" CStart] by simp
  next
    case (start net host f cl s)
    then show ?thesis by (auto simp: start_flight_def flight_ok_def)
  next
    case (wait_done f cl net host)
    then have f: "f < length (dr_flight r)" "fl_key (dr_flight r ! f) = dns_key net host" using assms(3) by simp_all
    obtain key net' host' s pc where "thread_ok r (Run key net' host' f s pc)" using flight_run [OF assms(2) f(1)] by blast
    then have "result_ok r (dns_key net host) (fl_addrs (dr_flight r ! f)) (fl_err (dr_flight r ! f))"
      using f(2) wait_done(5) by (cases pc) (auto simp: flight_ok_def)
    then show ?thesis using wait_done by simp
  next
    case (run_timeout key net host f s)
    then show ?thesis using assms(3) by (auto simp: set_flight_def flight_ok_def result_ok_def)
  next
    case (run_answer net host addrs err key f s)
    then show ?thesis using assms(3) by (auto simp: set_flight_def flight_ok_def answered_def)
  next
    case (run_close key net host f s)
    then show ?thesis using assms(3) by (auto simp: set_flight_def flight_ok_def result_ok_def answered_def)
  next
    case (enter c cs net host)
    then show ?thesis by simp
  qed (use assms(3) e in \<open>auto simp: flight_ok_def result_ok_def\<close>)
qed

lemma evict_length: "fst ` set es \<subseteq> set ks \<Longrightarrow> length (evict ks es) < maxEntries"
proof (induction ks es rule: evict.induct)
  case (1 es)
  then show ?case by (auto simp: maxEntries_def)
next
  case (2 k ks es)
  have "fst ` set (filter (\<lambda>(j, _). j \<noteq> k) es) \<subseteq> set ks" using 2(2) by auto
  then show ?case using 2(1) by auto
qed

lemma evict_filter: "\<exists>P. evict ks es = filter P es"
proof (induction ks es rule: evict.induct)
  case (1 es)
  show ?case by (intro exI [of _ "\<lambda>_. True"]) simp
next
  case (2 k ks es)
  show ?case
  proof (cases "length es < maxEntries")
    case True
    then show ?thesis by (intro exI [of _ "\<lambda>_. True"]) simp
  next
    case False
    then show ?thesis using 2 by auto
  qed
qed

lemma make_space_spec:
  assumes "set order = fst ` set (filter (\<lambda>(_, old). now < e_expires old) es)"
  shows "length (make_space order now es) < maxEntries \<and> (\<exists>P. make_space order now es = filter P es)"
proof (cases "length es \<ge> maxEntries")
  case True
  let ?es = "filter (\<lambda>(_, old). now < e_expires old) es"
  obtain P where P: "evict order ?es = filter P ?es" using evict_filter by blast
  have "length (evict order ?es) < maxEntries" using assms by (intro evict_length) simp
  moreover have "make_space order now es = evict order ?es" using True by (simp add: make_space_def)
  ultimately show ?thesis using P by auto
next
  case False
  then show ?thesis by (auto simp: make_space_def intro: exI [of _ "\<lambda>_. True"])
qed

definition entries_inv :: "(error \<Rightarrow> bool) \<Rightarrow> Resolver \<Rightarrow> (string \<times> dns_entry) list \<Rightarrow> time \<Rightarrow> bool" where
  "entries_inv nf r es clock \<longleftrightarrow> distinct (map fst es) \<and> length es \<le> maxEntries \<and>
     list_all (\<lambda>(k, e). answered r k (e_addrs e) (e_err e) \<and> e_expires e \<le> clock + ttl_of nf (e_err e)) es"

lemma entry_of_ok:
  "entry_of nf as er now = Some e \<Longrightarrow> (key, as, er) \<in> set (dr_answers r) \<or> answered r key as er \<Longrightarrow>
   answered r key (e_addrs e) (e_err e) \<and> e_expires e = now + ttl_of nf (e_err e)"
  by (auto simp: entry_of_def answered_def ttl_of_def split: option.splits if_splits)

lemma entries_step:
  assumes "thread_step nf answers now r t r' t' sp" "entries_inv nf r (dr_entries r) (dr_clock r)" "thread_ok r t" "dr_clock r \<le> now"
  shows "entries_inv nf r' (dr_entries r') now"
proof -
  have ext: "extends r r'" using step_extends [OF assms(1)] ..
  have old: "entries_inv nf r' (filter P (dr_entries r)) now" for P
    using assms(2,4) answered_mono [OF ext]
    by (auto simp: entries_inv_def list_all_iff distinct_map_filter intro: le_trans [OF length_filter_le] order_trans)
  have id: "filter (\<lambda>_. True) (dr_entries r) = dr_entries r" by simp
  show ?thesis
  proof (cases "dr_entries r' = dr_entries r")
    case True
    then show ?thesis using old [of "\<lambda>_. True"] by simp
  next
    case False
    with assms(1) obtain key net host f s now1 order e where
      st: "t = Run key net host f s RStore" "now1 \<le> now" "set order = fst ` set (filter (\<lambda>(_, old). now < e_expires old) (dr_entries r))"
        "entry_of nf (fl_addrs (dr_flight r ! f)) (fl_err (dr_flight r ! f)) now1 = Some e"
        "dr_entries r' = AList.update key e (make_space order now (dr_entries r))" "dr_answers r' = dr_answers r"
      by (cases rule: thread_step.cases) (auto simp: dns_ops Let_def split: option.splits if_splits)
    have "answered r key (fl_addrs (dr_flight r ! f)) (fl_err (dr_flight r ! f))" using assms(3) st(1) by (auto simp: flight_ok_def)
    then have e: "answered r' key (e_addrs e) (e_err e) \<and> e_expires e \<le> now + ttl_of nf (e_err e)"
      using entry_of_ok [OF st(4)] answered_mono [OF ext] st(2) by fastforce
    obtain P where P: "make_space order now (dr_entries r) = filter P (dr_entries r)" "length (filter P (dr_entries r)) < maxEntries"
      using make_space_spec [OF st(3)] by metis
    have "list_all (\<lambda>(k, e). answered r' k (e_addrs e) (e_err e) \<and> e_expires e \<le> now + ttl_of nf (e_err e)) (dr_entries r')"
      using old [of P] e unfolding st(5) P(1) entries_inv_def list_all_iff by (auto dest!: in_set_update)
    then show ?thesis using old [of P] P(2) unfolding entries_inv_def st(5) P(1)
      by (auto simp: length_update distinct_update)
  qed
qed


text \<open>The map of flights and the runs that are in it, through a step.\<close>

lemma flights_step:
  assumes "thread_step nf answers now r t r' t' sp" "distinct (map fst (dr_flights r))"
    and "\<And>k f. live k f t \<Longrightarrow> (k, f) \<in> set (dr_flights r)"
  shows "distinct (map fst (dr_flights r')) \<and>
    (\<forall>k f. of_bool ((k, f) \<in> set (dr_flights r')) =
       (of_bool ((k, f) \<in> set (dr_flights r)) - of_bool (live k f t) + of_bool (live k f t') + cnt (live k f) sp :: int)) \<and>
    (\<forall>f. of_bool (f < length (dr_flight r')) =
       (of_bool (f < length (dr_flight r)) - of_bool (run_of f t) + of_bool (run_of f t') + cnt (run_of f) sp :: int))"
  using assms(1)
proof (cases rule: thread_step.cases)
  case (start net host f cl s)
  let ?k = "dns_key net host"
  have none: "map_of (dr_flights r) ?k = None"
    using start by (auto simp: findLocked_def split: option.splits if_splits)
  then have new: "f = length (dr_flight r)" "length (dr_flight r') = Suc f" "dr_flights r' = dr_flights r @ [(?k, f)]"
    using start by (auto simp: start_flight_def update_new)
  have no: "?k \<notin> fst ` set (dr_flights r)" using none by (simp add: map_of_eq_None_iff)
  then have fresh: "(?k, g) \<notin> set (dr_flights r)" for g by force
  have ts: "sp = [Run ?k net host f s RStart]" "t = Call cl net host (CHaveSlot s)" "t' = Call cl net host (CWait f)" using start by simp_all
  show ?thesis
  proof (intro conjI allI)
    show "distinct (map fst (dr_flights r'))" using no assms(2) by (simp add: new(3))
    show "of_bool ((k, g) \<in> set (dr_flights r')) =
       (of_bool ((k, g) \<in> set (dr_flights r)) - of_bool (live k g t) + of_bool (live k g t') + cnt (live k g) sp :: int)" for k g
      using fresh by (cases "k = ?k \<and> g = f") (auto simp: new(3) ts live_pcs_def)
    show "of_bool (g < length (dr_flight r')) =
       (of_bool (g < length (dr_flight r)) - of_bool (run_of g t) + of_bool (run_of g t') + cnt (run_of g) sp :: int)" for g
      unfolding new(2) ts new(1) [symmetric] by (cases "g = f") auto
  qed
next
  case (run_delete key net host f s)
  have m: "(key, f) \<in> set (dr_flights r)" by (rule assms(3)) (simp add: run_delete live_pcs_def)
  have uniq: "g = f" if "(key, g) \<in> set (dr_flights r)" for g
    using that m assms(2) by (metis eq_key_imp_eq_value)
  show ?thesis
  proof (intro conjI allI)
    show "distinct (map fst (dr_flights r'))" using assms(2) by (simp add: run_delete distinct_map_filter)
    show "of_bool ((k, g) \<in> set (dr_flights r')) =
       (of_bool ((k, g) \<in> set (dr_flights r)) - of_bool (live k g t) + of_bool (live k g t') + cnt (live k g) sp :: int)" for k g
    proof (cases "k = key")
      case True
      then show ?thesis using m uniq [of g] by (cases "g = f") (auto simp: run_delete live_pcs_def)
    qed (simp add: run_delete)
  qed (simp add: run_delete)
qed (use assms(2) enter_frame in \<open>auto simp: live_pcs_def\<close>)

lemma cache_inv_entries: "cache_inv nf r \<Longrightarrow> entries_inv nf r (dr_entries r) (dr_clock r)"
  by (auto simp: cache_inv_def entries_inv_def entry_ok_def)

lemma cache_inv_step:
  assumes "dns_step nf answers r r'" "cache_inv nf r"
  shows "cache_inv nf r'"
  using assms(1)
proof (cases rule: dns_step.cases)
  case (lookup cl net host)
  have "thread_ok r' = thread_ok r" "answered r' = answered r" by (rule frame_ok; simp add: lookup)+
  then show ?thesis using assms(2) lookup by (simp add: cache_inv_def entry_ok_def)
next
  case (thread i now r1 t' sp)
  let ?ts = "dr_threads r" and ?t = "dr_threads r ! i"
  have fr: "thread_ok r' = thread_ok r1" "answered r' = answered r1" by (rule frame_ok; simp add: thread(1))+
  have ok: "thread_ok r ?t" using assms(2) thread(2) by (simp add: cache_inv_def list_all_length)
  have ext: "extends r r1" "touches r r1 ?t" using step_extends [OF thread(4)] by auto
  have "list_all (thread_ok r1) (?ts[i := t'] @ sp)"
  proof -
    have "thread_ok r1 (?ts ! j)" if "j < length ?ts" "j \<noteq> i" for j
    proof (rule other_thread_ok [OF ext])
      show "thread_ok r (?ts ! j)" using assms(2) that(1) by (simp add: cache_inv_def list_all_length)
      show False if f: "run_of f (?ts ! j)" "run_of f ?t" "f < length (dr_flight r)" for f
      proof -
        have "cnt (run_of f) (?ts[i := Call None [] [] CStart]) = 0"
          using assms(2) f thread(2) by (simp add: cnt_update cache_inv_def)
        moreover have "0 < cnt (run_of f) (?ts[i := Call None [] [] CStart])"
          using \<open>j < length ?ts\<close> \<open>j \<noteq> i\<close> f(1) by (intro cnt_nth [of j]) simp_all
        ultimately show False by simp
      qed
    qed
    then show ?thesis using own_thread_ok [OF thread(4) assms(2) ok] thread(2)
      by (auto simp: list_all_length nth_list_update nth_append)
  qed
  moreover have "entries_inv nf r1 (dr_entries r1) now"
    using entries_step [OF thread(4) cache_inv_entries [OF assms(2)] ok thread(3)] .
  moreover have "(k, f) \<in> set (dr_flights r)" if "live k f ?t" for k f
    using cnt_nth [of i ?ts "live k f"] thread(2) that assms(2) by (simp add: cache_inv_def split: if_splits)
  note fl = flights_step [OF thread(4) _ this]
  have "distinct (map fst (dr_flights r1))" "\<And>k f. cnt (live k f) (?ts[i := t'] @ sp) = of_bool ((k, f) \<in> set (dr_flights r1))"
    "\<And>f. cnt (run_of f) (?ts[i := t'] @ sp) = of_bool (f < length (dr_flight r1))"
    using fl assms(2) thread(2) by (simp_all add: cache_inv_def cnt_update)
  ultimately show ?thesis unfolding cache_inv_def entry_ok_def fr by (simp add: thread(1) entries_inv_def)
qed

section \<open>Reachable states\<close>

definition answers_inv :: "(string \<Rightarrow> string \<Rightarrow> addr list \<Rightarrow> error option \<Rightarrow> bool) \<Rightarrow> Resolver \<Rightarrow> bool" where
  "answers_inv answers r \<longleftrightarrow> (\<forall>(k, as, e) \<in> set (dr_answers r). \<exists>net host. k = dns_key net host \<and> answers net host as e)"

lemma answers_step:
  assumes "thread_step nf answers now r t r' t' sp" "answers_inv answers r" "thread_ok r t"
  shows "answers_inv answers r'"
  using assms(1)
proof (cases rule: thread_step.cases)
  case (run_answer net host addrs err key f s)
  then show ?thesis using assms(2,3) by (auto simp: answers_inv_def)
qed (use assms(2) enter_frame in \<open>auto simp: answers_inv_def start_flight_def\<close>)

definition dns_inv :: "(error \<Rightarrow> bool) \<Rightarrow> (string \<Rightarrow> string \<Rightarrow> addr list \<Rightarrow> error option \<Rightarrow> bool) \<Rightarrow> Resolver \<Rightarrow> bool" where
  "dns_inv nf answers r \<longleftrightarrow> cap_inv r \<and> cache_inv nf r \<and> answers_inv answers r"

lemma dns_inv_New: "dns_inv nf answers (dns_New now0)"
  by (simp add: dns_inv_def cap_inv_def cache_inv_def answers_inv_def dns_New_def slots_ok_def)

lemma dns_inv_step:
  assumes "dns_step nf answers r r'" "dns_inv nf answers r"
  shows "dns_inv nf answers r'"
proof -
  have "cap_inv r'" "cache_inv nf r'" using cap_inv_step cache_inv_step assms by (auto simp: dns_inv_def)
  moreover have "answers_inv answers r'"
    using assms(1)
  proof (cases rule: dns_step.cases)
    case (lookup cl net host)
    then show ?thesis using assms(2) by (simp add: dns_inv_def answers_inv_def)
  next
    case (thread i now r1 t' sp)
    have "thread_ok r (dr_threads r ! i)" using assms(2) thread(2) by (simp add: dns_inv_def cache_inv_def list_all_length)
    then have "answers_inv answers r1" using answers_step [OF thread(4)] assms(2) by (simp add: dns_inv_def)
    then show ?thesis by (simp add: thread(1) answers_inv_def)
  qed
  ultimately show ?thesis by (simp add: dns_inv_def)
qed

interpretation cache_machine: step_invariant "dns_step nf answers" "\<lambda>r. \<exists>now0. r = dns_New now0" "dns_inv nf answers" for nf answers
  by unfold_locales (auto intro: dns_inv_New dns_inv_step)

lemma dns_inv_reachable: "(dns_step nf answers)\<^sup>*\<^sup>* (dns_New now0) r \<Longrightarrow> dns_inv nf answers r"
  by (rule cache_machine.holds_after) auto

text \<open>What a call returned is an error of its context or an answer for its key.\<close>

lemma dns_key_inject:
  "CHR ''|'' \<notin> set net \<Longrightarrow> CHR ''|'' \<notin> set net' \<Longrightarrow> dns_key net' host' = dns_key net host \<Longrightarrow> net' = net \<and> host' = host"
  using sep_append_inject [of "CHR ''|''" net' net host' host] by (simp add: dns_key_def)

lemma returned_answer:
  assumes "dns_inv nf answers r" "Call cl net host (CReturned as er) \<in> set (dr_threads r)"
  shows "as = [] \<and> er \<in> {Some ctx_Canceled, Some ctx_DeadlineExceeded} \<or>
    (\<exists>net' host' as'. answers net' host' as' er \<and> dns_key net' host' = dns_key net host \<and> (as = as' \<or> er \<noteq> None \<and> as = []))"
proof -
  have "list_all (thread_ok r) (dr_threads r)" using assms(1) by (simp add: dns_inv_def cache_inv_def)
  then have "thread_ok r (Call cl net host (CReturned as er))" using assms(2) unfolding list_all_iff by blast
  then have "result_ok r (dns_key net host) as er" by simp
  then consider "as = []" "er \<in> {Some ctx_Canceled, Some ctx_DeadlineExceeded}" | "answered r (dns_key net host) as er"
    by (auto simp: result_ok_def)
  then show ?thesis
  proof cases
    case 2
    then obtain as' where a: "(dns_key net host, as', er) \<in> set (dr_answers r)" "as = as' \<or> er \<noteq> None \<and> as = []"
      by (auto simp: answered_def)
    then show ?thesis using assms(1) by (fastforce simp: dns_inv_def answers_inv_def)
  qed blast
qed

text \<open>A run that takes one of its client's slots, and a run of a name in the map of flights.\<close>

fun run_for :: "addr \<Rightarrow> thread \<Rightarrow> bool" where
  "run_for c (Run _ _ _ _ s pc) \<longleftrightarrow> (case s of None \<Rightarrow> False | Some (d, _) \<Rightarrow> d = c) \<and> pc \<noteq> RLeave \<and> pc \<noteq> RDone"
| "run_for c (Call _ _ _ _) \<longleftrightarrow> False"

fun run_name :: "string \<Rightarrow> thread \<Rightarrow> bool" where
  "run_name k (Run key _ _ _ _ pc) \<longleftrightarrow> key = k \<and> pc \<in> {RStart, RLooking, RLooked, RStore, RDelete}"
| "run_name k (Call _ _ _ _) \<longleftrightarrow> False"

lemma run_for_holds: "run_for c t \<Longrightarrow> \<exists>cs. holds c cs t"
  by (cases t) (auto split: option.splits)

lemma run_name_live: "run_name k t \<longleftrightarrow> (\<exists>f. live k f t)"
  by (cases t) (auto simp: live_pcs_def)

lemma cnt_bound_unique:
  assumes "\<And>t. t \<in> set ts \<Longrightarrow> P t \<Longrightarrow> \<exists>x. Q x t" "\<And>x y. 0 < cnt (Q x) ts \<Longrightarrow> 0 < cnt (Q y) ts \<Longrightarrow> x = y" "\<And>x. cnt (Q x) ts \<le> b" "0 \<le> b"
  shows "cnt P ts \<le> b"
proof (cases "\<exists>t \<in> set ts. P t")
  case True
  then obtain t x where "t \<in> set ts" "P t" "Q x t" using assms(1) by blast
  then have x: "0 < cnt (Q x) ts" by (auto simp: cnt_pos_iff)
  have "Q x u" if "u \<in> set ts" "P u" for u
  proof -
    obtain y where "Q y u" using assms(1) \<open>u \<in> set ts\<close> \<open>P u\<close> by blast
    then show ?thesis using assms(2) [OF x, of y] \<open>u \<in> set ts\<close> by (auto simp: cnt_pos_iff)
  qed
  then have "length (filter P us) \<le> length (filter (Q x) us)" if "set us \<subseteq> set ts" for us
    using that by (induction us) auto
  then have "cnt P ts \<le> cnt (Q x) ts" by (simp add: cnt_def)
  then show ?thesis using assms(3) [of x] by simp
next
  case False
  then have "cnt P ts = 0" by (auto simp: cnt_def filter_empty_conv)
  then show ?thesis using assms(4) by simp
qed

section \<open>Properties\<close>

text \<open>
  C37.  Lookups stay within their capacity.  In every reachable state at most 256 lookups of the
  resolver behind the cache are in progress, at most 32 of any one client, at most one for any
  one name, and the cache holds at most 10000 entries; a client's slots are counted exactly.
\<close>

theorem dns_capacity:
  assumes "(dns_step nf answers)\<^sup>*\<^sup>* (dns_New now0) r"
  shows "length (filter looking (dr_threads r)) \<le> 256 \<and> length (filter (run_for c) (dr_threads r)) \<le> 32 \<and>
    length (filter (run_name k) (dr_threads r)) \<le> 1 \<and> length (dr_entries r) \<le> 10000 \<and>
    (\<forall>cs. map_of (dr_clients r) c = Some cs \<longrightarrow> cs_sem (dr_slots r ! cs) = length (filter (holds c cs) (dr_threads r)) \<and>
       cs_users (dr_slots r ! cs) = int (length (filter (users c cs) (dr_threads r))))"
proof (intro conjI allI impI)
  let ?ts = "dr_threads r"
  have inv: "cap_inv r" "cache_inv nf r" using dns_inv_reachable [OF assms] by (simp_all add: dns_inv_def)
  have s: "slots_ok (dr_slots r) (dr_clients r) (H ?ts) (U ?ts)" using inv(1) by (simp add: cap_inv_def)
  show "length (filter looking ?ts) \<le> 256" using inv(1) by (simp add: cap_inv_def cnt_def maxConcurrent_def)
  show "length (dr_entries r) \<le> 10000" using inv(2) by (simp add: cache_inv_def maxEntries_def)
  have mem: "(d, ds) \<in> set (dr_clients r)" if "0 < H ?ts d ds" for d ds
    using that H_le_U [of d ds ?ts] by (intro slots_ok_mem [OF s]) simp
  have "cnt (run_for c) ?ts \<le> 32"
  proof (rule cnt_bound_unique [where Q = "holds c"])
    show "\<exists>x. holds c x t" if "run_for c t" for t using that by (rule run_for_holds)
    show "x = y" if "0 < H ?ts c x" "0 < H ?ts c y" for x y
      using slots_other [OF s mem [OF that(1)] mem [OF that(2)]] by simp
    show "H ?ts c x \<le> 32" for x
      using slots_ok_at [OF s mem, of c x] by (cases "0 < H ?ts c x") (auto simp: maxPerClient_def)
  qed simp
  then show "length (filter (run_for c) ?ts) \<le> 32" by (simp add: cnt_def)
  have live: "cnt (live k f) ?ts = of_bool ((k, f) \<in> set (dr_flights r))" for f using inv(2) by (simp add: cache_inv_def)
  have "cnt (run_name k) ?ts \<le> 1"
  proof (rule cnt_bound_unique [where Q = "live k"])
    show "\<exists>x. live k x t" if "run_name k t" for t using that by (simp add: run_name_live)
    show "x = y" if "0 < cnt (live k x) ?ts" "0 < cnt (live k y) ?ts" for x y
      using that inv(2) unfolding live by (auto simp: cache_inv_def dest: eq_key_imp_eq_value split: if_splits)
    show "cnt (live k x) ?ts \<le> 1" for x by (simp add: live)
  qed simp
  then show "length (filter (run_name k) ?ts) \<le> 1" by (simp add: cnt_def)
  fix cs assume "map_of (dr_clients r) c = Some cs"
  then have "(c, cs) \<in> set (dr_clients r)" by (rule map_of_SomeD)
  then show "cs_sem (dr_slots r ! cs) = length (filter (holds c cs) ?ts)" "cs_users (dr_slots r ! cs) = int (length (filter (users c cs) ?ts))"
    using slots_ok_at [OF s] by (simp_all add: cnt_def)
qed

text \<open>One lookup from the call to its return, by a resolver that knows one address.\<close>

definition demo_answers :: "string \<Rightarrow> string \<Rightarrow> addr list \<Rightarrow> error option \<Rightarrow> bool" where
  "demo_answers net host as er \<longleftrightarrow> as = [Addr4 0x08080808] \<and> er = None"

definition demo_flight :: "addr list \<Rightarrow> bool \<Rightarrow> flight" where
  "demo_flight as d = \<lparr>fl_key = ''ip|a'', fl_done = d, fl_addrs = as, fl_err = None\<rparr>"

definition demo_dns ::
  "(string \<times> dns_entry) list \<Rightarrow> (string \<times> nat) list \<Rightarrow> flight list \<Rightarrow> nat \<Rightarrow> (string \<times> addr list \<times> error option) list \<Rightarrow> thread list \<Rightarrow> Resolver" where
  "demo_dns es fs fl g an ts =
     \<lparr>dr_entries = es, dr_flights = fs, dr_clients = [], dr_flight = fl, dr_slots = [], dr_global = g, dr_answers = an, dr_threads = ts, dr_clock = 0\<rparr>"

definition demo_call :: "call_pc \<Rightarrow> thread" where
  "demo_call pc = Call None ''ip'' ''a'' pc"

definition demo_run :: "run_pc \<Rightarrow> thread" where
  "demo_run pc = Run ''ip|a'' ''ip'' ''a'' 0 None pc"

definition demo_entry :: "string \<times> dns_entry" where
  "demo_entry = (''ip|a'', \<lparr>e_addrs = [Addr4 0x08080808], e_err = None, e_expires = dns_ttl\<rparr>)"

lemma demo_dns_step:
  assumes "i < length ts" "thread_step nf answers 0 (demo_dns es fs fl g an ts) (ts ! i) (demo_dns es' fs' fl' g' an' ts) t' sp" "ts' = ts[i := t'] @ sp"
  shows "dns_step nf answers (demo_dns es fs fl g an ts) (demo_dns es' fs' fl' g' an' ts')"
  using dns_step.thread [of i "demo_dns es fs fl g an ts" 0 nf answers "demo_dns es' fs' fl' g' an' ts" t' sp] assms
  by (simp add: demo_dns_def)

lemma demo_dns_run:
  "(dns_step (\<lambda>_. False) demo_answers)\<^sup>*\<^sup>* (dns_New 0)
     (demo_dns [demo_entry] [] [demo_flight [Addr4 0x08080808] True] 0 [(''ip|a'', [Addr4 0x08080808], None)]
        [demo_call (CReturned [Addr4 0x08080808] None), demo_run RRelease])"
proof -
  let ?st = "dns_step (\<lambda>_. False) demo_answers"
  let ?as = "[Addr4 0x08080808]" and ?an = "[(''ip|a'', [Addr4 0x08080808], None :: error option)]"
  note defs = demo_dns_def demo_call_def demo_run_def demo_flight_def demo_entry_def dns_key_def findLocked_def found_def
  have s1: "?st (dns_New 0) (demo_dns [] [] [] 0 [] [demo_call CStart])"
    using dns_step.lookup [of _ _ "dns_New 0" None "''ip''" "''a''"] by (simp add: dns_New_def defs)
  have s2: "?st (demo_dns [] [] [] 0 [] [demo_call CStart]) (demo_dns [] [] [] 0 [] [demo_call CNeedSlot])"
    using thread_step.find [of _ _ 0 "demo_dns [] [] [] 0 [] [demo_call CStart]" None "''ip''" "''a''"]
    by (intro demo_dns_step [of 0]) (simp_all add: defs)
  have s3: "?st (demo_dns [] [] [] 0 [] [demo_call CNeedSlot]) (demo_dns [] [] [] 0 [] [demo_call (CHaveSlot None)])"
    using thread_step.untagged [of _ _ 0 "demo_dns [] [] [] 0 [] [demo_call CNeedSlot]" "''ip''" "''a''"]
    by (intro demo_dns_step [of 0]) (simp_all add: defs)
  have s4: "?st (demo_dns [] [] [] 0 [] [demo_call (CHaveSlot None)])
      (demo_dns [] [(''ip|a'', 0)] [demo_flight [] False] 0 [] [demo_call (CWait 0), demo_run RStart])"
    using thread_step.start [of "demo_dns [] [] [] 0 [] [demo_call (CHaveSlot None)]" 0 "''ip''" "''a''" 0
        "demo_dns [] [(''ip|a'', 0)] [demo_flight [] False] 0 [] [demo_call (CHaveSlot None)]" "\<lambda>_. False" demo_answers None None]
    by (intro demo_dns_step [of 0]) (simp_all add: defs start_flight_def)
  have s5: "?st (demo_dns [] [(''ip|a'', 0)] [demo_flight [] False] 0 [] [demo_call (CWait 0), demo_run RStart])
      (demo_dns [] [(''ip|a'', 0)] [demo_flight [] False] 1 [] [demo_call (CWait 0), demo_run RLooking])"
    using thread_step.run_slot [of "demo_dns [] [(''ip|a'', 0)] [demo_flight [] False] 0 [] [demo_call (CWait 0), demo_run RStart]"
        "\<lambda>_. False" demo_answers 0 "''ip|a''" "''ip''" "''a''" 0 None]
    by (intro demo_dns_step [of 1]) (simp_all add: defs maxConcurrent_def)
  have s6: "?st (demo_dns [] [(''ip|a'', 0)] [demo_flight [] False] 1 [] [demo_call (CWait 0), demo_run RLooking])
      (demo_dns [] [(''ip|a'', 0)] [demo_flight ?as False] 1 ?an [demo_call (CWait 0), demo_run RLooked])"
    using thread_step.run_answer [of demo_answers "''ip''" "''a''" ?as None "\<lambda>_. False" 0
        "demo_dns [] [(''ip|a'', 0)] [demo_flight [] False] 1 [] [demo_call (CWait 0), demo_run RLooking]" "''ip|a''" 0 None]
    by (intro demo_dns_step [of 1]) (simp_all add: defs demo_answers_def set_flight_def)
  have s7: "?st (demo_dns [] [(''ip|a'', 0)] [demo_flight ?as False] 1 ?an [demo_call (CWait 0), demo_run RLooked])
      (demo_dns [] [(''ip|a'', 0)] [demo_flight ?as False] 0 ?an [demo_call (CWait 0), demo_run RStore])"
    using thread_step.run_free [of "\<lambda>_. False" demo_answers 0 "demo_dns [] [(''ip|a'', 0)] [demo_flight ?as False] 1 ?an [demo_call (CWait 0), demo_run RLooked]"
        "''ip|a''" "''ip''" "''a''" 0 None]
    by (intro demo_dns_step [of 1]) (simp_all add: defs)
  have s8: "?st (demo_dns [] [(''ip|a'', 0)] [demo_flight ?as False] 0 ?an [demo_call (CWait 0), demo_run RStore])
      (demo_dns [demo_entry] [(''ip|a'', 0)] [demo_flight ?as False] 0 ?an [demo_call (CWait 0), demo_run RDelete])"
    using thread_step.run_store [of 0 0 "demo_dns [] [(''ip|a'', 0)] [demo_flight ?as False] 0 ?an [demo_call (CWait 0), demo_run RStore]"
        "[]" "\<lambda>_. False" demo_answers "''ip|a''" "''ip''" "''a''" 0 None]
    by (intro demo_dns_step [of 1]) (simp_all add: defs dns_store_def entry_of_def make_space_def maxEntries_def)
  have s9: "?st (demo_dns [demo_entry] [(''ip|a'', 0)] [demo_flight ?as False] 0 ?an [demo_call (CWait 0), demo_run RDelete])
      (demo_dns [demo_entry] [] [demo_flight ?as False] 0 ?an [demo_call (CWait 0), demo_run RClose])"
    using thread_step.run_delete [of "\<lambda>_. False" demo_answers 0 "demo_dns [demo_entry] [(''ip|a'', 0)] [demo_flight ?as False] 0 ?an [demo_call (CWait 0), demo_run RDelete]"
        "''ip|a''" "''ip''" "''a''" 0 None]
    by (intro demo_dns_step [of 1]) (simp_all add: defs)
  have s10: "?st (demo_dns [demo_entry] [] [demo_flight ?as False] 0 ?an [demo_call (CWait 0), demo_run RClose])
      (demo_dns [demo_entry] [] [demo_flight ?as True] 0 ?an [demo_call (CWait 0), demo_run RRelease])"
    using thread_step.run_close [of "\<lambda>_. False" demo_answers 0 "demo_dns [demo_entry] [] [demo_flight ?as False] 0 ?an [demo_call (CWait 0), demo_run RClose]"
        "''ip|a''" "''ip''" "''a''" 0 None]
    by (intro demo_dns_step [of 1]) (simp_all add: defs set_flight_def)
  have s11: "?st (demo_dns [demo_entry] [] [demo_flight ?as True] 0 ?an [demo_call (CWait 0), demo_run RRelease])
      (demo_dns [demo_entry] [] [demo_flight ?as True] 0 ?an [demo_call (CReturned ?as None), demo_run RRelease])"
    using thread_step.wait_done [of "demo_dns [demo_entry] [] [demo_flight ?as True] 0 ?an [demo_call (CWait 0), demo_run RRelease]" 0
        "\<lambda>_. False" demo_answers 0 None "''ip''" "''a''"]
    by (intro demo_dns_step [of 0]) (simp_all add: defs)
  show ?thesis
    by (rule converse_rtranclp_into_rtranclp, rule s1, rule converse_rtranclp_into_rtranclp, rule s2,
        rule converse_rtranclp_into_rtranclp, rule s3, rule converse_rtranclp_into_rtranclp, rule s4,
        rule converse_rtranclp_into_rtranclp, rule s5, rule converse_rtranclp_into_rtranclp, rule s6,
        rule converse_rtranclp_into_rtranclp, rule s7, rule converse_rtranclp_into_rtranclp, rule s8,
        rule converse_rtranclp_into_rtranclp, rule s9, rule converse_rtranclp_into_rtranclp, rule s10, rule r_into_rtranclp, rule s11)
qed

theorem dns_capacity_witness:
  "length (filter looking [demo_call (CReturned [Addr4 0x08080808] None), demo_run RRelease]) \<le> 256 \<and> length [demo_entry] \<le> 10000"
  using dns_capacity [OF demo_dns_run] by (simp add: demo_dns_def)

text \<open>
  C11.  The cache gives only answers of the resolver behind it.  What a call returns is an error of
  its context, or an answer that the resolver gave for the key of the call, and hence for the
  same network and host when the networks have no separator in them, an error possibly without addresses; an
  entry is used only before it expires, which is at most 30 seconds for addresses, 5 for a
  missing name and 3 for another failure after now; and a call that waits does so for a lookup of
  its key that is finished or still under way.
\<close>

theorem dns_answers_sound:
  assumes "(dns_step nf answers)\<^sup>*\<^sup>* (dns_New now0) r"
  shows "(Call cl net host (CReturned as er) \<in> set (dr_threads r) \<longrightarrow>
      as = [] \<and> er \<in> {Some ctx_Canceled, Some ctx_DeadlineExceeded} \<or>
      (\<exists>net' host' as'. answers net' host' as' er \<and> dns_key net' host' = dns_key net host \<and>
         (CHR ''|'' \<notin> set net \<and> CHR ''|'' \<notin> set net' \<longrightarrow> net' = net \<and> host' = host) \<and> (as = as' \<or> er \<noteq> None \<and> as = []))) \<and>
    (\<forall>e. findLocked r now key = (None, Some e) \<longrightarrow> now < e_expires e \<and>
       e_expires e \<le> dr_clock r + (case e_err e of None \<Rightarrow> 30 * 10 ^ 9 | Some x \<Rightarrow> if nf x then 5 * 10 ^ 9 else 3 * 10 ^ 9)) \<and>
    (\<forall>f. Call cl net host (CWait f) \<in> set (dr_threads r) \<longrightarrow>
       (\<exists>n h s pc. Run (dns_key net host) n h f s pc \<in> set (dr_threads r) \<and>
          (pc \<in> {RRelease, RLeave, RDone} \<longleftrightarrow> fl_done (dr_flight r ! f))))"
proof (intro conjI allI impI)
  assume "Call cl net host (CReturned as er) \<in> set (dr_threads r)"
  then show "as = [] \<and> er \<in> {Some ctx_Canceled, Some ctx_DeadlineExceeded} \<or>
      (\<exists>net' host' as'. answers net' host' as' er \<and> dns_key net' host' = dns_key net host \<and>
         (CHR ''|'' \<notin> set net \<and> CHR ''|'' \<notin> set net' \<longrightarrow> net' = net \<and> host' = host) \<and> (as = as' \<or> er \<noteq> None \<and> as = []))"
    using returned_answer [OF dns_inv_reachable [OF assms]] dns_key_inject by metis
next
  fix e assume f: "findLocked r now key = (None, Some e)"
  then have e: "map_of (dr_entries r) key = Some e" "now < e_expires e" by (auto simp: findLocked_def split: option.splits if_splits)
  then show "now < e_expires e" by simp
  show "e_expires e \<le> dr_clock r + (case e_err e of None \<Rightarrow> 30 * 10 ^ 9 | Some x \<Rightarrow> if nf x then 5 * 10 ^ 9 else 3 * 10 ^ 9)"
  proof -
    have "entry_ok nf r key e"
      using map_of_SomeD [OF e(1)] dns_inv_reachable [OF assms] by (auto simp: dns_inv_def cache_inv_def list_all_iff)
    moreover have "ttl_of nf (e_err e) = (case e_err e of None \<Rightarrow> 30 * 10 ^ 9 | Some x \<Rightarrow> if nf x then 5 * 10 ^ 9 else 3 * 10 ^ 9)"
      by (cases "e_err e") (simp_all add: ttl_of_def dns_ttl_def negativeTTL_def failureTTL_def)
    ultimately show ?thesis by (simp only: entry_ok_def)
  qed
next
  fix f assume w: "Call cl net host (CWait f) \<in> set (dr_threads r)"
  have inv: "cache_inv nf r" using dns_inv_reachable [OF assms] by (simp add: dns_inv_def)
  have f: "f < length (dr_flight r)" "fl_key (dr_flight r ! f) = dns_key net host"
    using w inv by (fastforce simp: cache_inv_def list_all_iff)+
  then obtain key n h s pc where "Run key n h f s pc \<in> set (dr_threads r)" "thread_ok r (Run key n h f s pc)"
    using flight_run [OF inv] by blast
  then show "\<exists>n h s pc. Run (dns_key net host) n h f s pc \<in> set (dr_threads r) \<and>
          (pc \<in> {RRelease, RLeave, RDone} \<longleftrightarrow> fl_done (dr_flight r ! f))"
    unfolding thread_ok.simps flight_ok_def f(2) by metis
qed


theorem dns_answers_sound_witness:
  "\<exists>net' host' as'. demo_answers net' host' as' None \<and> dns_key net' host' = dns_key ''ip'' ''a'' \<and> [Addr4 0x08080808] = as'"
  using dns_answers_sound [OF demo_dns_run, of None "''ip''" "''a''" "[Addr4 0x08080808]" None 0 "''ip|a''"]
  by (auto simp: demo_dns_def demo_call_def)

end
