(* ===== verification/Access_Log.thy ===== *)
theory Access_Log
  imports Client_Limits Config Upstream Dns_Cache
begin

text \<open>
  \<^verbatim>\<open>internal/proxy/log.go\<close>: the access log, its budget per client, and the summaries of what the
  budget suppressed.

  A log event is a level, its fields in order and a message; \<open>enabled\<close> says which levels the
  logger writes.  The state of the proxy is that of \<^verbatim>\<open>proxy.go\<close>, with the lines written so far;
  its configuration and its resolver are arguments of the operations that use them.
\<close>

section \<open>Log lines\<close>

datatype log_level = Debug | Info | Warn

datatype log_value = LStr string | LInt int | LReason reason | LErr error | LDict "(string \<times> int) list"

record log_line =
  ll_level :: log_level
  ll_fields :: "(string \<times> log_value) list"
  ll_msg :: string

record Proxy =
  px_clients :: Tracker
  px_upstream :: upstreamPools
  px_log :: "log_line list"

definition maxLogHost :: nat where "maxLogHost = 253"
definition maxLogMethod :: nat where "maxLogMethod = 32"
definition maxLogPort :: nat where "maxLogPort = 16"

definition clip :: "string \<Rightarrow> nat \<Rightarrow> string" where
  "clip s n = (if length s \<le> n then s else take n s @ ''...('' @ itoa (length s) @ '' bytes)'')"

text \<open>\<^verbatim>\<open>ev.Msg(msg)\<close>: an event of a level that is not written leaves no trace.\<close>

definition emit :: "(log_level \<Rightarrow> bool) \<Rightarrow> log_level \<Rightarrow> (string \<times> log_value) list \<Rightarrow> string \<Rightarrow> Proxy \<Rightarrow> Proxy" where
  "emit enabled lvl flds msg p =
     (if enabled lvl then p\<lparr>px_log := px_log p @ [\<lparr>ll_level = lvl, ll_fields = flds, ll_msg = msg\<rparr>]\<rparr> else p)"

definition sample :: "(log_level \<Rightarrow> bool) \<Rightarrow> log_level \<Rightarrow> Proxy \<Rightarrow> addr \<Rightarrow> string \<Rightarrow> string \<Rightarrow> time \<Rightarrow> bool \<times> Proxy" where
  "sample enabled lvl p client action host now =
     (if \<not> enabled lvl then (False, p)
      else (case Log (px_clients p) client action host now of (ok, t) \<Rightarrow> (ok, p\<lparr>px_clients := t\<rparr>)))"

text \<open>
  \<^verbatim>\<open>strings.HasPrefix(d.Reason, prefix)\<close>; the texts that the code puts before an error are at least as long as
  the prefix it looks for.
\<close>

fun reason_HasPrefix :: "reason \<Rightarrow> string \<Rightarrow> bool" where
  "reason_HasPrefix (Reason s) prefix = HasPrefix s prefix"
| "reason_HasPrefix (ReasonErr s _) prefix = HasPrefix s prefix"

definition logDecision ::
  "(log_level \<Rightarrow> bool) \<Rightarrow> Proxy \<Rightarrow> string \<Rightarrow> addr \<Rightarrow> string \<Rightarrow> string \<Rightarrow> Decision \<Rightarrow> time \<Rightarrow> Proxy" where
  "logDecision enabled p method client host0 port d now =
     (let (action, msg, lvl) = (if d_Allow d then (''allow'', ''allowed'', Info) else (''deny'', ''denied'', Warn));
          host = clip host0 maxLogHost;
          key = (if reason_HasPrefix (d_Reason d) ''invalid host'' then ''(invalid host)'' else host)
      in case sample enabled lvl p client action key now of
           (ok, p1) \<Rightarrow>
             if \<not> ok then p1
             else emit enabled lvl
               ([(''action'', LStr action), (''client'', LStr (addr_String client)), (''subnet'', LStr (d_Subnet d)),
                 (''method'', LStr (clip method maxLogMethod)), (''host'', LStr host), (''port'', LStr (clip port maxLogPort)),
                 (''reason'', LReason (d_Reason d))] @ (if d_Rule d \<noteq> [] then [(''rule'', LStr (d_Rule d))] else []))
               msg p1)"

definition logRejected :: "(log_level \<Rightarrow> bool) \<Rightarrow> Proxy \<Rightarrow> addr \<Rightarrow> string \<Rightarrow> reason \<Rightarrow> time \<Rightarrow> Proxy" where
  "logRejected enabled p client subnet reason now =
     (if \<not> enabled Warn then p
      else
        (case (if subnet = [] then LogUnknown (px_clients p) client now
               else Log (px_clients p) client ''deny'' ''(connection)'' now) of
           (ok, t) \<Rightarrow>
             (let p1 = p\<lparr>px_clients := t\<rparr> in
              if \<not> ok then p1
              else emit enabled Warn
                [(''action'', LStr ''deny''), (''client'', LStr (addr_String client)), (''subnet'', LStr subnet), (''reason'', LReason reason)]
                ''connection rejected'' p1)))"

text \<open>\<^verbatim>\<open>errors.Is\<close>: the error or one that it wraps.\<close>

fun errors_Is :: "error \<Rightarrow> error \<Rightarrow> bool" where
  "errors_Is (ErrWrap f as e) target \<longleftrightarrow> ErrWrap f as e = target \<or> errors_Is e target"
| "errors_Is (ErrJoin es) target \<longleftrightarrow> ErrJoin es = target \<or> (\<exists>e \<in> set es. errors_Is e target)"
| "errors_Is e target \<longleftrightarrow> e = target"

definition logUpstreamError ::
  "(log_level \<Rightarrow> bool) \<Rightarrow> Proxy \<Rightarrow> string \<Rightarrow> addr \<Rightarrow> string \<Rightarrow> error \<Rightarrow> time \<Rightarrow> Proxy" where
  "logUpstreamError enabled p method client host0 err now =
     (let lvl = (if errors_Is err ctx_Canceled then Debug else Warn);
          host = clip host0 maxLogHost
      in case sample enabled lvl p client ''error'' host now of
           (ok, p1) \<Rightarrow>
             if ok
             then emit enabled lvl
               [(''error'', LErr err), (''client'', LStr (addr_String client)), (''method'', LStr (clip method maxLogMethod)), (''host'', LStr host)]
               ''upstream connection failed'' p1
             else p1)"

section \<open>Summaries\<close>

text \<open>\<^verbatim>\<open>byAction\<close>: the counts of a summary by action, in the order the map of counts is visited.\<close>

fun by_action :: "(SuppressedKey \<times> int) list \<Rightarrow> (string \<times> (string \<times> int) list) list \<Rightarrow> (string \<times> (string \<times> int) list) list" where
  "by_action [] m = m"
| "by_action ((k, n) # cs) m =
     by_action cs (AList.update (sk_Action k)
       ((case map_of m (sk_Action k) of None \<Rightarrow> [] | Some d \<Rightarrow> d) @ [(sk_Host k, n)]) m)"

definition subnet_name :: "'lvl Config \<Rightarrow> addr \<Rightarrow> string" where
  "subnet_name cfg a =
     (case SubnetOf (c_Policy cfg) a of None \<Rightarrow> [] | Some i \<Rightarrow> sn_name (p_subnets (c_Policy cfg) ! i))"

definition summary_total :: "Suppressed \<Rightarrow> int" where
  "summary_total s = su_Other s + sum_list (map snd (su_Counts s))"

definition summary_line :: "'lvl Config \<Rightarrow> Suppressed \<Rightarrow> log_line" where
  "summary_line cfg s =
     (let m = by_action (su_Counts s) [];
          total = summary_total s;
          lvl = (if map_of m ''deny'' \<noteq> None \<or> map_of m ''error'' \<noteq> None then Warn else Info);
          other = (if su_Other s > 0 then [(''other'', LInt (su_Other s))] else [])
      in if su_Unknown s then
           \<lparr>ll_level = lvl,
            ll_fields = [(''suppressed'', LInt total)] @
              (case map_of m ''deny'' of None \<Rightarrow> [] | Some clients \<Rightarrow> [(''clients'', LDict clients)]) @ other,
            ll_msg = ''connections from unknown clients suppressed''\<rparr>
         else
           \<lparr>ll_level = lvl,
            ll_fields =
              (if pfx_bits (su_Prefix s) \<noteq> None
               then [(''network'', LStr (prefix_String (su_Prefix s))), (''subnet'', LStr (subnet_name cfg (pfx_addr (su_Prefix s))))]
               else [(''client'', LStr (addr_String (su_Client s))), (''subnet'', LStr (subnet_name cfg (su_Client s)))]) @
              [(''suppressed'', LInt total)] @ map (\<lambda>(action, hosts). (action, LDict hosts)) m @ other,
            ll_msg = ''access log lines suppressed''\<rparr>)"

definition emit_line :: "(log_level \<Rightarrow> bool) \<Rightarrow> log_line \<Rightarrow> Proxy \<Rightarrow> Proxy" where
  "emit_line enabled l p = emit enabled (ll_level l) (ll_fields l) (ll_msg l) p"

definition proxy_sweep :: "(log_level \<Rightarrow> bool) \<Rightarrow> 'lvl Config \<Rightarrow> Proxy \<Rightarrow> time \<Rightarrow> Proxy" where
  "proxy_sweep enabled cfg p now =
     (case Sweep (px_clients p) now of
        (out, t) \<Rightarrow> foldl (\<lambda>q s. emit_line enabled (summary_line cfg s) q) (p\<lparr>px_clients := t\<rparr>) out)"

end
