(* ===== verification/Listener.thy ===== *)
theory Listener
  imports Access_Log
begin

text \<open>
  \<^verbatim>\<open>internal/proxy/listener.go\<close>: vetting connections as they are accepted, and giving their slots back.

  A connection is a number with a remote address; the state of the listener is the proxy, the
  connections it wrapped with their release functions, and the underlying connections closed so far.
  \<^verbatim>\<open>CloseWrite\<close> and \<^verbatim>\<open>ReadFrom\<close> only forward to the connection and leave that state alone.
\<close>

datatype net_addr = TCPAddr addr nat | OtherAddr string

definition remoteAddr :: "net_addr \<Rightarrow> addr" where
  "remoteAddr a =
     (case a of
        TCPAddr ip _ \<Rightarrow> Unmap ip
      | OtherAddr s \<Rightarrow> (case ParseAddrPort s of Inl _ \<Rightarrow> Unmap AddrZero | Inr (ip, _) \<Rightarrow> Unmap ip))"

record net_conn =
  nc_id :: nat
  nc_RemoteAddr :: net_addr

record clientConn =
  cc_Conn :: net_conn
  cc_release :: release_fn

record conns =
  cn_proxy :: Proxy
  cn_admitted :: "clientConn list"
  cn_closed :: "nat list"

text \<open>\<^verbatim>\<open>admit\<close>: the wrapped connection, or nothing after closing it.\<close>

definition admit :: "(log_level \<Rightarrow> bool) \<Rightarrow> 'lvl Config \<Rightarrow> net_conn \<Rightarrow> time \<Rightarrow> conns \<Rightarrow> clientConn option \<times> conns" where
  "admit enabled cfg c now s =
     (let client = remoteAddr (nc_RemoteAddr c) in
      case SubnetOf (c_Policy cfg) client of
        None \<Rightarrow>
          (None, s\<lparr>cn_proxy := logRejected enabled (cn_proxy s) client [] (Reason ''client not in any subnet'') now,
                   cn_closed := cn_closed s @ [nc_id c]\<rparr>)
      | Some subnet \<Rightarrow>
          (case Acquire (px_clients (cn_proxy s)) client (ClientLimits cfg (Some subnet)) (c_TotalConnections cfg) now of
             (Inl err, t) \<Rightarrow>
               (None, s\<lparr>cn_proxy := logRejected enabled ((cn_proxy s)\<lparr>px_clients := t\<rparr>) client
                          (sn_name (p_subnets (c_Policy cfg) ! subnet)) (ReasonErr [] err) now,
                        cn_closed := cn_closed s @ [nc_id c]\<rparr>)
           | (Inr f, t) \<Rightarrow>
               (let cc = \<lparr>cc_Conn = c, cc_release = f\<rparr> in
                (Some cc, s\<lparr>cn_proxy := (cn_proxy s)\<lparr>px_clients := t\<rparr>, cn_admitted := cn_admitted s @ [cc]\<rparr>))))"

text \<open>
  \<^verbatim>\<open>listener.Accept\<close> on the connections that the listener below gives, until it fails.  The result is
  the first one admitted, the connections left, and the state.
\<close>

fun Accept :: "(log_level \<Rightarrow> bool) \<Rightarrow> 'lvl Config \<Rightarrow> (net_conn \<times> time) list \<Rightarrow> error \<Rightarrow> conns \<Rightarrow>
    clientConn result \<times> (net_conn \<times> time) list \<times> conns" where
  "Accept enabled cfg [] err s = (Inl err, [], s)"
| "Accept enabled cfg ((c, now) # cs) err s =
     (case admit enabled cfg c now s of
        (Some cc, s1) \<Rightarrow> (Inr cc, cs, s1)
      | (None, s1) \<Rightarrow> Accept enabled cfg cs err s1)"

text \<open>
  \<^verbatim>\<open>clientConn.Close\<close> of the \<open>i\<close>-th connection admitted: its slot is given back, then the connection is closed.  The two calls are
  one step of the model; in between, the slot may already be taken again while the old connection is still open.
\<close>

definition clientConn_Close :: "nat \<Rightarrow> time \<Rightarrow> conns \<Rightarrow> conns" where
  "clientConn_Close i now s =
     (let cc = cn_admitted s ! i in
      case release (cc_release cc) now (px_clients (cn_proxy s)) of
        (f, t) \<Rightarrow> s\<lparr>cn_proxy := (cn_proxy s)\<lparr>px_clients := t\<rparr>,
                     cn_admitted := (cn_admitted s)[i := cc\<lparr>cc_release := f\<rparr>],
                     cn_closed := cn_closed s @ [nc_id (cc_Conn cc)]\<rparr>)"

text \<open>\<^verbatim>\<open>unwrap\<close>: the connection under the wrapper, if it has one.\<close>

datatype any_conn = Wrapped clientConn | Raw net_conn

fun unwrap :: "any_conn \<Rightarrow> net_conn" where
  "unwrap (Wrapped cc) = cc_Conn cc"
| "unwrap (Raw c) = c"

text \<open>
  \<^verbatim>\<open>clientConn.CloseWrite\<close> and \<^verbatim>\<open>clientConn.ReadFrom\<close>, with what the connection below returns when it
  has the operation, and what copying to it returns.
\<close>

definition clientConn_CloseWrite :: "error option option \<Rightarrow> error option" where
  "clientConn_CloseWrite cw = (case cw of Some err \<Rightarrow> err | None \<Rightarrow> None)"

definition clientConn_ReadFrom :: "(int \<times> error option) option \<Rightarrow> int \<times> error option \<Rightarrow> int \<times> error option" where
  "clientConn_ReadFrom rf copied = (case rf of Some res \<Rightarrow> res | None \<Rightarrow> copied)"

section \<open>The proxy and its connections over time\<close>

text \<open>
  Connections are accepted and closed, by any code and as often as it likes, while requests are
  counted and logged and the clients are swept.  \<open>cfgs\<close> are the configurations that may be active.
\<close>

inductive conns_step :: "(log_level \<Rightarrow> bool) \<Rightarrow> ('lvl Config \<Rightarrow> bool) \<Rightarrow> conns \<Rightarrow> conns \<Rightarrow> bool" for enabled cfgs where
  accept: "cfgs cfg \<Longrightarrow> admit enabled cfg c now s = (r, s') \<Longrightarrow> conns_step enabled cfgs s s'"
| close: "i < length (cn_admitted s) \<Longrightarrow> conns_step enabled cfgs s (clientConn_Close i now s)"
| request: "Allow (px_clients (cn_proxy s)) ip lims now = (ok, t) \<Longrightarrow>
    conns_step enabled cfgs s (s\<lparr>cn_proxy := (cn_proxy s)\<lparr>px_clients := t\<rparr>\<rparr>)"
| decision: "conns_step enabled cfgs s (s\<lparr>cn_proxy := logDecision enabled (cn_proxy s) method ip host port d now\<rparr>)"
| upstream_error: "conns_step enabled cfgs s (s\<lparr>cn_proxy := logUpstreamError enabled (cn_proxy s) method ip host err now\<rparr>)"
| summaries: "cfgs cfg \<Longrightarrow> conns_step enabled cfgs s (s\<lparr>cn_proxy := proxy_sweep enabled cfg (cn_proxy s) now\<rparr>)"

definition conns_init :: conns where
  "conns_init = \<lparr>cn_proxy = \<lparr>px_clients = NewTracker, px_upstream = newUpstreamPools, px_log = []\<rparr>, cn_admitted = [], cn_closed = []\<rparr>"

text \<open>The connections that were admitted and not closed.\<close>

definition open_conns :: "conns \<Rightarrow> clientConn list" where
  "open_conns s = filter (\<lambda>cc. \<not> rel_done (cc_release cc)) (cn_admitted s)"

section \<open>The slots of open connections\<close>

definition conns_inv :: "conns \<Rightarrow> bool" where
  "conns_inv s \<longleftrightarrow> limits_inv (px_clients (cn_proxy s), map cc_release (cn_admitted s)) \<and>
     list_all (\<lambda>cc. rel_done (cc_release cc) \<longrightarrow> nc_id (cc_Conn cc) \<in> set (cn_closed s)) (cn_admitted s)"

lemma emit_clients [simp]: "px_clients (emit enabled lvl flds msg p) = px_clients p"
  by (simp add: emit_def)

lemma sample_inv:
  "sample enabled lvl p ip action host now = (ok, p') \<Longrightarrow> limits_inv (px_clients p, fs) \<Longrightarrow> limits_inv (px_clients p', fs)"
  by (auto simp: sample_def intro: Log_inv split: if_splits prod.splits)

lemma logDecision_inv: "limits_inv (px_clients p, fs) \<Longrightarrow> limits_inv (px_clients (logDecision enabled p method ip host port d now), fs)"
  by (auto simp: logDecision_def Let_def dest: sample_inv split: prod.splits)

lemma logUpstreamError_inv: "limits_inv (px_clients p, fs) \<Longrightarrow> limits_inv (px_clients (logUpstreamError enabled p method ip host err now), fs)"
  by (auto simp: logUpstreamError_def Let_def dest: sample_inv split: prod.splits)

lemma logRejected_inv: "limits_inv (px_clients p, fs) \<Longrightarrow> limits_inv (px_clients (logRejected enabled p ip subnet reason now), fs)"
  by (auto simp: logRejected_def Let_def dest: Log_inv LogUnknown_inv split: prod.splits if_splits)

lemma foldl_clients: "px_clients (foldl (\<lambda>q s. emit_line enabled (summary_line cfg s) q) p out) = px_clients p"
  by (induction out arbitrary: p) (simp_all add: emit_line_def)

lemma proxy_sweep_inv: "limits_inv (px_clients p, fs) \<Longrightarrow> limits_inv (px_clients (proxy_sweep enabled cfg p now), fs)"
  by (auto simp: proxy_sweep_def foldl_clients dest: Sweep_inv split: prod.splits)

lemma admit_inv:
  assumes "admit enabled cfg c now s = (r, s')" "conns_inv s"
  shows "conns_inv s' \<and> cn_admitted s' = cn_admitted s @ (case r of None \<Rightarrow> [] | Some cc \<Rightarrow> [cc])"
proof (cases "SubnetOf (c_Policy cfg) (remoteAddr (nc_RemoteAddr c))")
  case None
  then show ?thesis using assms by (auto simp: admit_def conns_inv_def logRejected_inv list_all_iff)
next
  case (Some subnet)
  obtain res t where a: "Acquire (px_clients (cn_proxy s)) (remoteAddr (nc_RemoteAddr c)) (ClientLimits cfg (Some subnet)) (c_TotalConnections cfg) now = (res, t)"
    by fastforce
  have inv: "limits_inv (px_clients (cn_proxy s), map cc_release (cn_admitted s))" using assms(2) by (simp add: conns_inv_def)
  show ?thesis
  proof (cases res)
    case (Inl e)
    have "limits_inv (t, map cc_release (cn_admitted s))" using Acquire_inv [OF a inv] Inl by simp
    then show ?thesis using assms Some a Inl by (auto simp: admit_def conns_inv_def logRejected_inv list_all_iff)
  next
    case (Inr f)
    have "limits_inv (t, map cc_release (cn_admitted s) @ [f])" using Acquire_inv [OF a inv] Inr by simp
    moreover have "\<not> rel_done f" using a Inr by (auto simp: Acquire_def split: prod.splits if_splits)
    ultimately show ?thesis using assms Some a Inr by (auto simp: admit_def conns_inv_def Let_def)
  qed
qed

lemma close_inv:
  assumes "i < length (cn_admitted s)" "conns_inv s"
  shows "conns_inv (clientConn_Close i now s)"
proof -
  let ?cc = "cn_admitted s ! i"
  obtain f t where r: "release (cc_release ?cc) now (px_clients (cn_proxy s)) = (f, t)" by fastforce
  have "limits_inv (t, (map cc_release (cn_admitted s))[i := f])"
    using assms r by (intro release_inv) (auto simp: conns_inv_def)
  moreover have "(map cc_release (cn_admitted s))[i := f] = map cc_release ((cn_admitted s)[i := ?cc\<lparr>cc_release := f\<rparr>])"
    by (simp add: map_update)
  ultimately show ?thesis using assms r
    by (auto simp: clientConn_Close_def Let_def conns_inv_def list_all_iff dest!: set_update_subset_insert [THEN subsetD])
qed

lemma conns_step_inv:
  assumes "conns_step enabled cfgs s s'" "conns_inv s"
  shows "conns_inv s'"
  using assms
proof (cases rule: conns_step.cases)
  case (accept cfg c now r)
  then show ?thesis using admit_inv assms(2) by blast
next
  case (close i now)
  then show ?thesis using close_inv assms(2) by simp
qed (auto simp: conns_inv_def intro: Allow_inv logDecision_inv logUpstreamError_inv proxy_sweep_inv)

lemma conns_inv_init: "conns_inv conns_init"
  by (simp add: conns_inv_def conns_init_def limits_inv_init)

interpretation listener_machine: step_invariant "conns_step enabled cfgs" "\<lambda>s. s = conns_init" conns_inv for enabled cfgs
  by unfold_locales (auto intro: conns_inv_init conns_step_inv)

lemma conns_reachable_inv: "(conns_step enabled cfgs)\<^sup>*\<^sup>* conns_init s \<Longrightarrow> conns_inv s"
  by (rule listener_machine.holds_after [OF _ refl])

lemma admit_within:
  assumes "admit enabled cfg c now s = (r, s')" "conns_inv s"
  shows "case r of
       None \<Rightarrow> nc_id c \<in> set (cn_closed s') \<and> open_conns s' = open_conns s
     | Some cc \<Rightarrow> cc_Conn cc = c \<and> open_conns s' = open_conns s @ [cc] \<and>
         (\<exists>subnet. SubnetOf (c_Policy cfg) (remoteAddr (nc_RemoteAddr c)) = Some subnet \<and>
            (c_TotalConnections cfg > 0 \<longrightarrow> int (length (open_conns s')) \<le> c_TotalConnections cfg) \<and>
            (MaxConnections (ClientLimits cfg (Some subnet)) > 0 \<longrightarrow>
               int (length (filter (\<lambda>x. rel_client (cc_release x) = rel_client (cc_release cc)) (open_conns s')))
                 \<le> MaxConnections (ClientLimits cfg (Some subnet))))"
proof (cases "SubnetOf (c_Policy cfg) (remoteAddr (nc_RemoteAddr c))")
  case None
  then show ?thesis using assms(1) by (auto simp: admit_def open_conns_def)
next
  case (Some subnet)
  let ?fs = "map cc_release (cn_admitted s)"
  obtain res t where a: "Acquire (px_clients (cn_proxy s)) (remoteAddr (nc_RemoteAddr c)) (ClientLimits cfg (Some subnet)) (c_TotalConnections cfg) now = (res, t)"
    by fastforce
  have l: "limits_inv (px_clients (cn_proxy s), ?fs)" using assms(2) by (simp add: conns_inv_def)
  show ?thesis
  proof (cases res)
    case (Inl e)
    then show ?thesis using assms(1) Some a by (auto simp: admit_def open_conns_def)
  next
    case (Inr f)
    have "\<not> rel_done f" using a Inr by (auto simp: Acquire_def split: prod.splits if_splits)
    moreover have r: "r = Some \<lparr>cc_Conn = c, cc_release = f\<rparr>" "cn_admitted s' = cn_admitted s @ [\<lparr>cc_Conn = c, cc_release = f\<rparr>]"
      using assms(1) Some a Inr by (auto simp: admit_def Let_def)
    ultimately have o: "open_conns s' = open_conns s @ [\<lparr>cc_Conn = c, cc_release = f\<rparr>]" by (simp add: open_conns_def)
    have fs: "?fs @ [f] = map cc_release (cn_admitted s')" by (simp add: r)
    have "open_total (?fs @ [f]) = int (length (open_conns s'))"
      unfolding fs by (simp add: open_total_def filter_map o_def open_conns_def)
    moreover have "open_on (rel_client f) (?fs @ [f]) = int (length (filter (\<lambda>x. rel_client (cc_release x) = rel_client f) (open_conns s')))"
      unfolding fs by (simp add: open_on_def is_open_def [abs_def] open_conns_def filter_map o_def conj_commute)
    ultimately show ?thesis using Acquire_within [OF l a] Inr Some o r(1) by simp
  qed
qed

section \<open>The accept loop\<close>

text \<open>The loop of \<^verbatim>\<open>Accept\<close>: everything before the connection it returns was closed and holds no slot.\<close>

definition accepted :: "(net_conn \<times> time) list \<Rightarrow> error \<Rightarrow> clientConn result \<Rightarrow> (net_conn \<times> time) list \<Rightarrow> conns \<Rightarrow> conns \<Rightarrow> bool" where
  "accepted cs err res rest s s' =
     (case res of
        Inl e \<Rightarrow> e = err \<and> rest = [] \<and> open_conns s' = open_conns s \<and> nc_id ` fst ` set cs \<subseteq> set (cn_closed s')
      | Inr cc \<Rightarrow> open_conns s' = open_conns s @ [cc] \<and>
          (\<exists>pre now. cs = pre @ (cc_Conn cc, now) # rest \<and> nc_id ` fst ` set pre \<subseteq> set (cn_closed s')))"

lemma admit_closed: "admit enabled cfg c now s = (r, s') \<Longrightarrow> set (cn_closed s) \<subseteq> set (cn_closed s')"
  by (auto simp: admit_def Let_def split: option.splits prod.splits sum.splits)

lemma Accept_closed: "Accept enabled cfg cs err s = (res, rest, s') \<Longrightarrow> set (cn_closed s) \<subseteq> set (cn_closed s')"
  by (induction enabled cfg cs err s rule: Accept.induct) (auto split: prod.splits option.splits dest: admit_closed)

lemma Accept_accepted:
  assumes "Accept enabled cfg cs err s = (res, rest, s')" "conns_inv s"
  shows "accepted cs err res rest s s' \<and> conns_inv s'"
  using assms
proof (induction enabled cfg cs err s rule: Accept.induct)
  case (1 enabled cfg err s)
  then show ?case by (auto simp: accepted_def)
next
  case (2 enabled cfg c now cs err s)
  obtain r s1 where a: "admit enabled cfg c now s = (r, s1)" by fastforce
  have inv: "conns_inv s1" using admit_inv [OF a 2(3)] by simp
  note w = admit_within [OF a 2(3)]
  show ?case
  proof (cases r)
    case None
    have run: "Accept enabled cfg cs err s1 = (res, rest, s')" using 2(2) a None by simp
    have ih: "accepted cs err res rest s1 s' \<and> conns_inv s'" using 2(1) [OF a [symmetric] None run inv] .
    moreover have "nc_id c \<in> set (cn_closed s')" "open_conns s1 = open_conns s" using w None Accept_closed [OF run] by auto
    ultimately show ?thesis
      by (cases res) (auto simp: accepted_def intro: exI [of _ "(c, now) # pre" for pre])
  next
    case (Some cc)
    then have "res = Inr cc" "rest = cs" "s' = s1" using 2(2) a by auto
    then show ?thesis using w Some inv by (auto simp: accepted_def intro: exI [of _ "[]"])
  qed
qed

section \<open>Properties\<close>

text \<open>
  C8.  Every open connection holds exactly one slot, whatever code closes it and however often.  In
  every reachable state the number of connections counted is the number admitted and not closed, and
  a slot is free only when its connection was closed; a connection that is not admitted is closed and
  takes no slot, and the accept loop goes on until one is admitted or the listener fails; one that is admitted comes from a client in a subnet and, with it, neither the
  total limit nor the client's limit is exceeded; and closing a connection frees one slot the
  first time and none after that.
\<close>

theorem listener_slots:
  assumes "(conns_step enabled cfgs)\<^sup>*\<^sup>* conns_init s" "admit enabled cfg c now s = (r, s')" "i < length (cn_admitted s)"
  shows "tr_total (px_clients (cn_proxy s)) = int (length (open_conns s)) \<and>
    (\<forall>cc \<in> set (cn_admitted s). rel_done (cc_release cc) \<longrightarrow> nc_id (cc_Conn cc) \<in> set (cn_closed s)) \<and>
    (case r of
       None \<Rightarrow> nc_id c \<in> set (cn_closed s') \<and> open_conns s' = open_conns s
     | Some cc \<Rightarrow> cc_Conn cc = c \<and> open_conns s' = open_conns s @ [cc] \<and>
         (\<exists>subnet. SubnetOf (c_Policy cfg) (remoteAddr (nc_RemoteAddr c)) = Some subnet \<and>
            (c_TotalConnections cfg > 0 \<longrightarrow> int (length (open_conns s')) \<le> c_TotalConnections cfg) \<and>
            (MaxConnections (ClientLimits cfg (Some subnet)) > 0 \<longrightarrow>
               int (length (filter (\<lambda>x. rel_client (cc_release x) = rel_client (cc_release cc)) (open_conns s')))
                 \<le> MaxConnections (ClientLimits cfg (Some subnet))))) \<and>
    tr_total (px_clients (cn_proxy (clientConn_Close i now s))) =
      tr_total (px_clients (cn_proxy s)) - (if rel_done (cc_release (cn_admitted s ! i)) then 0 else 1) \<and>
    tr_total (px_clients (cn_proxy (clientConn_Close i now' (clientConn_Close i now s)))) =
      tr_total (px_clients (cn_proxy (clientConn_Close i now s))) \<and>
    (\<forall>cs err res rest s2. Accept enabled cfg cs err s = (res, rest, s2) \<longrightarrow> accepted cs err res rest s s2)"
proof (intro conjI)
  let ?fs = "map cc_release (cn_admitted s)" and ?t = "px_clients (cn_proxy s)"
  have inv: "conns_inv s" using conns_reachable_inv [OF assms(1)] .
  then have l: "limits_inv (?t, ?fs)" by (simp add: conns_inv_def)
  show "tr_total ?t = int (length (open_conns s))"
    using tracker_slots.total [OF l] by (simp add: filter_map o_def open_conns_def)
  show "\<forall>cc \<in> set (cn_admitted s). rel_done (cc_release cc) \<longrightarrow> nc_id (cc_Conn cc) \<in> set (cn_closed s)"
    using inv by (simp add: conns_inv_def list_all_iff)
  show "case r of
       None \<Rightarrow> nc_id c \<in> set (cn_closed s') \<and> open_conns s' = open_conns s
     | Some cc \<Rightarrow> cc_Conn cc = c \<and> open_conns s' = open_conns s @ [cc] \<and>
         (\<exists>subnet. SubnetOf (c_Policy cfg) (remoteAddr (nc_RemoteAddr c)) = Some subnet \<and>
            (c_TotalConnections cfg > 0 \<longrightarrow> int (length (open_conns s')) \<le> c_TotalConnections cfg) \<and>
            (MaxConnections (ClientLimits cfg (Some subnet)) > 0 \<longrightarrow>
               int (length (filter (\<lambda>x. rel_client (cc_release x) = rel_client (cc_release cc)) (open_conns s')))
                 \<le> MaxConnections (ClientLimits cfg (Some subnet))))"
    using admit_within [OF assms(2) inv] .
  show "\<forall>cs err res rest s2. Accept enabled cfg cs err s = (res, rest, s2) \<longrightarrow> accepted cs err res rest s s2"
    using Accept_accepted [OF _ inv] by blast
  obtain f t where b: "release (?fs ! i) now ?t = (f, t)" by fastforce
  have i: "i < length ?fs" using assms(3) by simp
  have c1: "px_clients (cn_proxy (clientConn_Close i now s)) = t"
    "cc_release (cn_admitted (clientConn_Close i now s) ! i) = f" "length (cn_admitted (clientConn_Close i now s)) = length (cn_admitted s)"
    using b assms(3) by (simp_all add: clientConn_Close_def Let_def)
  show "tr_total (px_clients (cn_proxy (clientConn_Close i now s))) =
      tr_total ?t - (if rel_done (cc_release (cn_admitted s ! i)) then 0 else 1)"
    using tracker_slots.give_back_total [OF l i b] assms(3) by (simp add: c1)
  obtain g t2 where b2: "release f now' t = (g, t2)" by fastforce
  have "px_clients (cn_proxy (clientConn_Close i now' (clientConn_Close i now s))) = t2"
    using b2 unfolding clientConn_Close_def [of i now'] by (simp add: c1 Let_def)
  then show "tr_total (px_clients (cn_proxy (clientConn_Close i now' (clientConn_Close i now s)))) =
      tr_total (px_clients (cn_proxy (clientConn_Close i now s)))"
    using tracker_slots.give_back_twice [OF l i b b2] by (simp add: c1)
qed


definition demo_conn :: net_conn where
  "demo_conn = \<lparr>nc_id = 3, nc_RemoteAddr = TCPAddr (Addr4 0xc0a80107) 51000\<rparr>"

definition demo_conns :: conns where
  "demo_conns = snd (admit (\<lambda>_. True) demo_config demo_conn 7 conns_init)"

lemma demo_admit:
  "admit (\<lambda>_. True) demo_config demo_conn 7 conns_init = (Some \<lparr>cc_Conn = demo_conn, cc_release = \<lparr>rel_client = 0, rel_done = False\<rparr>\<rparr>, demo_conns)"
proof -
  have "SubnetOf (c_Policy demo_config) (remoteAddr (nc_RemoteAddr demo_conn)) = Some 0"
    using demo_subnet by (simp add: demo_config_def demo_conn_def remoteAddr_def)
  then show ?thesis unfolding demo_conns_def
    by (simp add: admit_def conns_init_def demo_config_def ClientLimits_def Acquire_def NewTracker_def tr_get_def tr_find_def new_client_def
        update_client_def maxClients_def client_zero_def DefaultClientLimits_def Let_def)
qed

lemma demo_conns_reachable: "(conns_step (\<lambda>_. True) (\<lambda>cfg. cfg = demo_config))\<^sup>*\<^sup>* conns_init demo_conns"
  by (rule r_into_rtranclp, rule conns_step.accept [OF refl demo_admit])

theorem listener_slots_witness:
  "tr_total (px_clients (cn_proxy demo_conns)) = int (length (open_conns demo_conns)) \<and>
   tr_total (px_clients (cn_proxy (clientConn_Close 0 9 demo_conns))) = tr_total (px_clients (cn_proxy demo_conns)) - 1"
proof -
  have a: "cn_admitted demo_conns = [\<lparr>cc_Conn = demo_conn, cc_release = \<lparr>rel_client = 0, rel_done = False\<rparr>\<rparr>]"
  proof -
    from admit_inv [OF demo_admit conns_inv_init] show ?thesis by (simp add: conns_init_def)
  qed
  obtain r s' where "admit (\<lambda>_. True) demo_config demo_conn 9 demo_conns = (r, s')" by fastforce
  from listener_slots [OF demo_conns_reachable this, of 0] show ?thesis by (simp add: a)
qed

section \<open>Accounting for log lines\<close>

lemma limits_inv_wf: "limits_inv (t, fs) \<Longrightarrow> tracker_wf t"
  by (simp add: limits_inv_def)

text \<open>The lines that are written or will be summarised.\<close>

definition accounted :: "Proxy \<Rightarrow> int" where
  "accounted p = int (length (px_log p)) + pending (px_clients p)"

lemma accounted_emit: "accounted (emit enabled lvl flds msg p) = accounted p + (if enabled lvl then 1 else 0)"
  by (simp add: accounted_def emit_def)

lemma accounted_sample:
  assumes "sample enabled lvl p client action host now = (ok, p')" "tracker_wf (px_clients p)"
  shows "accounted p' = accounted p + (if enabled lvl \<and> \<not> ok then 1 else 0)" "ok \<Longrightarrow> enabled lvl" "\<not> enabled lvl \<Longrightarrow> p' = p"
  using assms Log_pending by (auto simp: sample_def accounted_def split: if_splits prod.splits)

lemma accounted_logDecision:
  assumes "tracker_wf (px_clients p)"
  shows "accounted (logDecision enabled p method client host port d now) = accounted p + (if enabled (if d_Allow d then Info else Warn) then 1 else 0)"
  using assms by (auto simp: logDecision_def Let_def accounted_emit dest: accounted_sample split: prod.splits if_splits)

lemma accounted_logUpstreamError:
  assumes "tracker_wf (px_clients p)"
  shows "accounted (logUpstreamError enabled p method client host err now) =
    accounted p + (if enabled (if errors_Is err ctx_Canceled then Debug else Warn) then 1 else 0)"
  using assms by (auto simp: logUpstreamError_def Let_def accounted_emit dest: accounted_sample split: prod.splits if_splits)

lemma accounted_logRejected:
  assumes "tracker_wf (px_clients p)"
  shows "accounted (logRejected enabled p client subnet reason now) = accounted p + (if enabled Warn then 1 else 0)"
proof (cases "enabled Warn")
  case True
  obtain ok t where l: "(if subnet = [] then LogUnknown (px_clients p) client now
      else Log (px_clients p) client ''deny'' ''(connection)'' now) = (ok, t)" by fastforce
  have "pending t = pending (px_clients p) + (if ok then 0 else 1)"
  proof (cases "subnet = []")
    case True
    then show ?thesis using l by (intro LogUnknown_pending) simp
  next
    case False
    then show ?thesis using l by (intro Log_pending [OF _ assms]) simp
  qed
  then have "accounted (p\<lparr>px_clients := t\<rparr>) = accounted p + (if ok then 0 else 1)" by (simp add: accounted_def)
  then show ?thesis using True l by (simp add: logRejected_def Let_def accounted_emit)
qed (simp add: logRejected_def)

text \<open>The counts in a summary: those of all its dictionaries, and the lines counted under no key.\<close>

fun field_count :: "string \<times> log_value \<Rightarrow> int" where
  "field_count (k, LDict d) = sum_list (map snd d)"
| "field_count (k, LInt n) = (if k = ''other'' then n else 0)"
| "field_count _ = 0"

definition line_counts :: "log_line \<Rightarrow> int" where
  "line_counts l = sum_list (map field_count (ll_fields l))"

definition int_field :: "log_line \<Rightarrow> string \<Rightarrow> int" where
  "int_field l k = (case map_of (ll_fields l) k of Some (LInt n) \<Rightarrow> n | _ \<Rightarrow> 0)"

definition dict_total :: "(string \<times> (string \<times> int) list) list \<Rightarrow> int" where
  "dict_total m = sum_list (map (\<lambda>(_, d). sum_list (map snd d)) m)"

lemma dict_total_update:
  "distinct (map fst m) \<Longrightarrow>
   dict_total (AList.update k d m) = dict_total m + sum_list (map snd d) - (case map_of m k of None \<Rightarrow> 0 | Some d0 \<Rightarrow> sum_list (map snd d0))"
  by (induction m) (auto simp: dict_total_def map_of_eq_None_iff split: option.splits)

lemma by_action_total: "distinct (map fst m) \<Longrightarrow> dict_total (by_action cs m) = dict_total m + sum_list (map snd cs)"
  by (induction cs m rule: by_action.induct) (auto simp: dict_total_update distinct_update split: option.splits)

lemma summary_line_counts:
  "int_field (summary_line cfg s) ''suppressed'' = summary_total s"
  "0 \<le> su_Other s \<Longrightarrow> \<not> su_Unknown s \<Longrightarrow> line_counts (summary_line cfg s) = summary_total s"
proof -
  show "int_field (summary_line cfg s) ''suppressed'' = summary_total s"
    by (simp add: summary_line_def Let_def int_field_def)
  have "sum_list (map (field_count \<circ> (\<lambda>(action, hosts). (action, LDict hosts))) m) = dict_total m" for m
    by (induction m) (auto simp: dict_total_def)
  moreover have "dict_total (by_action (su_Counts s) []) = sum_list (map snd (su_Counts s))"
    by (simp add: by_action_total) (simp add: dict_total_def)
  ultimately show "line_counts (summary_line cfg s) = summary_total s" if "0 \<le> su_Other s" "\<not> su_Unknown s"
    using that by (simp add: summary_line_def Let_def line_counts_def summary_total_def)
qed

lemma summary_line_unknown: "ll_msg (summary_line cfg s) = ''access log lines suppressed'' \<longleftrightarrow> \<not> su_Unknown s"
  by (simp add: summary_line_def Let_def)

lemma sweep_take_other: "client_wf c \<Longrightarrow> s' \<in> set (fst (sweep_take c s)) \<Longrightarrow> 0 \<le> su_Other s'"
  by (auto simp: sweep_take_def client_wf_def split: if_splits)

lemma Sweep_other:
  assumes "Sweep t now = (out, t')" "tracker_wf t" "s \<in> set out"
  shows "0 \<le> su_Other s"
proof -
  have wf: "client_wf (tr_store t ! q)" if "q \<in> snd ` set (tr_clients t) \<union> snd ` set (tr_overflow t)" for q
    using assms(2) that by (force simp: tracker_wf_def entries_def)
  have u: "client_wf (tr_unknown t)" using assms(2) by (simp add: tracker_wf_def)
  show ?thesis using assms(3) wf u sweep_take_other unfolding Sweep_result(7) [OF assms(1,2)] by fastforce
qed

lemma foldl_emit_lines:
  "px_log (foldl (\<lambda>q s. emit_line enabled (f s) q) p out) = px_log p @ filter (\<lambda>l. enabled (ll_level l)) (map f out)"
  by (induction out arbitrary: p) (auto simp: emit_line_def emit_def)

lemma summarized_total: "summarized out = sum_list (map summary_total out)"
  unfolding summarized_def summary_total_def by (simp add: add.commute)

section \<open>The access log\<close>

text \<open>
  C39.  No decision goes unrecorded.  In every reachable state, logging a decision, a rejected connection or
  an upstream error at a level that is written adds exactly one to the lines written and the lines pending
  in a budget, and at another level nothing; a sweep leaves nothing pending, its summaries report
  exactly what was pending, and the counts in the summary of a client or network add up to the
  total it reports.
\<close>

theorem access_log_accounted:
  assumes "(conns_step enabled cfgs)\<^sup>*\<^sup>* conns_init s" "p = cn_proxy s"
  shows "accounted (logDecision enabled p method client host port d now) =
      accounted p + (if enabled (if d_Allow d then Info else Warn) then 1 else 0) \<and>
    accounted (logUpstreamError enabled p method client host err now) =
      accounted p + (if enabled (if errors_Is err ctx_Canceled then Debug else Warn) then 1 else 0) \<and>
    accounted (logRejected enabled p client subnet reason now) = accounted p + (if enabled Warn then 1 else 0) \<and>
    pending (px_clients (proxy_sweep enabled cfg p now)) = 0 \<and>
    (\<exists>ls. px_log (proxy_sweep enabled cfg p now) = px_log p @ filter (\<lambda>l. enabled (ll_level l)) ls \<and>
       sum_list (map (\<lambda>l. int_field l ''suppressed'') ls) = pending (px_clients p) \<and>
       (\<forall>l \<in> set ls. ll_msg l = ''access log lines suppressed'' \<longrightarrow> line_counts l = int_field l ''suppressed''))"
proof -
  have inv: "limits_inv (px_clients p, map cc_release (cn_admitted s))"
    using conns_reachable_inv [OF assms(1)] assms(2) by (simp add: conns_inv_def)
  note wf = limits_inv_wf [OF inv]
  obtain out t where o: "Sweep (px_clients p) now = (out, t)" by fastforce
  note sw = Sweep_pending [OF o wf]
  have "px_log (proxy_sweep enabled cfg p now) = px_log p @ filter (\<lambda>l. enabled (ll_level l)) (map (summary_line cfg) out)"
    by (simp add: proxy_sweep_def o foldl_emit_lines)
  moreover have "sum_list (map (\<lambda>l. int_field l ''suppressed'') (map (summary_line cfg) out)) = pending (px_clients p)"
    using sw(1) by (simp add: o_def summary_line_counts summarized_total)
  moreover have "\<forall>l \<in> set (map (summary_line cfg) out).
      ll_msg l = ''access log lines suppressed'' \<longrightarrow> line_counts l = int_field l ''suppressed''"
    using Sweep_other [OF o wf] by (auto simp: summary_line_unknown summary_line_counts)
  ultimately have "\<exists>ls. px_log (proxy_sweep enabled cfg p now) = px_log p @ filter (\<lambda>l. enabled (ll_level l)) ls \<and>
      sum_list (map (\<lambda>l. int_field l ''suppressed'') ls) = pending (px_clients p) \<and>
      (\<forall>l \<in> set ls. ll_msg l = ''access log lines suppressed'' \<longrightarrow> line_counts l = int_field l ''suppressed'')"
    by blast
  moreover have "pending (px_clients (proxy_sweep enabled cfg p now)) = 0"
    using sw(2) by (simp add: proxy_sweep_def o foldl_clients)
  ultimately show ?thesis
    using accounted_logDecision [OF wf] accounted_logUpstreamError [OF wf] accounted_logRejected [OF wf] by simp
qed

text \<open>A decision on a new connection.\<close>

theorem access_log_accounted_witness:
  "accounted (logDecision (\<lambda>_. True) (cn_proxy demo_conns) ''CONNECT'' (Addr4 0xc0a80107) ''a.com'' ''443'' demo_allowed 8) =
     accounted (cn_proxy demo_conns) + 1 \<and>
   pending (px_clients (proxy_sweep (\<lambda>_. True) demo_config (cn_proxy demo_conns) 8)) = 0"
  using access_log_accounted [OF demo_conns_reachable refl, where d = demo_allowed and cfg = demo_config and now = 8] by simp

end
