(* ===== verification/Tunnel.thy ===== *)
theory Tunnel
  imports Access_Log
begin

text \<open>
  \<^verbatim>\<open>internal/proxy/tunnel.go\<close>: copying between the client and the upstream connection.

  The two directions are two goroutines over shared state.  A step is what one of them does between two points where the other
  can come in between: setting the read deadline, carrying a piece of data inside \<^verbatim>\<open>io.Copy\<close>, the return of
  \<^verbatim>\<open>io.Copy\<close>, noting the time, and the check that ends the loop or goes on.  How much a copy carries and how it ends is up to
  the connections: \<^verbatim>\<open>io.Copy\<close> gives the error of a passed read deadline only when one was set and has passed.
\<close>

section \<open>State\<close>

definition errTunnelIdle :: error where "errTunnelIdle = ErrNew ''tunnel idle timeout''"
definition os_ErrDeadlineExceeded :: error where "os_ErrDeadlineExceeded = ErrNew ''i/o timeout''"
definition net_ErrClosed :: error where "net_ErrClosed = ErrNew ''use of closed network connection''"

datatype side = ClientSide | UpstreamSide

text \<open>\<open>tn_closes\<close> and \<open>tn_halfs\<close> list the calls of \<^verbatim>\<open>Close\<close> and \<^verbatim>\<open>CloseWrite\<close>.\<close>

record tunnelState =
  tn_idle :: duration
  tn_last :: time
  tn_closed :: bool
  tn_closes :: "side list"
  tn_halfs :: "side list"

definition touch :: "time \<Rightarrow> tunnelState \<Rightarrow> tunnelState" where
  "touch now t = t\<lparr>tn_last := now\<rparr>"

definition idleFor :: "time \<Rightarrow> tunnelState \<Rightarrow> duration" where
  "idleFor now t = now - tn_last t"

definition closeBoth :: "tunnelState \<Rightarrow> tunnelState" where
  "closeBoth t = (if tn_closed t then t else t\<lparr>tn_closed := True, tn_closes := tn_closes t @ [ClientSide, UpstreamSide]\<rparr>)"

definition is_err :: "error option \<Rightarrow> error \<Rightarrow> bool" where
  "is_err err target = (case err of None \<Rightarrow> False | Some e \<Rightarrow> errors_Is e target)"

text \<open>\<open>halves\<close> says which connections can be closed for writing only.\<close>

definition finish :: "(side \<Rightarrow> bool) \<Rightarrow> side \<Rightarrow> error option \<Rightarrow> tunnelState \<Rightarrow> error option \<times> tunnelState" where
  "finish halves dst err t =
     (if err = None \<and> halves dst then (None, t\<lparr>tn_halfs := tn_halfs t @ [dst]\<rparr>)
      else (let t1 = closeBoth t in if is_err err net_ErrClosed then (None, t1) else (err, t1)))"

definition check_interval :: "duration \<Rightarrow> duration" where
  "check_interval idle = max (go_div idle 4) (10 * 10 ^ 6)"

section \<open>One direction\<close>

text \<open>
  The loop of \<^verbatim>\<open>pipe\<close>: where it is, the total, the read deadline in force, the pieces that the current copy has carried so far
  with their times, and the result with the time it was returned.
\<close>

datatype pipe_pc = Arming | Copying | CopyReturned "error option" | Checking "error option"

record pipe =
  pi_pc :: pipe_pc
  pi_total :: int
  pi_deadline :: "time option"
  pi_current :: "(time \<times> int) list"
  pi_result :: "(error option \<times> time) option"

definition pipe_new :: pipe where
  "pipe_new = \<lparr>pi_pc = Arming, pi_total = 0, pi_deadline = None, pi_current = [], pi_result = None\<rparr>"

text \<open>What the current copy has carried.\<close>

definition pi_copied :: "pipe \<Rightarrow> int" where
  "pi_copied p = sum_list (map snd (pi_current p))"

definition set_deadline :: "duration \<Rightarrow> time \<Rightarrow> pipe \<Rightarrow> pipe" where
  "set_deadline idle now p = (if idle > 0 then p\<lparr>pi_deadline := Some (now + check_interval idle)\<rparr> else p)"

text \<open>After the return of a copy that carried something the time is noted.\<close>

definition pipe_touch :: "time \<Rightarrow> pipe \<times> tunnelState \<Rightarrow> error option \<Rightarrow> pipe \<times> tunnelState" where
  "pipe_touch now pt err =
     (case pt of (p, t) \<Rightarrow> (p\<lparr>pi_pc := Checking err, pi_current := []\<rparr>, if pi_copied p > 0 then touch now t else t))"

text \<open>The \<^verbatim>\<open>switch\<close>: the end of the direction, the end of an idle tunnel, or the next turn.\<close>

definition pipe_check :: "(side \<Rightarrow> bool) \<Rightarrow> side \<Rightarrow> time \<Rightarrow> pipe \<times> tunnelState \<Rightarrow> error option \<Rightarrow> pipe \<times> tunnelState" where
  "pipe_check halves dst now pt err =
     (case pt of (p, t) \<Rightarrow>
        if \<not> is_err err os_ErrDeadlineExceeded
        then (case finish halves dst err t of (e, t1) \<Rightarrow> (p\<lparr>pi_result := Some (e, now)\<rparr>, t1))
        else if idleFor now t \<ge> tn_idle t
        then (p\<lparr>pi_result := Some (Some errTunnelIdle, now)\<rparr>, closeBoth t)
        else (p\<lparr>pi_pc := Arming\<rparr>, t))"

text \<open>
  How a copy may end: with no error of a deadline that was not set or has not passed, and not with the
  error that only the tunnel itself makes.
\<close>

definition copy_error :: "pipe \<Rightarrow> time \<Rightarrow> error option \<Rightarrow> bool" where
  "copy_error p now err \<longleftrightarrow> err \<noteq> Some errTunnelIdle \<and>
     (is_err err os_ErrDeadlineExceeded \<longrightarrow> (case pi_deadline p of None \<Rightarrow> False | Some d \<Rightarrow> d \<le> now))"

text \<open>The steps of a direction at a time, with the data that is carried in the step.\<close>

inductive pipe_step ::
  "(side \<Rightarrow> bool) \<Rightarrow> side \<Rightarrow> time \<Rightarrow> pipe \<times> tunnelState \<Rightarrow> (time \<times> side \<times> int) list \<Rightarrow> pipe \<times> tunnelState \<Rightarrow> bool"
  for halves dst now where
  arm: "pi_pc p = Arming \<Longrightarrow>
    pipe_step halves dst now (p, t) [] ((set_deadline (tn_idle t) now p)\<lparr>pi_pc := Copying\<rparr>, t)"
| carry: "pi_pc p = Copying \<Longrightarrow> k > 0 \<Longrightarrow> \<not> tn_closed t \<Longrightarrow>
    pipe_step halves dst now (p, t) [(now, dst, k)] (p\<lparr>pi_current := pi_current p @ [(now, k)]\<rparr>, t)"
| copy_returns: "pi_pc p = Copying \<Longrightarrow> copy_error p now err \<Longrightarrow>
    pipe_step halves dst now (p, t) [] (p\<lparr>pi_pc := CopyReturned err, pi_total := pi_total p + pi_copied p\<rparr>, t)"
| noted: "pi_pc p = CopyReturned err \<Longrightarrow> pipe_step halves dst now (p, t) [] (pipe_touch now (p, t) err)"
| checked: "pi_pc p = Checking err \<Longrightarrow> pipe_step halves dst now (p, t) [] (pipe_check halves dst now (p, t) err)"

inductive_cases pipe_stepE: "pipe_step halves dst now pt ds pt'"

section \<open>Both directions\<close>

text \<open>\<open>tu_data\<close> records every piece of data that was carried: when, and to which side.\<close>

record tunnel =
  tu_state :: tunnelState
  tu_up :: pipe
  tu_down :: pipe
  tu_result :: "(int \<times> int \<times> error option) option"
  tu_clock :: time
  tu_data :: "(time \<times> side \<times> int) list"

definition tunnel_start :: "duration \<Rightarrow> time \<Rightarrow> tunnel" where
  "tunnel_start idle now =
     \<lparr>tu_state = \<lparr>tn_idle = idle, tn_last = now, tn_closed = False, tn_closes = [], tn_halfs = []\<rparr>,
      tu_up = pipe_new, tu_down = pipe_new, tu_result = None, tu_clock = now, tu_data = []\<rparr>"

text \<open>The direction that writes to a side.\<close>

fun pipe_to :: "side \<Rightarrow> tunnel \<Rightarrow> pipe" where
  "pipe_to UpstreamSide u = tu_up u"
| "pipe_to ClientSide u = tu_down u"

fun put_pipe :: "side \<Rightarrow> pipe \<Rightarrow> tunnel \<Rightarrow> tunnel" where
  "put_pipe UpstreamSide p u = u\<lparr>tu_up := p\<rparr>"
| "put_pipe ClientSide p u = u\<lparr>tu_down := p\<rparr>"

definition errors_Join :: "error option list \<Rightarrow> error option" where
  "errors_Join es = (let xs = List.map_filter id es in if xs = [] then None else Some (ErrJoin xs))"

inductive tunnel_step :: "(side \<Rightarrow> bool) \<Rightarrow> tunnel \<Rightarrow> tunnel \<Rightarrow> bool" for halves where
  direction: "pi_result (pipe_to dst u) = None \<Longrightarrow> tu_clock u \<le> now \<Longrightarrow>
    pipe_step halves dst now (pipe_to dst u, tu_state u) ds (p, t) \<Longrightarrow>
    tunnel_step halves u ((put_pipe dst p u)\<lparr>tu_state := t, tu_clock := now, tu_data := tu_data u @ ds\<rparr>)"
| finished: "tu_result u = None \<Longrightarrow> pi_result (tu_down u) = Some (err1, t1) \<Longrightarrow> pi_result (tu_up u) = Some (err2, t2) \<Longrightarrow>
    tunnel_step halves u (u\<lparr>tu_state := closeBoth (tu_state u),
      tu_result := Some (pi_total (tu_up u), pi_total (tu_down u), errors_Join [err1, err2])\<rparr>)"

inductive_cases tunnel_stepE: "tunnel_step halves u u'"

lemma put_pipe_simps [simp]:
  "pipe_to d (put_pipe d' p u) = (if d = d' then p else pipe_to d u)" "tu_state (put_pipe d p u) = tu_state u"
  "tu_result (put_pipe d p u) = tu_result u" "tu_data (put_pipe d p u) = tu_data u" "tu_clock (put_pipe d p u) = tu_clock u"
  by (cases d; cases d'; simp)+

lemma pipe_to_update [simp]:
  "pipe_to d (u\<lparr>tu_state := t\<rparr>) = pipe_to d u" "pipe_to d (u\<lparr>tu_clock := now\<rparr>) = pipe_to d u"
  "pipe_to d (u\<lparr>tu_data := ds\<rparr>) = pipe_to d u" "pipe_to d (u\<lparr>tu_result := r\<rparr>) = pipe_to d u"
  by (cases d; simp)+

section \<open>The invariant\<close>

definition carried :: "side \<Rightarrow> (time \<times> side \<times> int) list \<Rightarrow> int" where
  "carried dst ds = sum_list (map (\<lambda>(_, s, n). if s = dst then n else 0) ds)"

lemma carried_simps [simp]: "carried dst [] = 0" "carried dst (ds @ es) = carried dst ds + carried dst es"
  "carried dst (x # ds) = (if fst (snd x) = dst then snd (snd x) else 0) + carried dst ds"
  by (simp_all add: carried_def case_prod_unfold)

lemma pi_copied_simps [simp]: "pi_copied (p\<lparr>pi_current := []\<rparr>) = 0" "pi_copied (p\<lparr>pi_current := pi_current p @ [(t, k)]\<rparr>) = pi_copied p + k"
  "pi_copied (p\<lparr>pi_pc := pc\<rparr>) = pi_copied p" "pi_copied (set_deadline idle now p) = pi_copied p" "pi_current p = [] \<Longrightarrow> pi_copied p = 0"
  by (simp_all add: pi_copied_def set_deadline_def)

text \<open>What a direction has to do with the data: its total, and the times of what its current copy carried.\<close>

definition pipe_inv :: "duration \<Rightarrow> side \<Rightarrow> time \<Rightarrow> (time \<times> side \<times> int) list \<Rightarrow> pipe \<Rightarrow> bool" where
  "pipe_inv idle dst clock ds p \<longleftrightarrow>
     pi_total p + (if pi_pc p = Copying then pi_copied p else 0) = carried dst ds \<and>
     (case pi_pc p of Arming \<Rightarrow> pi_current p = [] | Checking _ \<Rightarrow> pi_current p = [] | _ \<Rightarrow> True) \<and>
     (\<forall>(t, k) \<in> set (pi_current p). 0 < k \<and> (\<forall>d. pi_deadline p = Some d \<longrightarrow> d - check_interval idle \<le> t)) \<and>
     (if idle > 0 then \<forall>d. pi_deadline p = Some d \<longrightarrow> d \<le> clock + check_interval idle else pi_deadline p = None) \<and>
     (idle > 0 \<and> pi_pc p \<noteq> Arming \<longrightarrow> pi_deadline p \<noteq> None) \<and>
     (\<forall>err. pi_pc p = CopyReturned err \<or> pi_pc p = Checking err \<longrightarrow>
        err \<noteq> Some errTunnelIdle \<and> (is_err err os_ErrDeadlineExceeded \<longrightarrow> idle > 0)) \<and>
     (pi_result p \<noteq> None \<longrightarrow> (\<exists>err. pi_pc p = Checking err))"

definition result_inv :: "side \<Rightarrow> tunnelState \<Rightarrow> pipe \<Rightarrow> bool" where
  "result_inv dst t p \<longleftrightarrow>
     (\<forall>err tm. pi_result p = Some (err, tm) \<longrightarrow> (err \<noteq> None \<longrightarrow> tn_closed t) \<and> (tn_closed t \<or> dst \<in> set (tn_halfs t)))"

definition state_inv :: "duration \<Rightarrow> time \<Rightarrow> time \<Rightarrow> tunnelState \<Rightarrow> bool" where
  "state_inv idle start clock t \<longleftrightarrow> tn_idle t = idle \<and> start \<le> tn_last t \<and> tn_last t \<le> clock \<and>
     tn_closes t = (if tn_closed t then [ClientSide, UpstreamSide] else [])"

text \<open>Data is noted, or it is data of a copy that has not been noted yet.\<close>

definition noted_inv :: "tunnel \<Rightarrow> bool" where
  "noted_inv u \<longleftrightarrow> (\<forall>(t, d, k) \<in> set (tu_data u). t \<le> tu_clock u \<and> (t \<le> tn_last (tu_state u) \<or> (t, k) \<in> set (pi_current (pipe_to d u))))"

definition tunnel_inv :: "duration \<Rightarrow> time \<Rightarrow> tunnel \<Rightarrow> bool" where
  "tunnel_inv idle start u \<longleftrightarrow> state_inv idle start (tu_clock u) (tu_state u) \<and> noted_inv u \<and>
     (\<forall>d. pipe_inv idle d (tu_clock u) (tu_data u) (pipe_to d u) \<and> result_inv d (tu_state u) (pipe_to d u)) \<and>
     (\<forall>s r e. tu_result u = Some (s, r, e) \<longrightarrow> tn_closed (tu_state u) \<and> (\<forall>d. pi_result (pipe_to d u) \<noteq> None) \<and>
        s = pi_total (tu_up u) \<and> r = pi_total (tu_down u))"

text \<open>What a step does to the shared state.\<close>

definition later :: "tunnelState \<Rightarrow> tunnelState \<Rightarrow> bool" where
  "later t t' \<longleftrightarrow> (tn_closed t \<longrightarrow> tn_closed t') \<and> set (tn_halfs t) \<subseteq> set (tn_halfs t') \<and> tn_last t \<le> tn_last t'"

lemma closeBoth_simps [simp]:
  "tn_closed (closeBoth t)" "tn_idle (closeBoth t) = tn_idle t" "tn_last (closeBoth t) = tn_last t" "tn_halfs (closeBoth t) = tn_halfs t"
  by (simp_all add: closeBoth_def)

lemma closeBoth_closes:
  "tn_closes t = (if tn_closed t then [ClientSide, UpstreamSide] else []) \<Longrightarrow> tn_closes (closeBoth t) = [ClientSide, UpstreamSide]"
  by (simp add: closeBoth_def)

lemma state_inv_closeBoth: "state_inv idle start clock t \<Longrightarrow> state_inv idle start clock (closeBoth t)"
  using closeBoth_closes [of t] by (simp add: state_inv_def)

lemma pipe_step_state:
  assumes "pipe_step halves dst now (p, t) ds (p', t')" "state_inv idle start clock t" "clock \<le> now"
  shows "state_inv idle start now t' \<and> later t t'"
proof -
  have now: "state_inv idle start now t" using assms(2,3) by (simp add: state_inv_def)
  have "t' \<in> {t, touch now t, closeBoth t, t\<lparr>tn_halfs := tn_halfs t @ [dst]\<rparr>}"
    using assms(1) by (cases rule: pipe_step.cases)
      (auto simp: pipe_touch_def pipe_check_def finish_def Let_def split: if_splits)
  then show ?thesis using now state_inv_closeBoth [OF now] assms(2,3)
    by (auto simp: state_inv_def later_def touch_def)
qed

lemma pipe_step_inv:
  assumes "pipe_step halves dst now (p, t) ds (p', t')" "pipe_inv idle dst clock dat p" "pi_result p = None" "clock \<le> now" "tn_idle t = idle"
  shows "pipe_inv idle dst now (dat @ ds) p'"
  using assms(1)
proof (cases rule: pipe_step.cases)
  case arm
  then show ?thesis using assms(2-5) by (auto simp: pipe_inv_def set_deadline_def)
next
  case (carry k)
  then show ?thesis using assms(2-5) by (auto simp: pipe_inv_def split: if_splits)
next
  case (copy_returns err)
  then show ?thesis using assms(2-5) by (auto simp: pipe_inv_def copy_error_def split: if_splits option.splits)
next
  case (noted err)
  then show ?thesis using assms(2-5) by (auto simp: pipe_inv_def pipe_touch_def split: if_splits)
next
  case (checked err)
  then show ?thesis using assms(2-5)
    by (auto simp: pipe_inv_def pipe_check_def split: if_splits prod.splits)
qed

lemma pipe_step_result:
  assumes "pipe_step halves dst now (p, t) ds (p', t')" "pi_result p = None"
  shows "result_inv dst t' p'"
  using assms
  by (cases rule: pipe_step.cases)
    (auto simp: result_inv_def pipe_touch_def pipe_check_def finish_def set_deadline_def Let_def split: if_splits)

lemma pipe_inv_later:
  assumes "pipe_inv idle d clock dat p" "clock \<le> now" "carried d ds = 0"
  shows "pipe_inv idle d now (dat @ ds) p"
  using assms by (auto simp: pipe_inv_def split: if_splits)

lemma pipe_step_data: "pipe_step halves dst now pt ds pt' \<Longrightarrow> \<forall>(t, d, k) \<in> set ds. t = now \<and> d = dst \<and> (t, k) \<in> set (pi_current (fst pt'))"
  by (induction rule: pipe_step.induct) auto

lemma pieces_pos: "\<forall>y \<in> set xs. 0 < snd y \<Longrightarrow> xs \<noteq> [] \<Longrightarrow> 0 < sum_list (map snd xs :: int list)"
proof (induction xs)
  case (Cons x xs)
  then show ?case by (cases "xs = []") auto
qed simp

text \<open>A piece leaves the current copy only when the time is noted, and then the copy carried something.\<close>

lemma pipe_step_current:
  assumes "pipe_step halves dst now (p, t) ds (p', t')" "pipe_inv idle dst clock dat p" "x \<in> set (pi_current p)"
  shows "x \<in> set (pi_current p') \<or> tn_last t' = now"
  using assms(1)
proof (cases rule: pipe_step.cases)
  case (noted err)
  have "\<forall>y \<in> set (pi_current p). 0 < snd y" using assms(2) by (auto simp: pipe_inv_def)
  then have "0 < pi_copied p" using pieces_pos assms(3) unfolding pi_copied_def by (metis empty_iff list.set(1))
  then show ?thesis using noted by (simp add: pipe_touch_def touch_def)
qed (use assms(2,3) in \<open>auto simp: set_deadline_def pipe_inv_def\<close>)

lemma noted_step:
  assumes "noted_inv u" "pipe_step halves dst now (pipe_to dst u, tu_state u) ds (p, t)" "tu_clock u \<le> now"
    and "pipe_inv idle dst (tu_clock u) (tu_data u) (pipe_to dst u)" "later (tu_state u) t"
  shows "noted_inv ((put_pipe dst p u)\<lparr>tu_state := t, tu_clock := now, tu_data := tu_data u @ ds\<rparr>)"
proof -
  have "x \<le> now \<and> (x \<le> tn_last t \<or> (x, k) \<in> set (pi_current (if d = dst then p else pipe_to d u)))" if "(x, d, k) \<in> set (tu_data u)" for x d k
  proof -
    have x: "x \<le> tu_clock u" "x \<le> tn_last (tu_state u) \<or> (x, k) \<in> set (pi_current (pipe_to d u))"
      using assms(1) that by (auto simp: noted_inv_def)
    have "tn_last (tu_state u) \<le> tn_last t" using assms(5) by (simp add: later_def)
    then show ?thesis using x assms(3) pipe_step_current [OF assms(2,4), of "(x, k)"] by (cases "d = dst") auto
  qed
  moreover have "x \<le> now \<and> (x, k) \<in> set (pi_current (if d = dst then p else pipe_to d u))" if "(x, d, k) \<in> set ds" for x d k
    using pipe_step_data [OF assms(2)] that by fastforce
  ultimately show ?thesis by (fastforce simp: noted_inv_def)
qed

lemma result_inv_later: "result_inv d t p \<Longrightarrow> later t t' \<Longrightarrow> result_inv d t' p"
  by (fastforce simp: result_inv_def later_def)

lemma tunnel_inv_start: "tunnel_inv idle start (tunnel_start idle start)"
proof -
  have "pipe_to d (tunnel_start idle start) = pipe_new" for d by (cases d) (simp_all add: tunnel_start_def)
  then show ?thesis
    by (simp add: tunnel_inv_def) (simp add: tunnel_start_def state_inv_def noted_inv_def pipe_inv_def result_inv_def pipe_new_def)
qed

lemma tunnel_inv_step:
  assumes "tunnel_step halves u u'" "tunnel_inv idle start u"
  shows "tunnel_inv idle start u'"
  using assms(1)
proof (cases rule: tunnel_step.cases)
  case (direction dst now ds p t)
  have inv: "state_inv idle start (tu_clock u) (tu_state u)" "noted_inv u" "\<And>d. pipe_inv idle d (tu_clock u) (tu_data u) (pipe_to d u)"
      "\<And>d. result_inv d (tu_state u) (pipe_to d u)"
    using assms(2) by (simp_all add: tunnel_inv_def)
  have "tu_result u \<noteq> None \<Longrightarrow> pi_result (pipe_to dst u) \<noteq> None" using assms(2) unfolding tunnel_inv_def by force
  then have none: "tu_result u = None" using direction(2) by blast
  note st = pipe_step_state [OF direction(4) inv(1) direction(3)]
  have tn: "tn_idle (tu_state u) = idle" using inv(1) by (simp add: state_inv_def)
  have "pipe_inv idle d now (tu_data u @ ds) (if d = dst then p else pipe_to d u)" for d
  proof (cases "d = dst")
    case True
    then show ?thesis using pipe_step_inv [OF direction(4) inv(3) direction(2,3) tn] by simp
  next
    case False
    have "carried d ds = 0" using direction(4) False by (cases rule: pipe_step.cases) auto
    then show ?thesis using False pipe_inv_later [OF inv(3) direction(3)] by simp
  qed
  moreover have "result_inv d t (if d = dst then p else pipe_to d u)" for d
    using pipe_step_result [OF direction(4,2)] result_inv_later [OF inv(4)] st by simp
  ultimately show ?thesis using st noted_step [OF inv(2) direction(4,3) inv(3)] none
    unfolding direction(1) tunnel_inv_def by simp
next
  case (finished err1 t1 err2 t2)
  have l: "later (tu_state u) (closeBoth (tu_state u))" by (simp add: later_def)
  have "pi_result (pipe_to d u) \<noteq> None" for d using finished by (cases d) auto
  then show ?thesis using assms(2) finished state_inv_closeBoth result_inv_later [OF _ l]
    by (auto simp: tunnel_inv_def noted_inv_def)
qed

interpretation tunnel_machine: step_invariant "tunnel_step halves" "\<lambda>u. u = tunnel_start idle start" "tunnel_inv idle start"
  for halves idle start
  by unfold_locales (auto intro: tunnel_inv_start tunnel_inv_step)

section \<open>Properties\<close>

text \<open>
  C14.  A tunnel counts and closes as promised.  In every reachable state the total of a direction is what it carried, less
  what the copy under way has carried so far; a direction in a copy has a read deadline at most a quarter of the timeout (or ten
  milliseconds) away; a direction that failed or gave up leaves both connections closed, and one that ended well has closed
  its destination for writing or both are closed; both connections are closed at most once, and exactly once each when the
  tunnel has returned, with the bytes carried each way.
\<close>

theorem tunnel_ends:
  assumes "(tunnel_step halves)\<^sup>*\<^sup>* (tunnel_start idle start) u"
  shows "pi_total (pipe_to dst u) + (if pi_pc (pipe_to dst u) = Copying then pi_copied (pipe_to dst u) else 0) = carried dst (tu_data u) \<and>
    (pi_pc (pipe_to dst u) = Copying \<and> idle > 0 \<longrightarrow>
       (\<exists>d. pi_deadline (pipe_to dst u) = Some d \<and> d \<le> tu_clock u + max (idle div 4) (10 * 10 ^ 6))) \<and>
    (\<forall>e tm. pi_result (pipe_to dst u) = Some (e, tm) \<longrightarrow> pi_total (pipe_to dst u) = carried dst (tu_data u) \<and>
       (e \<noteq> None \<longrightarrow> tn_closed (tu_state u)) \<and> (tn_closed (tu_state u) \<or> dst \<in> set (tn_halfs (tu_state u)))) \<and>
    tn_closes (tu_state u) = (if tn_closed (tu_state u) then [ClientSide, UpstreamSide] else []) \<and>
    (\<forall>s r e. tu_result u = Some (s, r, e) \<longrightarrow> tn_closed (tu_state u) \<and>
       s = carried UpstreamSide (tu_data u) \<and> r = carried ClientSide (tu_data u))"
proof -
  have inv: "tunnel_inv idle start u" using tunnel_machine.holds_after [OF assms] by simp
  have p: "\<And>d. pipe_inv idle d (tu_clock u) (tu_data u) (pipe_to d u)" "result_inv dst (tu_state u) (pipe_to dst u)"
    using inv by (simp_all add: tunnel_inv_def)
  have ended: "pi_total (pipe_to d u) = carried d (tu_data u)" if "pi_result (pipe_to d u) \<noteq> None" for d
    using p(1) [of d] that by (auto simp: pipe_inv_def)
  have "max (idle div 4) (10 * 10 ^ 6) = check_interval idle" if "idle > 0"
    using that by (simp add: check_interval_def go_div_def)
  then have "pi_pc (pipe_to dst u) = Copying \<and> idle > 0 \<longrightarrow>
      (\<exists>d. pi_deadline (pipe_to dst u) = Some d \<and> d \<le> tu_clock u + max (idle div 4) (10 * 10 ^ 6))"
    using p(1) [of dst] by (auto simp: pipe_inv_def)
  moreover have "tn_closed (tu_state u) \<and> s = carried UpstreamSide (tu_data u) \<and> r = carried ClientSide (tu_data u)"
    if "tu_result u = Some (s, r, e)" for s r e
  proof -
    have "\<And>d. pi_result (pipe_to d u) \<noteq> None" "tn_closed (tu_state u)" "s = pi_total (tu_up u)" "r = pi_total (tu_down u)"
      using inv that unfolding tunnel_inv_def by blast+
    then show ?thesis using ended [of UpstreamSide] ended [of ClientSide] by (metis pipe_to.simps)
  qed
  ultimately show ?thesis using p ended [of dst] inv
    by (simp add: pipe_inv_def result_inv_def tunnel_inv_def state_inv_def)
qed

text \<open>
  C13.  When a tunnel is closed for idleness.  A direction gives up for idleness only when there is a timeout and the tunnel is older
  than it, and it closes both connections.  At this moment all data that was ever carried is at least as old as the timeout, except
  data of the other direction whose copy is still under way; and unless the deadline of that copy has passed, this
  data was carried within the last quarter of the timeout (or ten milliseconds), so that nothing was carried in the rest of it.
\<close>

theorem tunnel_idle_close:
  assumes "(tunnel_step halves)\<^sup>*\<^sup>* (tunnel_start idle start) u" "tunnel_step halves u u'"
    and "pi_result (pipe_to dst u) = None" "pi_result (pipe_to dst u') = Some (Some errTunnelIdle, tm)"
    and "other \<noteq> dst"
  shows "0 < idle \<and> start + idle \<le> tm \<and> tu_clock u \<le> tm \<and> tn_closed (tu_state u') \<and>
    (\<forall>(t, d, k) \<in> set (tu_data u). t + idle \<le> tm \<or> d = other \<and> (t, k) \<in> set (pi_current (pipe_to other u))) \<and>
    ((\<forall>dl. pi_deadline (pipe_to other u) = Some dl \<longrightarrow> tm \<le> dl) \<longrightarrow>
       (\<forall>(t, d, k) \<in> set (tu_data u). t + idle \<le> tm \<or> tm - max (idle div 4) (10 * 10 ^ 6) \<le> t))"
  using assms(2)
proof (cases rule: tunnel_step.cases)
  case (direction dst' now ds p t)
  have inv: "tunnel_inv idle start u" using tunnel_machine.holds_after [OF assms(1)] by simp
  have dst: "dst' = dst" using direction(1) assms(3,4) by (auto split: if_splits)
  then have p: "pi_result p = Some (Some errTunnelIdle, tm)" using direction(1) assms(4) by simp
  have pinv: "\<And>d. pipe_inv idle d (tu_clock u) (tu_data u) (pipe_to d u)" using inv by (simp add: tunnel_inv_def)
  obtain err where chk: "pi_pc (pipe_to dst u) = Checking err" "(p, t) = pipe_check halves dst now (pipe_to dst u, tu_state u) err"
    using direction(4) assms(3) p unfolding dst
    by (cases rule: pipe_step.cases) (auto simp: set_deadline_def pipe_touch_def split: if_splits)
  have e: "err \<noteq> Some errTunnelIdle" "is_err err os_ErrDeadlineExceeded \<Longrightarrow> idle > 0" "pi_current (pipe_to dst u) = []"
    using pinv [of dst] chk(1) by (auto simp: pipe_inv_def)
  then have idle: "is_err err os_ErrDeadlineExceeded" "idleFor now (tu_state u) \<ge> tn_idle (tu_state u)" "tm = now" "t = closeBoth (tu_state u)"
    using chk(2) p assms(3) by (auto simp: pipe_check_def finish_def Let_def split: if_splits)
  have st: "tn_idle (tu_state u) = idle" "start \<le> tn_last (tu_state u)" "noted_inv u" using inv by (simp_all add: tunnel_inv_def state_inv_def)
  have old: "tn_last (tu_state u) + idle \<le> tm" using idle(2,3) st(1) by (simp add: idleFor_def)
  have data: "x + idle \<le> tm \<or> d = other \<and> (x, k) \<in> set (pi_current (pipe_to other u))" if "(x, d, k) \<in> set (tu_data u)" for x d k
  proof -
    have "x \<le> tn_last (tu_state u) \<or> (x, k) \<in> set (pi_current (pipe_to d u))" using st(3) that by (auto simp: noted_inv_def)
    moreover have "d = dst \<or> d = other" using assms(5) by (cases d; cases dst; cases other) auto
    ultimately show ?thesis using old e(3) by auto
  qed
  have "tm - max (idle div 4) (10 * 10 ^ 6) \<le> x"
    if "(x, k) \<in> set (pi_current (pipe_to other u))" "\<forall>dl. pi_deadline (pipe_to other u) = Some dl \<longrightarrow> tm \<le> dl" for x k
  proof -
    have pos: "idle > 0" using e(2) idle(1) by blast
    have "pi_pc (pipe_to other u) \<noteq> Arming" using pinv [of other] that(1) by (auto simp: pipe_inv_def)
    then obtain dl where "pi_deadline (pipe_to other u) = Some dl" using pinv [of other] pos by (auto simp: pipe_inv_def)
    moreover from this have "dl - check_interval idle \<le> x" using pinv [of other] that(1) by (fastforce simp: pipe_inv_def)
    ultimately show ?thesis using that(2) pos by (auto simp: check_interval_def go_div_def)
  qed
  then show ?thesis using data old st(2) e(2) idle direction(1,3) by (fastforce simp: dst)
next
  case (finished err1 t1 err2 t2)
  then show ?thesis using assms(3,4) by simp
qed

text \<open>A tunnel with a timeout of one hour in which only a piece to the client is carried, a minute before the hour is over.\<close>

definition demo_copying :: "time \<Rightarrow> (time \<times> int) list \<Rightarrow> pipe" where
  "demo_copying dl cur = \<lparr>pi_pc = Copying, pi_total = 0, pi_deadline = Some dl, pi_current = cur, pi_result = None\<rparr>"

definition demo_state :: tunnelState where
  "demo_state = \<lparr>tn_idle = 3600000000000, tn_last = 0, tn_closed = False, tn_closes = [], tn_halfs = []\<rparr>"

definition demo_hour :: "(side \<Rightarrow> pipe) \<Rightarrow> time \<Rightarrow> (time \<times> side \<times> int) list \<Rightarrow> tunnel" where
  "demo_hour ps clock ds =
     \<lparr>tu_state = demo_state, tu_up = ps UpstreamSide, tu_down = ps ClientSide, tu_result = None, tu_clock = clock, tu_data = ds\<rparr>"

abbreviation reaches :: "(side \<Rightarrow> bool) \<Rightarrow> tunnel \<Rightarrow> bool" where
  "reaches halves u \<equiv> (tunnel_step halves)\<^sup>*\<^sup>* (tunnel_start 3600000000000 0) u"

lemma demo_hour_simps [simp]: "pipe_to dst (demo_hour ps clock ds) = ps dst" "tu_clock (demo_hour ps clock ds) = clock"
  "tu_data (demo_hour ps clock ds) = ds" "tu_state (demo_hour ps clock ds) = demo_state"
  by (cases dst) (simp_all add: demo_hour_def)

lemma reaches_step:
  assumes "reaches halves (demo_hour ps clock ds)" "pipe_step halves dst now (q, demo_state) es (p, demo_state)" "ps dst = q" "pi_result q = None"
    and "clock \<le> now"
  shows "reaches halves (demo_hour (ps(dst := p)) now (ds @ es))"
  using assms(1) tunnel_step.direction [of dst "demo_hour ps clock ds" now halves es p demo_state] assms(2-5)
  by (cases dst) (auto simp: demo_hour_def intro: rtranclp.rtrancl_into_rtrancl)

lemmas demo_steps = demo_state_def demo_copying_def pipe_new_def set_deadline_def check_interval_def go_div_def pi_copied_def copy_error_def
  is_err_def os_ErrDeadlineExceeded_def errTunnelIdle_def pipe_touch_def pipe_check_def idleFor_def closeBoth_def

abbreviation demo_at :: "pipe_pc \<Rightarrow> time \<Rightarrow> pipe" where
  "demo_at pc T \<equiv> (demo_copying T [])\<lparr>pi_pc := pc\<rparr>"

abbreviation demo_deadline :: "error option" where
  "demo_deadline \<equiv> Some os_ErrDeadlineExceeded"

lemma demo_pipe_steps:
  "pipe_step halves dst now (pipe_new, demo_state) [] (demo_copying (now + 900000000000) [], demo_state)"
  "pipe_step halves dst T (demo_copying T [], demo_state) [] (demo_at (CopyReturned demo_deadline) T, demo_state)"
  "pipe_step halves dst T (demo_at (CopyReturned demo_deadline) T, demo_state) [] (demo_at (Checking demo_deadline) T, demo_state)"
  "T < 3600000000000 \<Longrightarrow>
     pipe_step halves dst T (demo_at (Checking demo_deadline) T, demo_state) [] (demo_at Arming T, demo_state)"
  "pipe_step halves dst T (demo_at Arming T, demo_state) [] (demo_copying (T + 900000000000) [], demo_state)"
  "pipe_step halves dst now (demo_copying T [], demo_state) [(now, dst, 1)] (demo_copying T [(now, 1)], demo_state)"
  using pipe_step.arm [of pipe_new halves dst now demo_state]
    pipe_step.copy_returns [of "demo_copying T []" T demo_deadline halves dst demo_state]
    pipe_step.noted [of "demo_at (CopyReturned demo_deadline) T" demo_deadline halves dst T demo_state]
    pipe_step.checked [of "demo_at (Checking demo_deadline) T" demo_deadline halves dst T demo_state]
    pipe_step.arm [of "demo_at Arming T" halves dst T demo_state] pipe_step.carry [of "demo_copying T []" 1 demo_state halves dst now]
  by (simp_all add: demo_steps)

text \<open>A turn without data before the hour is over.\<close>

lemma demo_turn:
  assumes "reaches halves (demo_hour ps clock ds)" "ps dst = demo_copying T []" "clock \<le> T" "T < 3600000000000"
  shows "reaches halves (demo_hour (ps(dst := demo_copying (T + 900000000000) [])) T ds)"
proof -
  have r: "pi_result (demo_at pc T) = None" "pi_result (demo_copying T []) = None" for pc by (simp_all add: demo_copying_def)
  note s1 = reaches_step [OF assms(1) demo_pipe_steps(2) assms(2) r(2) assms(3)]
  note s2 = reaches_step [OF s1 demo_pipe_steps(3) _ r(1) order_refl, where dst = dst, simplified]
  note s3 = reaches_step [OF s2 demo_pipe_steps(4) [OF assms(4)] _ r(1) order_refl, where dst = dst, simplified]
  note s4 = reaches_step [OF s3 demo_pipe_steps(5) _ r(1) order_refl, where dst = dst, simplified]
  show ?thesis using s4 by simp
qed

text \<open>Both directions have turned three times, and a minute before the hour is over a piece is carried to the client.\<close>

definition demo_pipes :: "side \<Rightarrow> pipe" where
  "demo_pipes d = (if d = ClientSide then demo_copying 3600000000000 [(3540000000000, 1)] else demo_at (Checking demo_deadline) 3600000000000)"

lemma demo_hour_reached: "reaches halves (demo_hour demo_pipes 3600000000000 [(3540000000000, ClientSide, 1)])"
proof -
  let ?q = "\<lambda>T. (\<lambda>_. demo_copying T []) :: side \<Rightarrow> pipe"
  have both: "ps(UpstreamSide := p, ClientSide := p) = (\<lambda>_. p)" for ps :: "side \<Rightarrow> pipe" and p
    by (rule ext, rename_tac d, case_tac d) simp_all
  have n: "pi_result pipe_new = None" "pi_result (demo_copying T cur) = None" "pi_result (demo_at pc T) = None" for T cur pc
    by (simp_all add: pipe_new_def demo_copying_def)
  have s0: "reaches halves (demo_hour (\<lambda>_. pipe_new) 0 [])" by (simp add: demo_hour_def demo_state_def tunnel_start_def)
  note a1 = reaches_step [OF s0 demo_pipe_steps(1) refl n(1) order_refl, where dst = UpstreamSide, simplified]
  have "reaches halves (demo_hour (?q (900000000000)) 0 [])"
    using reaches_step [OF a1 demo_pipe_steps(1) _ n(1) order_refl, where dst = ClientSide] by (simp add: both)
  moreover have turn: "reaches halves (demo_hour (?q (T + 900000000000)) T [])"
    if "reaches halves (demo_hour (?q T) clock [])" "clock \<le> T" "T < 3600000000000" for T clock
    using demo_turn [OF demo_turn [OF that(1) refl that(2,3), of UpstreamSide] _ order_refl that(3), of ClientSide] by (simp add: both)
  ultimately have "reaches halves (demo_hour (?q 3600000000000) 2700000000000 [])"
    using turn [of "900000000000" 0] turn [of "1800000000000" "900000000000"] turn [of "2700000000000" "1800000000000"] by simp
  note s1 = reaches_step [OF this demo_pipe_steps(6) [of _ ClientSide "3540000000000"] refl n(2), simplified]
  note s2 = reaches_step [OF s1 demo_pipe_steps(2) [of _ UpstreamSide 3600000000000] _ n(2), simplified]
  note s3 = reaches_step [OF s2 demo_pipe_steps(3) [of _ UpstreamSide] _ n(3) order_refl, simplified]
  have "demo_pipes = (?q 3600000000000)(ClientSide := demo_copying 3600000000000 [(3540000000000, 1)],
      UpstreamSide := demo_at (Checking demo_deadline) 3600000000000)"
    by (rule ext, rename_tac d, case_tac d) (simp_all add: demo_pipes_def)
  then show ?thesis using s3 by simp
qed

text \<open>The check of the other direction then closes the tunnel.\<close>

definition demo_closed :: tunnel where
  "demo_closed = (demo_hour (demo_pipes(UpstreamSide := (demo_pipes UpstreamSide)\<lparr>pi_result := Some (Some errTunnelIdle, 3600000000000)\<rparr>))
     3600000000000 [(3540000000000, ClientSide, 1)])\<lparr>tu_state := closeBoth demo_state\<rparr>"

lemma demo_closes: "tunnel_step halves (demo_hour demo_pipes 3600000000000 [(3540000000000, ClientSide, 1)]) demo_closed"
proof -
  have "pipe_step halves UpstreamSide 3600000000000 (demo_pipes UpstreamSide, demo_state) []
      ((demo_pipes UpstreamSide)\<lparr>pi_result := Some (Some errTunnelIdle, 3600000000000)\<rparr>, closeBoth demo_state)"
    using pipe_step.checked [of "demo_pipes UpstreamSide" demo_deadline halves UpstreamSide "3600000000000" demo_state]
    by (simp add: demo_pipes_def demo_steps)
  then have "tunnel_step halves (demo_hour demo_pipes 3600000000000 [(3540000000000, ClientSide, 1)])
      ((put_pipe UpstreamSide ((demo_pipes UpstreamSide)\<lparr>pi_result := Some (Some errTunnelIdle, 3600000000000)\<rparr>)
          (demo_hour demo_pipes 3600000000000 [(3540000000000, ClientSide, 1)]))
        \<lparr>tu_state := closeBoth demo_state, tu_clock := 3600000000000, tu_data := [(3540000000000, ClientSide, 1)] @ []\<rparr>)"
    using tunnel_step.direction [of UpstreamSide "demo_hour demo_pipes 3600000000000 [(3540000000000, ClientSide, 1)]" 3600000000000 halves "[]"]
    by (simp add: demo_pipes_def demo_copying_def)
  then show ?thesis by (simp add: demo_pipes_def demo_closed_def demo_hour_def)
qed

theorem tunnel_ends_witness: "tn_closes (tu_state demo_closed) = [ClientSide, UpstreamSide] \<and> pi_total (tu_up demo_closed) = 0"
  using tunnel_ends [OF rtranclp.rtrancl_into_rtrancl [OF demo_hour_reached demo_closes], of UpstreamSide]
  by (simp add: demo_closed_def) (simp add: demo_hour_def demo_pipes_def demo_copying_def)

theorem tunnel_idle_close_witness:
  "tn_closed (tu_state demo_closed) \<and> (\<exists>t. tu_data demo_closed = [(t, ClientSide, 1)] \<and> 3600000000000 - 900000000000 \<le> t)"
proof -
  let ?u = "demo_hour demo_pipes 3600000000000 [(3540000000000, ClientSide, 1)]"
  have "pi_result (pipe_to UpstreamSide ?u) = None" "pi_result (pipe_to UpstreamSide demo_closed) = Some (Some errTunnelIdle, 3600000000000)"
    "\<forall>dl. pi_deadline (pipe_to ClientSide ?u) = Some dl \<longrightarrow> 3600000000000 \<le> dl" "ClientSide \<noteq> UpstreamSide"
    by (simp_all add: demo_closed_def demo_hour_def demo_pipes_def demo_copying_def)
  with tunnel_idle_close [OF demo_hour_reached demo_closes this(1,2,4)]
  show ?thesis by (simp add: demo_closed_def)
qed

text \<open>
  C15.  A tunnel that carries data can be closed for idleness.  The time of data is noted only when the copy that carried it
  returns, so with a timeout of one hour there is a run in which both directions always wake at their deadlines, a byte is
  carried to the client a minute before the hour is over, and the other direction, which wakes first, then closes the tunnel.
\<close>

theorem tunnel_idle_early:
  "\<exists>u u'. (tunnel_step halves)\<^sup>*\<^sup>* (tunnel_start (3600 * 10 ^ 9) 0) u \<and> tunnel_step halves u u' \<and>
     pi_result (tu_up u) = None \<and> pi_result (tu_up u') = Some (Some errTunnelIdle, 3600 * 10 ^ 9) \<and>
     tn_closes (tu_state u) = [] \<and> tn_closes (tu_state u') = [ClientSide, UpstreamSide] \<and>
     (3540 * 10 ^ 9, ClientSide, 1) \<in> set (tu_data u) \<and> pi_deadline (tu_down u) = Some (3600 * 10 ^ 9)"
proof (intro exI conjI)
  show "(tunnel_step halves)\<^sup>*\<^sup>* (tunnel_start (3600 * 10 ^ 9) 0) (demo_hour demo_pipes 3600000000000 [(3540000000000, ClientSide, 1)])"
    using demo_hour_reached by simp
  show "tunnel_step halves (demo_hour demo_pipes 3600000000000 [(3540000000000, ClientSide, 1)]) demo_closed" by (rule demo_closes)
qed (simp_all add: demo_closed_def demo_hour_def demo_pipes_def demo_copying_def demo_state_def closeBoth_def)

end
