(* ===== verification/Host_Text.thy ===== *)
theory Host_Text
  imports Rules
begin

text \<open>
  The characters of hosts and addresses that the parsers accept, and \<^verbatim>\<open>net.JoinHostPort\<close> undone by
  \<^verbatim>\<open>net.SplitHostPort\<close>: the keys of the upstream pools and the dial of a tunnel rely on them.
\<close>

section \<open>Hosts and addresses as text\<close>

text \<open>The characters of an address, and those of a host that a check accepted.\<close>

definition addr_char :: "char \<Rightarrow> bool" where
  "addr_char c \<longleftrightarrow> hex_val c \<noteq> None \<or> c = CHR '':'' \<or> c = CHR ''.''"

lemma hex_run_chars: "hex_run s acc off = Inr (a, n, s1) \<Longrightarrow> \<exists>pre. s = pre @ s1 \<and> (\<forall>c \<in> set pre. addr_char c)"
proof (induction s acc off rule: hex_run.induct)
  case (2 c s acc off)
  show ?case
  proof (cases "hex_val c")
    case None
    then show ?thesis using 2(2) by simp
  next
    case (Some d)
    then obtain pre where "s = pre @ s1" "\<forall>c \<in> set pre. addr_char c" using 2 by (auto split: if_splits)
    then show ?thesis using Some by (intro exI [of _ "c # pre"]) (auto simp: addr_char_def)
  qed
qed simp

lemma IPv4_chars: "parseIPv4Fields s = Inr fs \<Longrightarrow> \<forall>c \<in> set s. addr_char c"
proof -
  assume "parseIPv4Fields s = Inr fs"
  then have "\<forall>c \<in> set s. is_digit c \<or> c = CHR ''.''" using parseIPv4_loop_chars by (fastforce simp: parseIPv4Fields_def)
  then show ?thesis by (auto simp: addr_char_def hex_val_def)
qed

lemma IPv6_loop_chars:
  "parseIPv6_loop n s gs ell = Inr (rest, gs', ell') \<Longrightarrow> \<exists>pre. s = pre @ rest \<and> (\<forall>c \<in> set pre. addr_char c)"
proof (induction n arbitrary: s gs ell)
  case (Suc n)
  obtain acc off s1 where h: "hex_run s 0 0 = Inr (acc, off, s1)" using Suc.prems by (auto split: sum.splits)
  obtain pre where pre: "s = pre @ s1" "\<forall>c \<in> set pre. addr_char c" using hex_run_chars [OF h] by blast
  have colon: "addr_char CHR '':''" by (simp add: addr_char_def)
  note un = Suc.prems [unfolded parseIPv6_loop.simps h sum.case prod.case]
  show ?case
  proof (cases "s1 \<noteq> [] \<and> hd s1 = CHR ''.''")
    case True
    then obtain fs where "parseIPv4Fields s = Inr fs" "rest = []" using un by (auto split: if_splits sum.splits)
    then show ?thesis using IPv4_chars by auto
  next
    case dot: False
    show ?thesis
    proof (cases "s1 = []")
      case True
      then have "rest = []" using un by (auto split: if_splits)
      then show ?thesis using pre True by auto
    next
      case ne: False
      then obtain t where t: "s1 = CHR '':'' # t" "t \<noteq> []" using un dot by (cases s1) (auto split: if_splits)
      show ?thesis
      proof (cases "hd t = CHR '':''")
        case True
        then obtain u where u: "t = CHR '':'' # u" using t(2) by (cases t) auto
        show ?thesis
        proof (cases "u = []")
          case True
          then have "rest = []" using un dot t u by (auto split: if_splits)
          then show ?thesis using pre t u True colon by auto
        next
          case False
          then have "parseIPv6_loop n u (gs @ [acc]) (Some (Suc (length gs))) = Inr (rest, gs', ell')"
            using un dot t u by (auto split: if_splits)
          then obtain q where "u = q @ rest" "\<forall>c \<in> set q. addr_char c" using Suc.IH by blast
          then show ?thesis using pre t u colon by (intro exI [of _ "pre @ CHR '':'' # CHR '':'' # q"]) auto
        qed
      next
        case False
        then have "parseIPv6_loop n t (gs @ [acc]) ell = Inr (rest, gs', ell')"
          using un dot t by (auto split: if_splits)
        then obtain q where "t = q @ rest" "\<forall>c \<in> set q. addr_char c" using Suc.IH by blast
        then show ?thesis using pre t colon by (intro exI [of _ "pre @ CHR '':'' # q"]) auto
      qed
    qed
  qed
qed simp

lemma IPv6_groups_chars:
  assumes "parseIPv6_groups s = Inr gs"
  shows "\<forall>c \<in> set s. addr_char c"
proof -
  have fin: "\<forall>c \<in> set t. addr_char c" if "rbind (parseIPv6_loop 8 t g e) parseIPv6_end = Inr gs" for t g e
  proof -
    obtain rest gs' ell' where l: "parseIPv6_loop 8 t g e = Inr (rest, gs', ell')" "parseIPv6_end (rest, gs', ell') = Inr gs"
      using \<open>rbind _ _ = _\<close> unfolding rbind_Inr_iff by (metis prod_cases3)
    moreover have "rest = []" using l(2) by (auto simp: parseIPv6_end_def split: if_splits)
    ultimately show ?thesis using IPv6_loop_chars by fastforce
  qed
  show ?thesis
  proof (cases "HasPrefix s ''::''")
    case True
    then obtain t where "s = ''::'' @ t" by (auto simp: HasPrefix_iff)
    moreover have "\<forall>c \<in> set t. addr_char c" using assms fin calculation by (cases "t = []") (auto simp: parseIPv6_groups_def)
    ultimately show ?thesis by (auto simp: addr_char_def)
  qed (use assms fin in \<open>simp add: parseIPv6_groups_def\<close>)
qed

lemma ParseAddr_chars:
  assumes "ParseAddr s = Inr a" "Zone a = []"
  shows "\<forall>c \<in> set s. addr_char c"
proof -
  obtain c where c: "List.find (\<lambda>c. c \<in> set ''.:%'') s = Some c" using assms(1) by (auto simp: ParseAddr_def split: option.splits)
  show ?thesis
  proof (cases "c = CHR ''.''")
    case True
    then obtain fs where "parseIPv4Fields s = Inr fs" using assms(1) c by (auto simp: ParseAddr_def parseIPv4_def rbind_Inr_iff)
    then show ?thesis by (rule IPv4_chars)
  next
    case False
    then have "parseIPv6 s = Inr a" using assms(1) c by (auto simp: ParseAddr_def split: if_splits)
    moreover obtain body zone found where cut: "Cut s CHR ''%'' = (body, zone, found)" by (metis prod_cases3)
    ultimately obtain gs where "parseIPv6_groups body = Inr gs" "a = Addr6 (of_nat (fields_val 65536 gs)) zone" "\<not> (found \<and> zone = [])"
      by (auto simp: parseIPv6_def rbind_Inr_iff split: if_splits)
    moreover have "\<not> found \<Longrightarrow> body = s" using cut by (auto simp: Cut_def split: option.splits)
    ultimately show ?thesis using assms(2) IPv6_groups_chars by auto
  qed
qed

text \<open>A host the policy accepts has none of the characters that separate keys or enclose addresses.\<close>

lemma parseHost_chars:
  assumes "parseHost h = Inr d"
  shows "CHR ''|'' \<notin> set h" "CHR ''['' \<notin> set h" "CHR '']'' \<notin> set h"
proof -
  have "\<forall>c \<in> set h. addr_char c \<or> host_char c"
  proof (cases "ParseAddr h")
    case (Inl e)
    then show ?thesis using assms by (auto simp: parseHost_def checkHostChars_ok split: sum.splits)
  next
    case (Inr a)
    then show ?thesis using assms ParseAddr_chars [OF Inr] by (auto simp: parseHost_def split: if_splits)
  qed
  moreover have "\<not> (addr_char c \<or> host_char c)" if "c \<in> {CHR ''|'', CHR ''['', CHR '']''}" for c
    using that by (auto simp: addr_char_def hex_val_def host_char_def is_digit_def between_def)
  ultimately show "CHR ''|'' \<notin> set h" "CHR ''['' \<notin> set h" "CHR '']'' \<notin> set h" by auto
qed

lemma Split_JoinHostPort:
  assumes "CHR ''['' \<notin> set h" "CHR '']'' \<notin> set h" "list_all is_digit p"
  shows "SplitHostPort (JoinHostPort h p) = Inr (h, p)"
proof -
  have d: "c \<notin> set p" if "\<not> is_digit c" for c using assms(3) that by (auto simp: list_all_iff)
  have p: "CHR '':'' \<notin> set p" "CHR ''['' \<notin> set p" "CHR '']'' \<notin> set p" by (rule d, simp add: is_digit_def between_def)+
  show ?thesis
  proof (cases "CHR '':'' \<in> set h")
    case True
    let ?s = "(CHR ''['' # h @ '']'') @ CHR '':'' # p"
    have "LastIndexByte ?s CHR '':'' = Some (length h + 2)" using LastIndexByte_append [OF p(1), of "CHR ''['' # h @ '']''"] by simp
    moreover have "IndexByte ((CHR ''['' # h) @ CHR '']'' # CHR '':'' # p) CHR '']'' = Some (Suc (length h))"
      using assms(2) by (subst IndexByte_append) simp_all
    ultimately show ?thesis using True assms(1,2) p by (simp add: JoinHostPort_def SplitHostPort_def HasPrefix_iff)
  next
    case False
    have "LastIndexByte (h @ CHR '':'' # p) CHR '':'' = Some (length h)" using LastIndexByte_append [OF p(1)] .
    moreover have "\<not> HasPrefix (h @ CHR '':'' # p) ''[''" using assms(1) by (cases h) (auto simp: HasPrefix_iff)
    ultimately show ?thesis using False assms(1,2) p by (simp add: JoinHostPort_def SplitHostPort_def)
  qed
qed

end
