(* ===== verification/Handler.thy ===== *)
theory Handler
  imports Listener Tunnel Host_Text
begin

text \<open>
  \<^verbatim>\<open>internal/proxy/proxy.go\<close>: the handler that checks every request and forwards the approved ones.

  A handler is a function of the request, the response writer and the state of the proxy.  What the
  network does is an argument: the result of taking over the connection, of the dial, of the writes,
  and the \<^verbatim>\<open>RoundTrip\<close> of a transport.
\<close>

section \<open>Headers\<close>

text \<open>\<^verbatim>\<open>http.Header\<close>: canonical names with their values; \<^verbatim>\<open>textproto.CanonicalMIMEHeaderKey\<close>.\<close>

type_synonym header = "(string \<times> string list) list"

definition upper_char :: "char \<Rightarrow> char" where
  "upper_char c = (if between CHR ''a'' CHR ''z'' c then char_of (byte c - 32) else c)"

definition header_char :: "char \<Rightarrow> bool" where
  "header_char c \<longleftrightarrow> is_digit c \<or> between CHR ''a'' CHR ''z'' c \<or> between CHR ''A'' CHR ''Z'' c \<or> c \<in> set ''!#$%&*+-.^_`|~'' \<or> byte c = 39"

fun canonical_chars :: "bool \<Rightarrow> string \<Rightarrow> string" where
  "canonical_chars up [] = []"
| "canonical_chars up (c # cs) = (if up then upper_char c else lower_char c) # canonical_chars (c = CHR ''-'') cs"

definition CanonicalHeaderKey :: "string \<Rightarrow> string" where
  "CanonicalHeaderKey s = (if s \<noteq> [] \<and> list_all header_char s then canonical_chars True s else s)"

definition header_Values :: "header \<Rightarrow> string \<Rightarrow> string list" where
  "header_Values h k = (case map_of h (CanonicalHeaderKey k) of None \<Rightarrow> [] | Some vs \<Rightarrow> vs)"

definition header_Del :: "header \<Rightarrow> string \<Rightarrow> header" where
  "header_Del h k = filter (\<lambda>(j, _). j \<noteq> CanonicalHeaderKey k) h"

definition header_Set :: "header \<Rightarrow> string \<Rightarrow> string \<Rightarrow> header" where
  "header_Set h k v = AList.update (CanonicalHeaderKey k) [v] h"

text \<open>\<^verbatim>\<open>textproto.TrimString\<close>\<close>

definition ascii_space :: "char \<Rightarrow> bool" where
  "ascii_space c \<longleftrightarrow> byte c \<in> {32, 9, 10, 13}"

definition TrimString :: "string \<Rightarrow> string" where
  "TrimString s = rev (dropWhile ascii_space (rev (dropWhile ascii_space s)))"

definition hopByHop :: "string list" where
  "hopByHop = [''Connection'', ''Keep-Alive'', ''Proxy-Authenticate'', ''Proxy-Authorization'',
     ''Proxy-Connection'', ''Te'', ''Trailer'', ''Transfer-Encoding'', ''Upgrade'']"

text \<open>The names listed in the fields of a \<^verbatim>\<open>Connection\<close> header.\<close>

definition connection_names :: "string list \<Rightarrow> string list" where
  "connection_names fs = filter (\<lambda>n. n \<noteq> []) (map TrimString (concat (map (Split CHR '','') fs)))"

definition removeHopByHop :: "header \<Rightarrow> header" where
  "removeHopByHop h = foldl header_Del (foldl header_Del h (connection_names (header_Values h ''Connection''))) hopByHop"

section \<open>Requests and responses\<close>

record request =
  rq_Method :: string
  rq_Scheme :: string
  rq_URLHost :: string
  rq_Host :: string
  rq_RemoteAddr :: string
  rq_Header :: header
  rq_ProtoMajor :: nat
  rq_ProtoMinor :: nat
  rq_RequestURI :: string
  rq_Close :: bool

text \<open>\<^verbatim>\<open>url.URL\<close>: the host and the port of its \<^verbatim>\<open>Host\<close>.\<close>

definition valid_optional_port :: "string \<Rightarrow> bool" where
  "valid_optional_port s \<longleftrightarrow> (case s of [] \<Rightarrow> True | c # cs \<Rightarrow> c = CHR '':'' \<and> list_all is_digit cs)"

definition url_host_port :: "string \<Rightarrow> string \<times> string" where
  "url_host_port hp =
     (let (host, port) =
        (case LastIndexByte hp CHR '':'' of
           None \<Rightarrow> (hp, [])
         | Some i \<Rightarrow> if valid_optional_port (drop i hp) then (take i hp, drop (Suc i) hp) else (hp, []))
      in (if HasPrefix host ''['' \<and> HasSuffix host '']'' \<and> length host \<ge> 2 then butlast (tl host) else host, port))"

definition url_Hostname :: "request \<Rightarrow> string" where
  "url_Hostname r = fst (url_host_port (rq_URLHost r))"

definition url_Port :: "request \<Rightarrow> string" where
  "url_Port r = snd (url_host_port (rq_URLHost r))"

definition clientAddr :: "request \<Rightarrow> addr" where
  "clientAddr r = (case ParseAddrPort (rq_RemoteAddr r) of Inl _ \<Rightarrow> AddrZero | Inr (ip, _) \<Rightarrow> Unmap ip)"

definition outbound :: "request \<Rightarrow> request" where
  "outbound r = r\<lparr>rq_RequestURI := [], rq_Close := False, rq_Header := removeHopByHop (rq_Header r)\<rparr>"

record response =
  rs_StatusCode :: nat
  rs_Header :: header
  rs_ContentLength :: int
  rs_Trailer :: header

text \<open>
  The response writer: its header, the status sent with the header at that time, the body in the pieces
  it was written, and how many pieces were flushed.
\<close>

record writer =
  w_Header :: header
  w_status :: "(nat \<times> header) option"
  w_body :: "string list"
  w_flushed :: nat

text \<open>The first status other than an informational one is final.\<close>

definition WriteHeader :: "nat \<Rightarrow> writer \<Rightarrow> writer" where
  "WriteHeader code w =
     (if w_status w = None \<and> \<not> (100 \<le> code \<and> code \<le> 199 \<and> code \<noteq> 101) then w\<lparr>w_status := Some (code, w_Header w)\<rparr> else w)"

text \<open>\<^verbatim>\<open>http.Error\<close>\<close>

definition http_Error :: "string \<Rightarrow> nat \<Rightarrow> writer \<Rightarrow> writer" where
  "http_Error msg code w =
     (let h = header_Set (header_Set (header_Del (w_Header w) ''Content-Length'') ''Content-Type'' ''text/plain; charset=utf-8'')
                ''X-Content-Type-Options'' ''nosniff'';
          w1 = WriteHeader code (w\<lparr>w_Header := h\<rparr>)
      in w1\<lparr>w_body := w_body w1 @ [msg @ [CHR 0x0A]]\<rparr>)"

definition deny :: "writer \<Rightarrow> writer" where
  "deny w = http_Error ''Blocked by proxy ACL'' 403 (w\<lparr>w_Header := header_Set (w_Header w) ''Connection'' ''close''\<rparr>)"

section \<open>Checking\<close>

definition WithClient :: "ctx \<Rightarrow> addr \<Rightarrow> ctx" where
  "WithClient c client = c\<lparr>ctx_client := Some client\<rparr>"

definition reason_decision :: "reason \<Rightarrow> string \<Rightarrow> Decision" where
  "reason_decision reason subnet =
     \<lparr>d_Allow = False, d_Subnet = subnet, d_Rule = [], d_Reason = reason, d_Addrs = [], d_Port = 0\<rparr>"

text \<open>
  The arguments of a handler that do not change while it runs: the levels logged, the active
  configuration, the resolver and the context of the request.
\<close>

record ('lvl, 's) handler_env =
  he_enabled :: "log_level \<Rightarrow> bool"
  he_config :: "'lvl Config"
  he_resolver :: "'s resolver"
  he_ctx :: ctx

definition proxy_check ::
  "('lvl, 's) handler_env \<Rightarrow> request \<Rightarrow> string \<Rightarrow> string \<Rightarrow> time \<Rightarrow> writer \<Rightarrow> Proxy \<Rightarrow> 's \<Rightarrow> vetted option \<times> writer \<times> Proxy \<times> 's" where
  "proxy_check env r host port now w p st =
     (let client = clientAddr r;
          cfg = he_config env;
          subnet = SubnetOf (c_Policy cfg) client;
          lim = ClientLimits cfg subnet;
          name = (case subnet of None \<Rightarrow> [] | Some i \<Rightarrow> sn_name (p_subnets (c_Policy cfg) ! i));
          log = (\<lambda>p d. logDecision (he_enabled env) p (rq_Method r) client host port d now)
      in case Allow (px_clients p) client lim now of (ok, t) \<Rightarrow>
           let p1 = p\<lparr>px_clients := t\<rparr> in
           if \<not> ok then
             (None, http_Error ''Too many requests'' 429 (w\<lparr>w_Header := header_Set (w_Header w) ''Retry-After'' ''1''\<rparr>),
              log p1 (reason_decision (Reason ''rate limited'') name), st)
           else
             (case subnet of
                None \<Rightarrow> (None, deny w, log p1 (reason_decision (Reason ''client not in any subnet'') []), st)
              | Some i \<Rightarrow>
                  (case Subnet_Check (p_subnets (c_Policy cfg) ! i) (WithClient (he_ctx env) client) (he_resolver env) host port st of
                     (d, st1) \<Rightarrow>
                       let p2 = log p1 d in
                       if \<not> d_Allow d then (None, deny w, p2, st1)
                       else (Some \<lparr>v_host = host, v_port = d_Port d, v_addrs = d_Addrs d, v_idle = TunnelIdleTimeout lim\<rparr>, w, p2, st1))))"

section \<open>Tunnels\<close>

definition crlf :: string where "crlf = [CHR 0x0D, CHR 0x0A]"

definition badGatewayConnect :: string where
  "badGatewayConnect = ''HTTP/1.1 502 Bad Gateway'' @ crlf @ ''Content-Length: 0'' @ crlf @ ''Connection: close'' @ crlf @ crlf"

text \<open>What was done to the two connections of a tunnel, and whether the copying was started, with the idle timeout.\<close>

record tunnel_io =
  ti_toClient :: "string list"
  ti_toUpstream :: "string list"
  ti_clientClosed :: bool
  ti_upstreamClosed :: bool
  ti_copying :: "duration option"

definition tunnel_io_none :: tunnel_io where
  "tunnel_io_none = \<lparr>ti_toClient = [], ti_toUpstream = [], ti_clientClosed = False, ti_upstreamClosed = False, ti_copying = None\<rparr>"

text \<open>The address a tunnel dials.\<close>

definition tunnel_addr :: "vetted \<Rightarrow> string" where
  "tunnel_addr v = JoinHostPort (v_host v) (itoa (unat (v_port v)))"

text \<open>
  \<^verbatim>\<open>Proxy.tunnel\<close>: the result of the dial, and the errors of writing the answer to the client and
  the early bytes to the upstream server.
\<close>

definition proxy_tunnel ::
  "('lvl, 's) handler_env \<Rightarrow> request \<Rightarrow> string \<Rightarrow> vetted \<Rightarrow> 'c result \<Rightarrow> error option \<Rightarrow> error option \<Rightarrow> time \<Rightarrow> Proxy \<Rightarrow> tunnel_io \<times> Proxy" where
  "proxy_tunnel env r early v dialed err200 errEarly now p =
     (case dialed of
        Inl err \<Rightarrow>
          (tunnel_io_none\<lparr>ti_toClient := [badGatewayConnect], ti_clientClosed := True\<rparr>,
           logUpstreamError (he_enabled env) p (rq_Method r) (clientAddr r) (v_host v) err now)
      | Inr _ \<Rightarrow>
          (let (major, minor) = (if rq_ProtoMajor r = 0 then (1, 1) else (rq_ProtoMajor r, rq_ProtoMinor r));
               io1 = tunnel_io_none\<lparr>ti_toClient := [''HTTP/'' @ itoa major @ ''.'' @ itoa minor @ '' 200 Connection established'' @ crlf @ crlf]\<rparr>;
               write = (err200 = None \<and> early \<noteq> []);
               err = (if write then errEarly else err200);
               io2 = (if write then io1\<lparr>ti_toUpstream := [early]\<rparr> else io1)
           in (if err \<noteq> None then io2\<lparr>ti_clientClosed := True, ti_upstreamClosed := True\<rparr>
               else io2\<lparr>ti_copying := Some (v_idle v)\<rparr>, p)))"

text \<open>
  The end of the goroutine that copies: given what \<^verbatim>\<open>tunnelCopy\<close> returned and the time the tunnel took, the
  line that is logged (the duration in nanoseconds); the client connection is closed, which frees its slot.
\<close>

definition tunnel_closed ::
  "('lvl, 's) handler_env \<Rightarrow> request \<Rightarrow> vetted \<Rightarrow> int \<times> int \<times> error option \<Rightarrow> duration \<Rightarrow> tunnel_io \<Rightarrow> Proxy \<Rightarrow> tunnel_io \<times> Proxy" where
  "tunnel_closed env r v copied took io p =
     (case copied of (sent, received, err) \<Rightarrow>
        (io\<lparr>ti_clientClosed := True, ti_upstreamClosed := True\<rparr>,
         emit (he_enabled env) Debug
           ((case err of None \<Rightarrow> [] | Some e \<Rightarrow> [(''error'', LErr e)]) @
            [(''client'', LStr (addr_String (clientAddr r))), (''host'', LStr (v_host v)), (''port'', LInt (uint (v_port v))),
             (''sent'', LInt sent), (''received'', LInt received), (''duration'', LInt took)])
           ''tunnel closed'' p))"

text \<open>
  \<^verbatim>\<open>hijack\<close>: whether the writer can be taken over, the result of doing so with the number of bytes that are
  buffered, and the result of reading them.  The result says also whether the connection was closed.
\<close>

definition hijack :: "bool \<Rightarrow> nat result \<Rightarrow> string result \<Rightarrow> string result \<times> bool" where
  "hijack supported hijacked buffered =
     (if \<not> supported then (Inl (ErrNew ''connection does not support hijacking''), False)
      else
        (case hijacked of
           Inl err \<Rightarrow> (Inl err, False)
         | Inr n \<Rightarrow>
             if n > 0 then (case buffered of Inl err \<Rightarrow> (Inl err, True) | Inr early \<Rightarrow> (Inr early, False))
             else (Inr [], False)))"

text \<open>What becomes of a request, beside the answer that was written.\<close>

datatype outcome =
    Refused
  | HijackFailed bool
  | Tunnelled vetted tunnel_io
  | Forwarded vetted
  | NotProxy

text \<open>
  What the network does while a request is handled: whether and how the connection is taken over, the
  bytes that were buffered, the dial of a vetted destination, the errors of the two first writes of a
  tunnel, the \<^verbatim>\<open>RoundTrip\<close> of a transport, the order in which the pools are visited, and the pieces of
  the body that arrive with the error that ended it.
\<close>

record 'c network =
  nw_Hijacker :: bool
  nw_Hijack :: "nat result"
  nw_buffered :: "string result"
  nw_dial :: "vetted \<Rightarrow> string \<Rightarrow> 'c result"
  nw_err200 :: "error option"
  nw_errEarly :: "error option"
  nw_RoundTrip :: "upstreamTransport \<Rightarrow> request \<Rightarrow> response result"
  nw_order :: "(string \<times> upstreamPool) list"
  nw_body :: "string list"
  nw_bodyErr :: "error option"

definition serveConnect ::
  "('lvl, 's) handler_env \<Rightarrow> 'c network \<Rightarrow> request \<Rightarrow> time \<Rightarrow> writer \<Rightarrow> Proxy \<Rightarrow> 's \<Rightarrow> outcome \<times> writer \<times> Proxy \<times> 's" where
  "serveConnect env net r now w p st =
     (let (host, port) = (case SplitHostPort (rq_URLHost r) of Inl _ \<Rightarrow> (rq_URLHost r, []) | Inr hp \<Rightarrow> hp)
      in case proxy_check env r host port now w p st of
           (None, w1, p1, st1) \<Rightarrow> (Refused, w1, p1, st1)
         | (Some v, w1, p1, st1) \<Rightarrow>
             (case hijack (nw_Hijacker net) (nw_Hijack net) (nw_buffered net) of
                (Inl err, shut) \<Rightarrow>
                  (HijackFailed shut, w1,
                   emit (he_enabled env) Debug [(''error'', LErr err)] ''cannot hijack the client connection for a tunnel'' p1, st1)
              | (Inr early, _) \<Rightarrow>
                  (case proxy_tunnel env r early v (nw_dial net v (tunnel_addr v)) (nw_err200 net) (nw_errEarly net) now p1 of
                     (io, p2) \<Rightarrow> (Tunnelled v io, w1, p2, st1))))"

section \<open>Plain requests\<close>

definition badGateway :: "('lvl, 's) handler_env \<Rightarrow> request \<Rightarrow> string \<Rightarrow> error \<Rightarrow> time \<Rightarrow> writer \<Rightarrow> Proxy \<Rightarrow> writer \<times> Proxy" where
  "badGateway env r host err now w p =
     (http_Error ''Bad gateway'' 502 w, logUpstreamError (he_enabled env) p (rq_Method r) (clientAddr r) host err now)"

definition errUpgradeNotSupported :: error where
  "errUpgradeNotSupported = ErrNew ''upstream answered 101 to a request with no Upgrade header''"

text \<open>\<^verbatim>\<open>maps.Copy(dst, src)\<close>\<close>

definition maps_Copy :: "header \<Rightarrow> header \<Rightarrow> header" where
  "maps_Copy dst src = foldl (\<lambda>h (k, vs). AList.update k vs h) dst src"

text \<open>Writing the pieces of a body: those of a stream are flushed one by one.\<close>

definition write_body :: "response \<Rightarrow> string list \<Rightarrow> writer \<Rightarrow> writer" where
  "write_body resp chunks w =
     (let w1 = w\<lparr>w_body := w_body w @ chunks\<rparr>
      in if rs_ContentLength resp \<ge> 0 then w1 else w1\<lparr>w_flushed := w_flushed w + length chunks\<rparr>)"

definition TrailerPrefix :: string where "TrailerPrefix = ''Trailer:''"

text \<open>Forwarding a response, with the pieces of the body that arrived and the error that ended it.\<close>

definition forward_response ::
  "('lvl, 's) handler_env \<Rightarrow> string \<Rightarrow> response \<Rightarrow> string list \<Rightarrow> error option \<Rightarrow> writer \<Rightarrow> Proxy \<Rightarrow> writer \<times> Proxy" where
  "forward_response env host resp chunks err w p =
     (let w1 = WriteHeader (rs_StatusCode resp) (w\<lparr>w_Header := maps_Copy (w_Header w) (removeHopByHop (rs_Header resp))\<rparr>);
          w2 = write_body resp chunks w1;
          p1 = (case err of
                  None \<Rightarrow> p
                | Some e \<Rightarrow> emit (he_enabled env) Debug [(''error'', LErr e), (''host'', LStr host)] ''response body truncated'' p)
      in (w2\<lparr>w_Header := maps_Copy (w_Header w2) (map (\<lambda>(k, vs). (TrailerPrefix @ k, vs)) (rs_Trailer resp))\<rparr>, p1))"

definition serveRequest ::
  "('lvl, 's) handler_env \<Rightarrow> 'c network \<Rightarrow> request \<Rightarrow> time \<Rightarrow> writer \<Rightarrow> Proxy \<Rightarrow> 's \<Rightarrow> outcome \<times> writer \<times> Proxy \<times> 's" where
  "serveRequest env net r now w p st =
     (let host = url_Hostname r; port0 = url_Port r in
      if rq_Scheme r \<noteq> ''http'' \<and> rq_Scheme r \<noteq> ''https'' then
        (Refused, deny w,
         logDecision (he_enabled env) p (rq_Method r) (clientAddr r) host port0
           (reason_decision (ReasonErr ''unsupported scheme '' (ErrFmt ''%q'' [clip (rq_Scheme r) 16])) []) now, st)
      else
        (let port = (if port0 = [] then (if rq_Scheme r = ''http'' then ''80'' else ''443'') else port0) in
         case proxy_check env r host port now w p st of
           (None, w1, p1, st1) \<Rightarrow> (Refused, w1, p1, st1)
         | (Some v, w1, p1, st1) \<Rightarrow>
             (case roundTrip (\<lambda>tr. nw_RoundTrip net tr (outbound r)) (px_upstream p1) (rq_Scheme r) (Some v) now (nw_order net) of
                (Inl e, u) \<Rightarrow>
                  (case badGateway env r host e now w1 (p1\<lparr>px_upstream := u\<rparr>) of (w2, p2) \<Rightarrow> (Forwarded v, w2, p2, st1))
              | (Inr resp, u) \<Rightarrow>
                  if rs_StatusCode resp = 101
                  then (case badGateway env r host errUpgradeNotSupported now w1 (p1\<lparr>px_upstream := u\<rparr>) of (w2, p2) \<Rightarrow> (Forwarded v, w2, p2, st1))
                  else
                    (case forward_response env host resp (nw_body net) (nw_bodyErr net) w1 (p1\<lparr>px_upstream := u\<rparr>) of
                       (w2, p2) \<Rightarrow> (Forwarded v, w2, p2, st1)))))"

text \<open>A request that is neither a tunnel nor has an absolute URL.\<close>

definition serveOther :: "('lvl, 's) handler_env \<Rightarrow> request \<Rightarrow> time \<Rightarrow> writer \<Rightarrow> Proxy \<Rightarrow> writer \<times> Proxy" where
  "serveOther env r now w p =
     (http_Error ''This is a forward proxy; requests must use an absolute URL.'' 400 w,
      logDecision (he_enabled env) p (rq_Method r) (clientAddr r) (rq_Host r) [] (reason_decision (Reason ''not a proxy request'') []) now)"

definition ServeHTTP ::
  "('lvl, 's) handler_env \<Rightarrow> 'c network \<Rightarrow> request \<Rightarrow> time \<Rightarrow> writer \<Rightarrow> Proxy \<Rightarrow> 's \<Rightarrow> outcome \<times> writer \<times> Proxy \<times> 's" where
  "ServeHTTP env net r now w p st =
     (if rq_Method r = ''CONNECT'' then serveConnect env net r now w p st
      else if rq_Scheme r \<noteq> [] then serveRequest env net r now w p st
      else (case serveOther env r now w p of (w1, p1) \<Rightarrow> (NotProxy, w1, p1, st)))"

text \<open>One tick of \<^verbatim>\<open>maintain\<close>.\<close>

definition maintain_tick :: "('lvl, 's) handler_env \<Rightarrow> time \<Rightarrow> Proxy \<Rightarrow> Proxy" where
  "maintain_tick env now p =
     (let p1 = proxy_sweep (he_enabled env) (he_config env) p now in p1\<lparr>px_upstream := upstream_sweep now (px_upstream p1)\<rparr>)"

text \<open>The loop of \<^verbatim>\<open>maintain\<close>: the ticks of its timer until the context is done, with the configuration active at each.\<close>

fun maintain :: "(('lvl, 's) handler_env \<times> time) list \<Rightarrow> Proxy \<Rightarrow> Proxy" where
  "maintain [] p = p"
| "maintain ((env, now) # ticks) p = maintain ticks (maintain_tick env now p)"

text \<open>What \<^verbatim>\<open>Serve\<close> returns for the error the server ends with, and the writer for the messages of the server.\<close>

definition http_ErrServerClosed :: error where "http_ErrServerClosed = ErrNew ''http: Server closed''"

definition Serve_result :: "error \<Rightarrow> error option" where
  "Serve_result err = (if errors_Is err http_ErrServerClosed then None else Some err)"

definition serverLog_Write :: "(log_level \<Rightarrow> bool) \<Rightarrow> string \<Rightarrow> Proxy \<Rightarrow> nat \<times> Proxy" where
  "serverLog_Write enabled b p = (length b, emit enabled Debug [(''component'', LStr ''http'')] (TrimSpace b) p)"

definition proxy_New :: Proxy where
  "proxy_New = \<lparr>px_clients = NewTracker, px_upstream = newUpstreamPools, px_log = []\<rparr>"

section \<open>Headers that are removed\<close>

lemma foldl_Del: "foldl header_Del h ks = filter (\<lambda>(j, _). j \<notin> CanonicalHeaderKey ` set ks) h"
proof (induction ks arbitrary: h)
  case (Cons k ks)
  then show ?case by (simp add: header_Del_def filter_filter) (rule filter_cong, auto)
qed (simp add: case_prod_unfold)

lemma canonical_hopByHop: "CanonicalHeaderKey ` set hopByHop = set hopByHop"
  by (simp add: hopByHop_def CanonicalHeaderKey_def header_char_def is_digit_def between_def upper_char_def lower_char_def)

lemma removeHopByHop_filter:
  "removeHopByHop h = filter (\<lambda>(k, _). k \<notin> set hopByHop \<and>
     k \<notin> CanonicalHeaderKey ` set (connection_names (header_Values h ''Connection''))) h"
  by (simp add: removeHopByHop_def foldl_Del canonical_hopByHop filter_filter) (rule filter_cong, auto)

lemma maps_Copy_new: "distinct (map fst (dst @ src)) \<Longrightarrow> maps_Copy dst src = dst @ src"
  unfolding maps_Copy_def by (induction src arbitrary: dst) (auto simp: update_new map_of_eq_None_iff)

lemma maps_Copy_get: "distinct (map fst src) \<Longrightarrow> map_of (maps_Copy dst src) = map_of dst ++ map_of src"
  unfolding maps_Copy_def
  by (induction src arbitrary: dst) (auto simp: update_conv' map_add_upd_left dom_map_of_conv_image_fst)

lemma maps_Copy_trailer:
  "distinct (map fst tr) \<Longrightarrow> map_of tr k = Some vs \<Longrightarrow> map_of (maps_Copy h (map (\<lambda>(k, vs). (pre @ k, vs)) tr)) (pre @ k) = Some vs"
proof -
  assume d: "distinct (map fst tr)" and k: "map_of tr k = Some vs"
  have "map fst (map (\<lambda>(k, vs). (pre @ k, vs)) tr) = map ((@) pre) (map fst tr)" by (simp add: case_prod_unfold)
  then have "distinct (map fst (map (\<lambda>(k, vs). (pre @ k, vs)) tr))" using d by (simp only: distinct_map) (simp add: inj_on_def)
  moreover have "map_of (map (\<lambda>(k, vs). (pre @ k, vs)) tr) (pre @ k) = map_of tr k" by (induction tr) auto
  ultimately show ?thesis using k by (simp add: maps_Copy_get)
qed

lemma lower_char_upper:
  assumes "between CHR ''A'' CHR ''Z'' c"
  shows "byte (lower_char c) = byte c + 32" "upper_char (lower_char c) = c" "upper_char c = c" "between CHR ''a'' CHR ''z'' (lower_char c)"
    "\<not> between CHR ''A'' CHR ''Z'' (lower_char c)"
proof -
  show b: "byte (lower_char c) = byte c + 32" using assms by (simp add: byte_lower_char)
  show z: "between CHR ''a'' CHR ''z'' (lower_char c)" "\<not> between CHR ''A'' CHR ''Z'' (lower_char c)"
    using assms b by (simp_all add: between_def)
  show "upper_char (lower_char c) = c" using z b by (simp add: upper_char_def)
  show "upper_char c = c" using assms by (simp add: upper_char_def between_def)
qed

lemma upper_lower [simp]: "upper_char (lower_char c) = upper_char c"
  by (cases "between CHR ''A'' CHR ''Z'' c") (simp_all add: lower_char_upper, simp add: lower_char_def)

lemma lower_eq_hyphen [simp]: "lower_char c = CHR ''-'' \<longleftrightarrow> c = CHR ''-''"
proof (cases "between CHR ''A'' CHR ''Z'' c")
  case True
  then show ?thesis using lower_char_upper(4) [OF True] by (auto simp: between_def)
qed (simp add: lower_char_def)

lemma canonical_chars_lower: "canonical_chars up (map lower_char s) = canonical_chars up s"
  by (induction s arbitrary: up) auto

lemma header_char_lower: "header_char (lower_char c) = header_char c"
proof (cases "between CHR ''A'' CHR ''Z'' c")
  case True
  then show ?thesis using lower_char_upper(4) [OF True] by (simp add: header_char_def)
qed (simp add: lower_char_def)

lemma CanonicalHeaderKey_case: "list_all header_char s \<Longrightarrow> CanonicalHeaderKey (map lower_char s) = CanonicalHeaderKey s"
  by (simp add: CanonicalHeaderKey_def list_all_iff header_char_lower canonical_chars_lower)

lemma CanonicalHeaderKey_not_token: "\<not> list_all header_char s \<Longrightarrow> CanonicalHeaderKey (map lower_char s) = map lower_char s"
  by (auto simp: CanonicalHeaderKey_def list_all_iff header_char_lower)

text \<open>A name that a field of a \<^verbatim>\<open>Connection\<close> header lists: what stands between two commas or the ends, less the white space around it.\<close>

definition lists_name :: "string \<Rightarrow> string \<Rightarrow> bool" where
  "lists_name field name \<longleftrightarrow>
     (\<exists>before left right after. field = before @ left @ name @ right @ after \<and>
        (before = [] \<or> last before = CHR '','') \<and> (after = [] \<or> hd after = CHR '','') \<and> CHR '','' \<notin> set (left @ name @ right) \<and>
        set (left @ right) \<subseteq> {c. byte c \<in> {32, 9, 10, 13}} \<and>
        name \<noteq> [] \<and> byte (hd name) \<notin> {32, 9, 10, 13} \<and> byte (last name) \<notin> {32, 9, 10, 13})"

text \<open>The headers that apply to one connection only: nine fixed ones, and those that the \<^verbatim>\<open>Connection\<close> header lists, in any case.\<close>

definition of_connection :: "header \<Rightarrow> string \<Rightarrow> bool" where
  "of_connection h k \<longleftrightarrow>
     k \<in> {''Connection'', ''Keep-Alive'', ''Proxy-Authenticate'', ''Proxy-Authorization'', ''Proxy-Connection'', ''Te'', ''Trailer'',
           ''Transfer-Encoding'', ''Upgrade''} \<or>
     (\<exists>vs field name. map_of h ''Connection'' = Some vs \<and> field \<in> set vs \<and> lists_name field name \<and> map lower_char name = map lower_char k)"

text \<open>The keys of a header that \<^verbatim>\<open>net/http\<close> has read.\<close>

definition canonical_keys :: "header \<Rightarrow> bool" where
  "canonical_keys h \<longleftrightarrow> (\<forall>(k, _) \<in> set h. list_all header_char k \<and> CanonicalHeaderKey k = k)"

lemma Join_piece: "x \<in> set ls \<Longrightarrow> \<exists>a b. Join [c] ls = a @ x @ b \<and> (a = [] \<or> last a = c) \<and> (b = [] \<or> hd b = c)"
proof (induction "[c]" ls rule: Join.induct)
  case (3 y z zs)
  show ?case
  proof (cases "x = y")
    case True
    then show ?thesis by (intro exI [of _ "[]"] exI [of _ "c # Join [c] (z # zs)"]) simp
  next
    case False
    then obtain a b where "Join [c] (z # zs) = a @ x @ b" "a = [] \<or> last a = c" "b = [] \<or> hd b = c" using 3 by auto
    then show ?thesis by (intro exI [of _ "y @ c # a"] exI [of _ b]) auto
  qed
next
  case (2 y)
  then show ?case by (intro exI [of _ "[]"]) simp
qed simp

lemma Split_piece: "x \<in> set (Split c s) \<longleftrightarrow> c \<notin> set x \<and> (\<exists>a b. s = a @ x @ b \<and> (a = [] \<or> last a = c) \<and> (b = [] \<or> hd b = c))"
proof
  assume x: "x \<in> set (Split c s)"
  then show "c \<notin> set x \<and> (\<exists>a b. s = a @ x @ b \<and> (a = [] \<or> last a = c) \<and> (b = [] \<or> hd b = c))"
    using Join_piece [OF x, of c] Split_no_sep [OF x] by (simp add: Join_Split)
next
  assume "c \<notin> set x \<and> (\<exists>a b. s = a @ x @ b \<and> (a = [] \<or> last a = c) \<and> (b = [] \<or> hd b = c))"
  then obtain a b where s: "c \<notin> set x" "s = a @ x @ b" "a = [] \<or> last a = c" "b = [] \<or> hd b = c" by blast
  have tail: "x \<in> set (Split c (x @ b))" using s(1,4) by (cases b) auto
  show "x \<in> set (Split c s)"
  proof (cases "a = []")
    case False
    then obtain a' where "a = a' @ [c]" using s(3) by (metis append_butlast_last_id)
    then show ?thesis using s(2) tail by simp
  qed (use s(2) tail in simp)
qed

lemma TrimString_eq:
  assumes "n \<noteq> []"
  shows "TrimString s = n \<longleftrightarrow> (\<exists>l r. s = l @ n @ r \<and> set (l @ r) \<subseteq> {c. ascii_space c} \<and> \<not> ascii_space (hd n) \<and> \<not> ascii_space (last n))"
proof
  assume t: "TrimString s = n"
  let ?d = "dropWhile ascii_space s"
  have s: "s = takeWhile ascii_space s @ ?d" by simp
  have d: "?d = n @ rev (takeWhile ascii_space (rev ?d))"
    using t unfolding TrimString_def by (metis rev_append rev_rev_ident takeWhile_dropWhile_id)
  have "\<not> ascii_space (hd ?d)" using d assms hd_dropWhile [of ascii_space s] by (metis append_is_Nil_conv)
  moreover have "hd ?d = hd n" using d assms by (metis hd_append)
  moreover have "\<not> ascii_space (last n)"
    using t assms hd_dropWhile [of ascii_space "rev ?d"] unfolding TrimString_def by (auto simp: last_rev)
  moreover have "set (takeWhile ascii_space s @ rev (takeWhile ascii_space (rev ?d))) \<subseteq> {c. ascii_space c}"
    by (auto dest: set_takeWhileD)
  ultimately show "\<exists>l r. s = l @ n @ r \<and> set (l @ r) \<subseteq> {c. ascii_space c} \<and> \<not> ascii_space (hd n) \<and> \<not> ascii_space (last n)"
    using s d by metis
next
  assume "\<exists>l r. s = l @ n @ r \<and> set (l @ r) \<subseteq> {c. ascii_space c} \<and> \<not> ascii_space (hd n) \<and> \<not> ascii_space (last n)"
  then obtain l r where s: "s = l @ n @ r" "\<forall>c \<in> set l. ascii_space c" "\<forall>c \<in> set (rev r). ascii_space c" "\<not> ascii_space (hd n)" "\<not> ascii_space (last n)"
    by auto
  have n: "dropWhile ascii_space (n @ r) = n @ r" using assms s(4) by (cases n) auto
  have "dropWhile ascii_space (rev n) = rev n" using assms s(5) by (cases n rule: rev_cases) auto
  moreover have "dropWhile ascii_space (rev r @ rev n) = dropWhile ascii_space (rev n)" using s(3) by (intro dropWhile_append2) blast
  moreover have "dropWhile ascii_space s = dropWhile ascii_space (n @ r)" using s(1,2) by (simp add: dropWhile_append2)
  ultimately show "TrimString s = n" using n by (simp add: TrimString_def)
qed

lemma lists_name_Split: "lists_name field name \<longleftrightarrow> name \<noteq> [] \<and> (\<exists>x \<in> set (Split CHR '','' field). TrimString x = name)"
proof
  assume "lists_name field name"
  then obtain a l r b where f: "field = a @ (l @ name @ r) @ b" "a = [] \<or> last a = CHR '',''" "b = [] \<or> hd b = CHR '',''"
      "CHR '','' \<notin> set (l @ name @ r)" "set (l @ r) \<subseteq> {c. byte c \<in> {32, 9, 10, 13}}"
      "name \<noteq> []" "byte (hd name) \<notin> {32, 9, 10, 13}" "byte (last name) \<notin> {32, 9, 10, 13}"
    unfolding lists_name_def append_assoc by blast
  have "l @ name @ r \<in> set (Split CHR '','' field)" unfolding Split_piece using f(1-4) by blast
  moreover have "TrimString (l @ name @ r) = name" unfolding TrimString_eq [OF f(6)] ascii_space_def using f(5,7,8) by blast
  ultimately show "name \<noteq> [] \<and> (\<exists>x \<in> set (Split CHR '','' field). TrimString x = name)" using f(6) by blast
next
  assume "name \<noteq> [] \<and> (\<exists>x \<in> set (Split CHR '','' field). TrimString x = name)"
  then obtain x where x: "name \<noteq> []" "x \<in> set (Split CHR '','' field)" "TrimString x = name" by blast
  from x(2) obtain a b where ab: "field = a @ x @ b" "CHR '','' \<notin> set x" "a = [] \<or> last a = CHR '',''" "b = [] \<or> hd b = CHR '',''"
    unfolding Split_piece by blast
  from x(3) obtain l r where "x = l @ name @ r" "set (l @ r) \<subseteq> {c. ascii_space c}" "\<not> ascii_space (hd name)" "\<not> ascii_space (last name)"
    unfolding TrimString_eq [OF x(1)] by blast
  then show "lists_name field name" using ab x(1) unfolding lists_name_def ascii_space_def
    by (intro exI [of _ a] exI [of _ l] exI [of _ r] exI [of _ b]) simp
qed

lemma connection_names_lists: "name \<in> set (connection_names fs) \<longleftrightarrow> (\<exists>field \<in> set fs. lists_name field name)"
  by (auto simp: connection_names_def lists_name_Split)

lemma lower_upper [simp]: "lower_char (upper_char c) = lower_char c"
proof (cases "between CHR ''a'' CHR ''z'' c")
  case True
  then have "byte (upper_char c) = byte c - 32" by (auto simp: upper_char_def between_def intro!: mod_less)
  then have "byte (lower_char (upper_char c)) = byte (lower_char c)" using True by (auto simp: byte_lower_char between_def)
  then show ?thesis by simp
qed (simp add: upper_char_def)

lemma lower_canonical_chars: "map lower_char (canonical_chars up s) = map lower_char s"
  by (induction s arbitrary: up) simp_all

lemma lower_CanonicalHeaderKey: "map lower_char (CanonicalHeaderKey s) = map lower_char s"
  by (simp add: CanonicalHeaderKey_def lower_canonical_chars)

text \<open>Two names have the same key exactly when they are the same but for their case.\<close>

lemma CanonicalHeaderKey_same:
  assumes "list_all header_char k" "CanonicalHeaderKey k = k"
  shows "CanonicalHeaderKey name = k \<longleftrightarrow> map lower_char name = map lower_char k"
proof
  assume l: "map lower_char name = map lower_char k"
  have "list_all header_char (map lower_char k)" using assms(1) by (simp add: list_all_iff header_char_lower)
  then have n: "list_all header_char name" unfolding l [symmetric] by (simp add: list_all_iff header_char_lower)
  have "CanonicalHeaderKey name = CanonicalHeaderKey (map lower_char name)" using CanonicalHeaderKey_case [OF n] by simp
  also have "\<dots> = k" using CanonicalHeaderKey_case [OF assms(1)] assms(2) l by simp
  finally show "CanonicalHeaderKey name = k" .
qed (use lower_CanonicalHeaderKey in metis)

lemma removeHopByHop_spec:
  assumes "canonical_keys h"
  shows "removeHopByHop h = filter (\<lambda>(k, _). \<not> of_connection h k) h"
proof -
  have conn: "CanonicalHeaderKey ''Connection'' = ''Connection''"
    by (simp add: CanonicalHeaderKey_def header_char_def is_digit_def between_def upper_char_def lower_char_def)
  have "(k \<notin> set hopByHop \<and> k \<notin> CanonicalHeaderKey ` set (connection_names (header_Values h ''Connection''))) = (\<not> of_connection h k)"
    if "(k, vs) \<in> set h" for k vs
  proof -
    have k: "list_all header_char k" "CanonicalHeaderKey k = k" using assms that by (auto simp: canonical_keys_def)
    have "k \<in> CanonicalHeaderKey ` set (connection_names fs) \<longleftrightarrow> (\<exists>field name. field \<in> set fs \<and> lists_name field name \<and> map lower_char name = map lower_char k)" for fs
    proof -
      have "k \<in> CanonicalHeaderKey ` set (connection_names fs) \<longleftrightarrow> (\<exists>name. name \<in> set (connection_names fs) \<and> CanonicalHeaderKey name = k)" by auto
      then show ?thesis unfolding connection_names_lists CanonicalHeaderKey_same [OF k] by blast
    qed
    then show ?thesis by (cases "map_of h ''Connection''") (auto simp: of_connection_def header_Values_def conn hopByHop_def connection_names_def)
  qed
  then show ?thesis unfolding removeHopByHop_filter by (intro filter_cong) auto
qed

section \<open>What a check returns\<close>

text \<open>The policy allows the request of this client for exactly this destination.\<close>

definition approved :: "SubnetSpec list \<Rightarrow> ('lvl, 's) handler_env \<Rightarrow> request \<Rightarrow> 's \<Rightarrow> vetted \<Rightarrow> bool" where
  "approved specs env r st v \<longleftrightarrow>
     (\<exists>i d st'. SubnetOf (c_Policy (he_config env)) (clientAddr r) = Some i \<and>
        Policy_Check (c_Policy (he_config env)) (WithClient (he_ctx env) (clientAddr r)) (he_resolver env) (clientAddr r)
          (v_host v) (itoa (unat (v_port v))) st = (d, st') \<and>
        d_Allow d \<and> v_port v = d_Port d \<and> v_addrs v = d_Addrs d \<and> (\<forall>a \<in> set (v_addrs v). spec_addr_ok (specs ! i) a))"

lemma log_upstream [simp]:
  "px_upstream (emit enabled lvl flds msg p) = px_upstream p"
  "px_upstream (logDecision enabled p m client host port d now) = px_upstream p"
  "px_upstream (logUpstreamError enabled p m client host err now) = px_upstream p"
  by (auto simp: emit_def logDecision_def logUpstreamError_def sample_def Let_def split: prod.splits if_splits)

text \<open>An allowed decision makes a vetted destination, whoever asked for it.\<close>

lemma Subnet_Check_vetted:
  assumes "Policy_New re specs = Inr (c_Policy (he_config env))" "SubnetOf (c_Policy (he_config env)) (clientAddr r) = Some i"
    and "Subnet_Check (p_subnets (c_Policy (he_config env)) ! i) (WithClient (he_ctx env) (clientAddr r)) (he_resolver env) host port st = (d, st')"
    and "d_Allow d" "v = \<lparr>v_host = host, v_port = d_Port d, v_addrs = d_Addrs d, v_idle = idle\<rparr>"
  shows "approved specs env r st v" "vetted_wf v" "port = itoa (unat (v_port v))" "vetted_ok v (tunnel_addr v)"
    "\<exists>dst. parseHost host = Inr dst \<and> dest_addrs (WithClient (he_ctx env) (clientAddr r)) (he_resolver env) dst st = (Inr (v_addrs v), st')"
proof -
  let ?pol = "c_Policy (he_config env)" and ?c = "WithClient (he_ctx env) (clientAddr r)"
  define s where "s = p_subnets ?pol ! i"
  have s: "compileSubnet re ((specs ! i)\<lparr>ss_Name := default_name i (ss_Name (specs ! i))\<rparr>) = Inr s"
      "\<And>q. Policy_Check ?pol ?c (he_resolver env) (clientAddr r) host q st = Subnet_Check s ?c (he_resolver env) host q st"
    using Policy_New_subnet [OF assms(1) SubnetOf_bound [OF assms(2)]] assms(2) by (simp_all add: s_def Policy_Check_def)
  note d = assms(3) [folded s_def] assms(4,5)
  from Subnet_Check_allowed [OF s(1) d(1,2)] obtain dst where dst:
    "parseHost host = Inr dst" "parsePort port = Inr (d_Port d)" "dest_addrs ?c (he_resolver env) dst st = (Inr (d_Addrs d), st')"
    "\<forall>a \<in> set (d_Addrs d). spec_addr_ok (specs ! i) a" by (metis spec_name_irrelevant(2))
  have port: "port = itoa (unat (d_Port d))" using dst(2) by (simp add: parsePort_iff)
  have use: "d_Addrs d \<noteq> []" "\<forall>a \<in> set (d_Addrs d). IsValid a \<and> Zone a = [] \<and> \<not> Is4In6 a"
    using dest_addrs_usable [OF dst(1,3)] by simp_all
  show "port = itoa (unat (v_port v))" using d(3) port by simp
  show "\<exists>dst. parseHost host = Inr dst \<and> dest_addrs ?c (he_resolver env) dst st = (Inr (v_addrs v), st')" using dst(1,3) d(3) by simp
  have pc: "Policy_Check ?pol ?c (he_resolver env) (clientAddr r) host (itoa (unat (d_Port d))) st = (d, st')"
    using s(2) d(1) port by simp
  show "approved specs env r st v"
    unfolding approved_def by (intro exI [of _ i] exI [of _ d] exI [of _ st']) (simp add: assms(2) pc d(2,3) dst(4))
  show "vetted_wf v" using parseHost_chars(1) [OF dst(1)] use d(3) by (simp add: vetted_wf_def list_all_iff plain_addr_def)
  show "vetted_ok v (tunnel_addr v)"
    using Split_JoinHostPort [OF parseHost_chars(2,3) [OF dst(1)], of "itoa (unat (v_port v))"] use d(3) itoa_digits
    by (simp add: vetted_ok_def tunnel_addr_def)
qed

lemma proxy_check_vetted:
  assumes "Policy_New re specs = Inr (c_Policy (he_config env))" "proxy_check env r host port now w p st = (Some v, w', p', st')"
  shows "approved specs env r st v" "vetted_wf v" "v_host v = host" "port = itoa (unat (v_port v))" "vetted_ok v (tunnel_addr v)"
    "px_upstream p' = px_upstream p" "w' = w"
proof -
  let ?pol = "c_Policy (he_config env)"
  obtain ok t where a: "Allow (px_clients p) (clientAddr r) (ClientLimits (he_config env) (SubnetOf ?pol (clientAddr r))) now = (ok, t)" by fastforce
  then have ok: ok using assms(2) by (auto simp: proxy_check_def Let_def split: if_splits)
  obtain i where i: "SubnetOf ?pol (clientAddr r) = Some i"
    using assms(2) a ok by (cases "SubnetOf ?pol (clientAddr r)") (auto simp: proxy_check_def Let_def)
  obtain d where d: "Subnet_Check (p_subnets ?pol ! i) (WithClient (he_ctx env) (clientAddr r)) (he_resolver env) host port st = (d, st')" "d_Allow d"
    "v = \<lparr>v_host = host, v_port = d_Port d, v_addrs = d_Addrs d, v_idle = TunnelIdleTimeout (ClientLimits (he_config env) (Some i))\<rparr>"
    "w' = w" "px_upstream p' = px_upstream p"
    using assms(2) a ok i by (auto simp: proxy_check_def Let_def split: prod.splits if_splits)
  show "v_host v = host" "px_upstream p' = px_upstream p" "w' = w" using d(3-5) by simp_all
  show "approved specs env r st v" "vetted_wf v" "port = itoa (unat (v_port v))" "vetted_ok v (tunnel_addr v)"
    by (fact Subnet_Check_vetted(1-4) [OF assms(1) i d(1-3)])+
qed

lemma http_Error_status: "w_status w = None \<Longrightarrow> code \<ge> 200 \<Longrightarrow> \<exists>h. w_status (http_Error msg code w) = Some (code, h)"
  by (simp add: http_Error_def WriteHeader_def Let_def)

lemma deny_status: "w_status w = None \<Longrightarrow> \<exists>code h. w_status (deny w) = Some (code, h) \<and> code \<in> {403, 429}"
  unfolding deny_def by (intro exI [of _ 403]) (simp add: http_Error_status)

lemma proxy_check_refused:
  assumes "proxy_check env r host port now w p st = (None, w', p', st')" "w_status w = None"
  shows "\<exists>code h. w_status w' = Some (code, h) \<and> code \<in> {403, 429}" "px_upstream p' = px_upstream p"
proof -
  have "w' = deny w \<or> w' = http_Error ''Too many requests'' 429 (w\<lparr>w_Header := header_Set (w_Header w) ''Retry-After'' ''1''\<rparr>)"
    using assms(1) by (auto simp: proxy_check_def Let_def split: prod.splits if_splits option.splits)
  then show "\<exists>code h. w_status w' = Some (code, h) \<and> code \<in> {403, 429}"
  proof
    assume "w' = deny w"
    then show ?thesis using deny_status [OF assms(2)] by simp
  next
    assume "w' = http_Error ''Too many requests'' 429 (w\<lparr>w_Header := header_Set (w_Header w) ''Retry-After'' ''1''\<rparr>)"
    then show ?thesis using assms(2) by (intro exI [of _ 429]) (simp add: http_Error_status)
  qed
  show "px_upstream p' = px_upstream p"
    using assms(1) by (auto simp: proxy_check_def Let_def split: prod.splits if_splits option.splits)
qed


text \<open>What a tunnel does with the two connections.\<close>

lemma proxy_tunnel_io:
  assumes "proxy_tunnel env r early v dialed err200 errEarly now p = (io, p')"
  shows "(\<forall>e. dialed = Inl e \<longrightarrow> ti_toClient io = [badGatewayConnect] \<and> ti_clientClosed io \<and> ti_toUpstream io = [] \<and> ti_copying io = None) \<and>
    (\<forall>idle. ti_copying io = Some idle \<longrightarrow> idle = v_idle v \<and> concat (ti_toUpstream io) = early \<and> (\<exists>c. dialed = Inr c)) \<and>
    (ti_copying io = None \<longrightarrow> ti_clientClosed io)" "px_upstream p' = px_upstream p"
  using assms by (auto simp: proxy_tunnel_def tunnel_io_none_def Let_def split: sum.splits prod.splits if_splits)

lemma serveConnect_cases:
  assumes "Policy_New re specs = Inr (c_Policy (he_config env))" "w_status w = None"
    and "serveConnect env net r now w p st = (out, w', p', st')"
  obtains "out = Refused" "\<exists>code h. w_status w' = Some (code, h) \<and> code \<in> {403, 429}" "px_upstream p' = px_upstream p"
  | shut where "out = HijackFailed shut" "w' = w" "px_upstream p' = px_upstream p"
  | v io early where "out = Tunnelled v io" "w' = w" "px_upstream p' = px_upstream p" "approved specs env r st v"
      "SplitHostPort (rq_URLHost r) = Inr (v_host v, itoa (unat (v_port v)))" "vetted_ok v (tunnel_addr v)"
      "fst (hijack (nw_Hijacker net) (nw_Hijack net) (nw_buffered net)) = Inr early"
      "\<exists>p1 p2. proxy_tunnel env r early v (nw_dial net v (tunnel_addr v)) (nw_err200 net) (nw_errEarly net) now p1 = (io, p2)"
proof -
  obtain host port where hp: "(case SplitHostPort (rq_URLHost r) of Inl _ \<Rightarrow> (rq_URLHost r, []) | Inr hp \<Rightarrow> hp) = (host, port)" by fastforce
  obtain vo w1 p1 st1 where c: "proxy_check env r host port now w p st = (vo, w1, p1, st1)" by (metis prod_cases4)
  obtain hj shut where h: "hijack (nw_Hijacker net) (nw_Hijack net) (nw_buffered net) = (hj, shut)" by fastforce
  show thesis
  proof (cases vo)
    case None
    then have "out = Refused" "w' = w1" "p' = p1" using assms(3) hp c by (simp_all add: serveConnect_def Let_def)
    then show thesis using that(1) proxy_check_refused [OF c [unfolded None] assms(2)] by simp
  next
    case (Some v)
    note v = proxy_check_vetted [OF assms(1) c [unfolded Some]]
    have split: "SplitHostPort (rq_URLHost r) = Inr (v_host v, itoa (unat (v_port v)))"
      using hp v(3,4) itoa_nonempty [of "unat (v_port v)", THEN not_sym] by (auto split: sum.splits)
    show thesis
    proof (cases hj)
      case (Inl e)
      then show thesis using that(2) [of shut] assms(3) hp c Some h v(6,7) by (auto simp: serveConnect_def Let_def)
    next
      case (Inr early)
      obtain io p2 where t: "proxy_tunnel env r early v (nw_dial net v (tunnel_addr v)) (nw_err200 net) (nw_errEarly net) now p1 = (io, p2)" by fastforce
      have "out = Tunnelled v io" "w' = w1" "p' = p2" using assms(3) hp c Some h Inr t by (simp_all add: serveConnect_def Let_def)
      then show thesis using that(3) [of v io early] v split t h Inr proxy_tunnel_io(2) [OF t] by auto
    qed
  qed
qed

lemma serveRequest_cases:
  assumes "Policy_New re specs = Inr (c_Policy (he_config env))" "w_status w = None"
    and "pools_reach (px_upstream p)" "mset (nw_order net) = mset (up_pools (px_upstream p))"
    and "serveRequest env net r now w p st = (out, w', p', st')"
  obtains "out = Refused" "\<exists>code h. w_status w' = Some (code, h) \<and> code \<in> {403, 429}" "px_upstream p' = px_upstream p"
  | v tr where "out = Forwarded v" "approved specs env r st v" "v_host v = url_Hostname r"
      "map_of (up_pools (px_upstream p')) (poolKey (rq_Scheme r) v) = Some \<lparr>po_tr = tr, po_used = now\<rparr>" "same_destination (ut_DialContext tr) v"
      "pools_reach (px_upstream p')"
proof (cases "rq_Scheme r \<noteq> ''http'' \<and> rq_Scheme r \<noteq> ''https''")
  case True
  then have "out = Refused" "w' = deny w" "px_upstream p' = px_upstream p" using assms(5) by (auto simp: serveRequest_def Let_def)
  then show thesis using that(1) deny_status [OF assms(2)] by simp
next
  case False
  define port where "port = (if url_Port r = [] then (if rq_Scheme r = ''http'' then ''80'' else ''443'') else url_Port r)"
  obtain vo w1 p1 st1 where c: "proxy_check env r (url_Hostname r) port now w p st = (vo, w1, p1, st1)" by (metis prod_cases4)
  note run = assms(5) [unfolded serveRequest_def Let_def, folded port_def]
  show thesis
  proof (cases vo)
    case None
    then have "out = Refused" "w' = w1" "p' = p1" using run False c by auto
    then show thesis using that(1) proxy_check_refused [OF c [unfolded None] assms(2)] by simp
  next
    case (Some v)
    note v = proxy_check_vetted [OF assms(1) c [unfolded Some]]
    obtain tr u where t: "transport (px_upstream p1) (rq_Scheme r) v now (nw_order net) = (tr, u)" by fastforce
    have bar: "CHR ''|'' \<notin> set (rq_Scheme r)" using False by auto
    have reach: "pools_inv (px_upstream p1)" "mset (nw_order net) = mset (up_pools (px_upstream p1))"
      using pools_reach_inv assms(3,4) v(6) by simp_all
    note d = transport_destination [OF reach(1) v(2) bar reach(2) t]
    have rt: "roundTrip (\<lambda>tr. nw_RoundTrip net tr (outbound r)) (px_upstream p1) (rq_Scheme r) (Some v) now (nw_order net) =
        (nw_RoundTrip net tr (outbound r), u)"
      using v(2) t by (simp add: roundTrip_def vetted_wf_def)
    have "pools_reach u" using pools_reach.use [OF assms(3) v(2) bar assms(4), of now] t v(6) by simp
    moreover have "out = Forwarded v \<and> px_upstream p' = u"
      using run False c Some rt by (auto simp: badGateway_def forward_response_def Let_def split: sum.splits if_splits option.splits)
    ultimately show thesis using that(2) v(1,3) d by blast
  qed
qed

section \<open>Properties\<close>

text \<open>
  C2.  Only approved destinations are reached.  Under a compiled policy, whatever the network does: a tunnel is dialled only
  for a host and port that the request names and the policy allows this client now, and a connection
  comes from dialling one of the addresses the policy checked, none of them denied and each public
  or explicitly allowed; copying starts only on such a connection, after the early bytes of the client were
  delivered, and a dial that fails is answered 502 with no detail; a plain request goes only to a
  transport whose connections come from such addresses; a request that is refused is answered 403 or
  429, one that is not for a proxy 400, and neither changes a pool.
\<close>

theorem proxy_only_approved:
  assumes "Policy_New re specs = Inr (c_Policy (he_config env))" "w_status w = None"
    and "pools_reach (px_upstream p)" "mset (nw_order net) = mset (up_pools (px_upstream p))"
    and "ServeHTTP env net r now w p st = (out, w', p', st')"
    and "\<And>v io. out = Tunnelled v io \<Longrightarrow> vetted_dial denv v dl t ''tcp'' (tunnel_addr v) (nw_dial net v (tunnel_addr v))"
  shows "case out of
      Refused \<Rightarrow> (\<exists>code h. w_status w' = Some (code, h) \<and> code \<in> {403, 429}) \<and> px_upstream p' = px_upstream p
    | HijackFailed shut \<Rightarrow> rq_Method r = ''CONNECT'' \<and> w' = w \<and> px_upstream p' = px_upstream p
    | Tunnelled v io \<Rightarrow> rq_Method r = ''CONNECT'' \<and> approved specs env r st v \<and> px_upstream p' = px_upstream p \<and>
        SplitHostPort (rq_URLHost r) = Inr (v_host v, itoa (unat (v_port v))) \<and> vetted_ok v (tunnel_addr v) \<and>
        (\<forall>c. nw_dial net v (tunnel_addr v) = Inr c \<longrightarrow>
           (\<exists>a \<in> set (v_addrs v). \<exists>d x. fst (de_dial denv d ''tcp'' (addrport_String a (unat (v_port v))) x) = Inr c)) \<and>
        (\<forall>e. nw_dial net v (tunnel_addr v) = Inl e \<longrightarrow>
           ti_toClient io = [badGatewayConnect] \<and> ti_clientClosed io \<and> ti_toUpstream io = [] \<and> ti_copying io = None) \<and>
        (\<forall>idle. ti_copying io = Some idle \<longrightarrow> idle = v_idle v \<and>
           fst (hijack (nw_Hijacker net) (nw_Hijack net) (nw_buffered net)) = Inr (concat (ti_toUpstream io)))
    | Forwarded v \<Rightarrow> approved specs env r st v \<and> v_host v = url_Hostname r \<and>
        (\<exists>tr. map_of (up_pools (px_upstream p')) (poolKey (rq_Scheme r) v) = Some \<lparr>po_tr = tr, po_used = now\<rparr> \<and>
           (\<forall>network addr c. vetted_dial denv (ut_DialContext tr) dl t network addr (Inr c) \<longrightarrow>
              (\<exists>a \<in> set (v_addrs v). \<exists>d x. fst (de_dial denv d network (addrport_String a (unat (v_port v))) x) = Inr c)))
    | NotProxy \<Rightarrow> (\<exists>h. w_status w' = Some (400, h)) \<and> px_upstream p' = px_upstream p \<and> st' = st"
proof (cases "rq_Method r = ''CONNECT''")
  case True
  then have run: "serveConnect env net r now w p st = (out, w', p', st')" using assms(5) by (simp add: ServeHTTP_def)
  show ?thesis
  proof (cases rule: serveConnect_cases [OF assms(1,2) run])
    case (3 v io early)
    then obtain p1 p2 where io: "proxy_tunnel env r early v (nw_dial net v (tunnel_addr v)) (nw_err200 net) (nw_errEarly net) now p1 = (io, p2)"
      by blast
    have conn: "\<exists>a \<in> set (v_addrs v). \<exists>d x. fst (de_dial denv d ''tcp'' (addrport_String a (unat (v_port v))) x) = Inr c"
      if "nw_dial net v (tunnel_addr v) = Inr c" for c
      using vetted_dial_conn(2) [of denv v dl t "''tcp''" "tunnel_addr v" c] assms(6) [OF 3(1)] that by simp
    show ?thesis using 3 True conn proxy_tunnel_io(1) [OF io] by simp
  qed (simp_all add: True)
next
  case False
  show ?thesis
  proof (cases "rq_Scheme r = []")
    case True
    then have "out = NotProxy" "w' = fst (serveOther env r now w p)" "p' = snd (serveOther env r now w p)" "st' = st"
      using assms(5) False by (simp_all add: ServeHTTP_def split: prod.splits)
    then show ?thesis using http_Error_status [OF assms(2)] by (simp add: serveOther_def)
  next
    case nonempty: False
    then have run: "serveRequest env net r now w p st = (out, w', p', st')" using assms(5) False by (simp add: ServeHTTP_def)
    show ?thesis
    proof (cases rule: serveRequest_cases [OF assms(1-4) run])
      case (2 v tr)
      have "\<exists>a \<in> set (v_addrs v). \<exists>d x. fst (de_dial denv d network (addrport_String a (unat (v_port v))) x) = Inr c"
        if "vetted_dial denv (ut_DialContext tr) dl t network addr (Inr c)" for network addr c
        using vetted_dial_conn(2) [OF that] same_destination_addrs [OF 2(5)] 2(5) by (simp add: same_destination_def)
      then show ?thesis using 2 by auto
    qed simp
  qed
qed

text \<open>
  C38.  Requests and responses are forwarded whole.  The request that is sent upstream and the response that is
  sent back have exactly the headers they came with, in their order, except those that apply to one connection: nine fixed
  ones (among them the credentials for the proxy), and every header whose name stands in a field of the \<^verbatim>\<open>Connection\<close> header between commas,
  white space around it ignored, in whatever case it is written.  The response has the status and every piece of the body that
  arrived, each flushed when its length is unknown, and its trailers follow under the prefix that makes them trailers.
\<close>

theorem outbound_headers:
  assumes "w_status w = None" "w_Header w = []" "distinct (map fst (rs_Header resp))" "200 \<le> rs_StatusCode resp"
    and "canonical_keys (rq_Header r)" "canonical_keys (rs_Header resp)" "distinct (map fst (rs_Trailer resp))"
    and "forward_response env host resp chunks err w p = (w', p')"
  shows "rq_Header (outbound r) = filter (\<lambda>(k, _). \<not> of_connection (rq_Header r) k) (rq_Header r) \<and>
   rq_URLHost (outbound r) = rq_URLHost r \<and> rq_Method (outbound r) = rq_Method r \<and> \<not> rq_Close (outbound r) \<and>
   w_status w' = Some (rs_StatusCode resp, filter (\<lambda>(k, _). \<not> of_connection (rs_Header resp) k) (rs_Header resp)) \<and>
   w_body w' = w_body w @ chunks \<and> w_flushed w' = w_flushed w + (if rs_ContentLength resp < 0 then length chunks else 0) \<and>
   (\<forall>k vs. map_of (rs_Trailer resp) k = Some vs \<longrightarrow> map_of (w_Header w') (''Trailer:'' @ k) = Some vs)"
proof -
  let ?h = "removeHopByHop (rs_Header resp)"
  have copy: "maps_Copy [] ?h = ?h" using maps_Copy_new [of "[]" ?h] distinct_map_filter [OF assms(3)] by (simp add: removeHopByHop_filter)
  note w = assms(8) [unfolded forward_response_def Let_def WriteHeader_def write_body_def, simplified assms(1,2) copy, simplified]
  have f: "w_status w' = Some (rs_StatusCode resp, ?h)" "w_body w' = w_body w @ chunks"
    "w_flushed w' = w_flushed w + (if rs_ContentLength resp < 0 then length chunks else 0)"
    "w_Header w' = maps_Copy ?h (map (\<lambda>(k, vs). (TrailerPrefix @ k, vs)) (rs_Trailer resp))"
    using w assms(1,4) by (auto split: if_splits)
  have "map_of (w_Header w') (''Trailer:'' @ k) = Some vs" if "map_of (rs_Trailer resp) k = Some vs" for k vs
    using maps_Copy_trailer [OF assms(7) that, of ?h TrailerPrefix] unfolding f(4) TrailerPrefix_def .
  then show ?thesis using f(1-3) removeHopByHop_spec [OF assms(5)] removeHopByHop_spec [OF assms(6)] by (simp add: outbound_def)
qed

text \<open>A tunnel to a host of the example policy.\<close>

definition demo_request :: request where
  "demo_request = \<lparr>rq_Method = ''CONNECT'', rq_Scheme = [], rq_URLHost = ''www.example.com:443'', rq_Host = ''www.example.com:443'',
     rq_RemoteAddr = ''192.168.1.7:5000'', rq_Header = [], rq_ProtoMajor = 1, rq_ProtoMinor = 1, rq_RequestURI = [], rq_Close = False\<rparr>"

definition demo_env :: "(int, nat) handler_env" where
  "demo_env = \<lparr>he_enabled = (\<lambda>_. True),
     he_config = demo_config\<lparr>c_subnetLimits := [(0, DefaultClientLimits\<lparr>RequestsPerSecond := FFin 0\<rparr>)]\<rparr>,
     he_resolver = demo_resolver (Addr4 0x08080808), he_ctx = demo_ctx\<rparr>"

definition demo_network :: "string network" where
  "demo_network = \<lparr>nw_Hijacker = True, nw_Hijack = Inr 0, nw_buffered = Inr [], nw_dial = (\<lambda>v a. Inr ''8.8.8.8:443''),
     nw_err200 = None, nw_errEarly = None, nw_RoundTrip = (\<lambda>_ _. Inl errNotVetted), nw_order = [], nw_body = [], nw_bodyErr = None\<rparr>"

definition demo_writer :: writer where
  "demo_writer = \<lparr>w_Header = [], w_status = None, w_body = [], w_flushed = 0\<rparr>"

definition demo_tunnelled :: vetted where
  "demo_tunnelled = \<lparr>v_host = ''www.example.com'', v_port = 443, v_addrs = [Addr4 0x08080808], v_idle = TunnelIdleTimeout DefaultClientLimits\<rparr>"

lemma demo_client: "clientAddr demo_request = Addr4 0xc0a80107"
  by (simp add: clientAddr_def demo_request_def eval_simps)

lemma demo_subnet_check:
  "Subnet_Check (p_subnets demo_policy ! 0) (WithClient demo_ctx (Addr4 0xc0a80107)) (demo_resolver (Addr4 0x08080808))
     ''www.example.com'' ''443'' 0 = (demo_allowed, 1)"
  by (simp add: WithClient_def demo_policy_def demo_allowed_def demo_resolver_def isPublic_dns eval_simps)

lemma demo_proxy_check:
  "\<exists>p. proxy_check demo_env demo_request ''www.example.com'' ''443'' 0 demo_writer proxy_New 0 = (Some demo_tunnelled, demo_writer, p, 1)"
proof -
  have "\<exists>t. Allow NewTracker (Addr4 0xc0a80107) (DefaultClientLimits\<lparr>RequestsPerSecond := FFin 0\<rparr>) 0 = (True, t)"
    by (simp add: Allow_def bucket_take_def split: prod.splits)
  then show ?thesis
    using demo_subnet_check
    by (auto simp: proxy_check_def demo_client demo_env_def demo_config_def ClientLimits_def demo_subnet proxy_New_def Let_def
        demo_allowed_def demo_tunnelled_def)
qed

lemma demo_ServeHTTP:
  "\<exists>io p. ServeHTTP demo_env demo_network demo_request 0 demo_writer proxy_New 0 = (Tunnelled demo_tunnelled io, demo_writer, p, 1) \<and>
     ti_copying io = Some (TunnelIdleTimeout DefaultClientLimits)"
proof -
  have "SplitHostPort ''www.example.com:443'' = Inr (''www.example.com'', ''443'')" by (simp add: eval_simps)
  then show ?thesis using demo_proxy_check
    by (auto simp: ServeHTTP_def serveConnect_def demo_request_def [THEN arg_cong [of _ _ rq_Method]] demo_request_def [THEN arg_cong [of _ _ rq_URLHost]]
        demo_network_def hijack_def proxy_tunnel_def tunnel_io_none_def Let_def demo_tunnelled_def split: prod.splits)
qed

theorem proxy_only_approved_witness:
  "approved demo_specs demo_env demo_request 0 demo_tunnelled \<and> vetted_ok demo_tunnelled (tunnel_addr demo_tunnelled) \<and>
   (\<exists>d x. fst (de_dial demo_dial_env d ''tcp'' (addrport_String (Addr4 0x08080808) 443) x) = Inr ''8.8.8.8:443'')"
proof -
  obtain io p where run: "ServeHTTP demo_env demo_network demo_request 0 demo_writer proxy_New 0 = (Tunnelled demo_tunnelled io, demo_writer, p, 1)"
    using demo_ServeHTTP by blast
  have pol: "Policy_New MustCompile demo_specs = Inr (c_Policy (he_config demo_env))"
    by (simp add: demo_policy_compiled demo_env_def demo_config_def)
  have reach: "pools_reach (px_upstream proxy_New)" using pools_reach.new by (simp add: proxy_New_def)
  have up: "w_status demo_writer = None" "mset (nw_order demo_network) = mset (up_pools (px_upstream proxy_New))"
    by (simp_all add: demo_writer_def proxy_New_def demo_network_def newUpstreamPools_def)
  have addr: "tunnel_addr demo_tunnelled = ''www.example.com:443''" by (simp add: tunnel_addr_def demo_tunnelled_def eval_simps)
  have ok: "vetted_ok demo_tunnelled ''www.example.com:443''" by (simp add: vetted_ok_def demo_tunnelled_def eval_simps)
  have "vetted_dial demo_dial_env demo_tunnelled None 0 ''tcp'' ''www.example.com:443'' (Inr ''8.8.8.8:443'')"
    by (simp add: vetted_dial_def ok dialParallel_returns_def serial_results_def dialSerial_def demo_dial_env_def)
      (simp add: demo_tunnelled_def maxAddrsPerFamily_def eval_simps)
  then have dial: "vetted_dial demo_dial_env v None 0 ''tcp'' (tunnel_addr v) (nw_dial demo_network v (tunnel_addr v))"
    if "Tunnelled demo_tunnelled io = Tunnelled v io'" for v io'
    using that by (simp add: addr demo_network_def)
  from proxy_only_approved [OF pol up(1) reach up(2) run dial]
  show ?thesis by (simp add: demo_network_def) (simp add: demo_tunnelled_def)
qed

text \<open>A response with a header of its own connection.\<close>

definition demo_response :: response where
  "demo_response = \<lparr>rs_StatusCode = 200, rs_Header = [(''Connection'', ['' x-hop '']), (''X-Hop'', [''1'']), (''Etag'', [''2''])],
     rs_ContentLength = -1, rs_Trailer = []\<rparr>"

lemma demo_response_headers: "removeHopByHop (rs_Header demo_response) = [(''Etag'', [''2''])]" "canonical_keys (rs_Header demo_response)"
  by (simp_all add: demo_response_def canonical_keys_def removeHopByHop_filter header_Values_def connection_names_def hopByHop_def CanonicalHeaderKey_def
      header_char_def is_digit_def between_def upper_char_def lower_char_def TrimString_def ascii_space_def char_of_def bit_0)

theorem outbound_headers_witness:
  "\<exists>w' p'. forward_response demo_env ''a.com'' demo_response [''a'', ''b''] None demo_writer proxy_New = (w', p') \<and>
     w_status w' = Some (200, [(''Etag'', [''2''])]) \<and> w_body w' = [''a'', ''b''] \<and> w_flushed w' = 2"
proof -
  obtain w' p' where f: "forward_response demo_env ''a.com'' demo_response [''a'', ''b''] None demo_writer proxy_New = (w', p')" by fastforce
  have "w_status demo_writer = None" "w_Header demo_writer = []" "distinct (map fst (rs_Header demo_response))" "200 \<le> rs_StatusCode demo_response"
      "canonical_keys (rq_Header demo_request)"
    by (simp_all add: demo_writer_def demo_response_def demo_request_def canonical_keys_def)
  note a = this
  have "distinct (map fst (rs_Trailer demo_response))" by (simp add: demo_response_def)
  note h = outbound_headers [OF a demo_response_headers(2) this f, unfolded removeHopByHop_spec [OF demo_response_headers(2), symmetric] demo_response_headers(1)]
  have "w_status w' = Some (200, [(''Etag'', [''2''])])" using h by (simp add: demo_response_def)
  moreover have "w_body w' = [''a'', ''b'']" "w_flushed w' = 2" using h by (simp_all add: demo_response_def demo_writer_def)
  ultimately show ?thesis using f by blast
qed

end
