(* ===== verification/Stages.thy ===== *)
theory Stages
  imports Handler
begin

text \<open>
  A request as a sequence of stages.  A stage of a handler ends where the code touches state that others share: the active
  configuration, the tracker under its mutex, the DNS cache, the pools under theirs.  The stages one after the other are
  \<^verbatim>\<open>ServeHTTP\<close>; in the running program other requests, reloads and lookups come in between.
\<close>

section \<open>Stages of a request\<close>

text \<open>The host and port that \<^verbatim>\<open>check\<close> is called with, if it is called.\<close>

definition check_target :: "request \<Rightarrow> (string \<times> string) option" where
  "check_target r =
     (if rq_Method r = ''CONNECT'' then
        Some (case SplitHostPort (rq_URLHost r) of Inl _ \<Rightarrow> (rq_URLHost r, []) | Inr hp \<Rightarrow> hp)
      else if rq_Scheme r = ''http'' then Some (url_Hostname r, if url_Port r = [] then ''80'' else url_Port r)
      else if rq_Scheme r = ''https'' then Some (url_Hostname r, if url_Port r = [] then ''443'' else url_Port r)
      else None)"

datatype refusal = TooMany | Blocked

fun refuse :: "refusal \<Rightarrow> writer \<Rightarrow> writer" where
  "refuse TooMany w = http_Error ''Too many requests'' 429 (w\<lparr>w_Header := header_Set (w_Header w) ''Retry-After'' ''1''\<rparr>)"
| "refuse Blocked w = deny w"

text \<open>
  A stage carries what the handler keeps in its variables: the configuration it loaded, the decision, the vetted destination
  and the transport.  \<open>Waiting\<close> names the thread of the cache that looks the host up; the answer it gave stays with the
  decision.
\<close>

datatype 'lvl stage =
    Arrived
  | Loaded "'lvl Config"
  | Limited "'lvl Config"
  | Waiting "'lvl Config" nat
  | Decided "'lvl Config" Decision refusal "addr list result"
  | Approved "'lvl Config" vetted "addr list result"
  | Sending "'lvl Config" vetted upstreamTransport "addr list result"
  | Answered outcome

text \<open>The decision of the subnet of the client, given the answer to the one lookup it may make.\<close>

definition decide :: "'lvl Config \<Rightarrow> ctx \<Rightarrow> addr list result \<Rightarrow> request \<Rightarrow> string \<Rightarrow> string \<Rightarrow> Decision" where
  "decide cfg c ans r host port =
     (case SubnetOf (c_Policy cfg) (clientAddr r) of
        None \<Rightarrow> reason_decision (Reason ''client not in any subnet'') []
      | Some i \<Rightarrow> fst (Subnet_Check (p_subnets (c_Policy cfg) ! i) (WithClient c (clientAddr r)) (\<lambda>_ _ _ st. (ans, st)) host port ()))"

text \<open>The lookups that a check makes, recorded by a resolver that fails.\<close>

definition lookups :: "'lvl Config \<Rightarrow> ctx \<Rightarrow> request \<Rightarrow> string \<Rightarrow> string \<Rightarrow> (string \<times> string) list" where
  "lookups cfg c r host port =
     (case SubnetOf (c_Policy cfg) (clientAddr r) of
        None \<Rightarrow> []
      | Some i \<Rightarrow> snd (Subnet_Check (p_subnets (c_Policy cfg) ! i) (WithClient c (clientAddr r))
                    (\<lambda>_ net host qs. (Inl (ErrNew []), qs @ [(net, host)])) host port []))"

text \<open>
  One stage of a handler by itself.  \<open>ans\<close> is the answer of the lookup that the decision is made with.
\<close>

fun advance :: "('lvl, unit) handler_env \<Rightarrow> 'c network \<Rightarrow> addr list result \<Rightarrow> request \<Rightarrow> time \<Rightarrow>
    'lvl stage \<times> writer \<times> Proxy \<Rightarrow> 'lvl stage \<times> writer \<times> Proxy" where
  "advance env net ans r now (Arrived, w, p) =
     (if check_target r \<noteq> None then (Loaded (he_config env), w, p)
      else if rq_Scheme r = [] then (case serveOther env r now w p of (w1, p1) \<Rightarrow> (Answered NotProxy, w1, p1))
      else (Answered Refused, deny w,
        logDecision (he_enabled env) p (rq_Method r) (clientAddr r) (url_Hostname r) (url_Port r)
          (reason_decision (ReasonErr ''unsupported scheme '' (ErrFmt ''%q'' [clip (rq_Scheme r) 16])) []) now))"
| "advance env net ans r now (Loaded cfg, w, p) =
     (case Allow (px_clients p) (clientAddr r) (ClientLimits cfg (SubnetOf (c_Policy cfg) (clientAddr r))) now of
        (ok, t) \<Rightarrow>
          (if ok then Limited cfg
           else Decided cfg (reason_decision (Reason ''rate limited'') (subnet_name cfg (clientAddr r))) TooMany ans, w, p\<lparr>px_clients := t\<rparr>))"
| "advance env net ans r now (Limited cfg, w, p) =
     (Decided cfg (case_prod (decide cfg (he_ctx env) ans r) (the (check_target r))) Blocked ans, w, p)"
| "advance env net ans r now (Waiting cfg k, w, p) =
     (Decided cfg (case_prod (decide cfg (he_ctx env) ans r) (the (check_target r))) Blocked ans, w, p)"
| "advance env net ans r now (Decided cfg d ref a, w, p) =
     (case the (check_target r) of (host, port) \<Rightarrow>
        let p1 = logDecision (he_enabled env) p (rq_Method r) (clientAddr r) host port d now in
        if d_Allow d
        then (Approved cfg \<lparr>v_host = host, v_port = d_Port d, v_addrs = d_Addrs d,
                v_idle = TunnelIdleTimeout (ClientLimits cfg (SubnetOf (c_Policy cfg) (clientAddr r)))\<rparr> a, w, p1)
        else (Answered Refused, refuse ref w, p1))"
| "advance env net ans r now (Approved cfg v a, w, p) =
     (if rq_Method r = ''CONNECT'' then
        (case hijack (nw_Hijacker net) (nw_Hijack net) (nw_buffered net) of
           (Inl err, shut) \<Rightarrow>
             (Answered (HijackFailed shut), w,
              emit (he_enabled env) Debug [(''error'', LErr err)] ''cannot hijack the client connection for a tunnel'' p)
         | (Inr early, _) \<Rightarrow>
             (case proxy_tunnel env r early v (nw_dial net v (tunnel_addr v)) (nw_err200 net) (nw_errEarly net) now p of
                (io, p1) \<Rightarrow> (Answered (Tunnelled v io), w, p1)))
      else if v_addrs v = [] then
        (case badGateway env r (url_Hostname r) errNotVetted now w p of (w1, p1) \<Rightarrow> (Answered (Forwarded v), w1, p1))
      else
        (case transport (px_upstream p) (rq_Scheme r) v now (nw_order net) of
           (tr, u) \<Rightarrow> (Sending cfg v tr a, w, p\<lparr>px_upstream := u\<rparr>)))"
| "advance env net ans r now (Sending cfg v tr a, w, p) =
     (case (case nw_RoundTrip net tr (outbound r) of
              Inl e \<Rightarrow> badGateway env r (url_Hostname r) e now w p
            | Inr resp \<Rightarrow>
                if rs_StatusCode resp = 101 then badGateway env r (url_Hostname r) errUpgradeNotSupported now w p
                else forward_response env (url_Hostname r) resp (nw_body net) (nw_bodyErr net) w p) of
        (w1, p1) \<Rightarrow> (Answered (Forwarded v), w1, p1))"
| "advance env net ans r now (Answered out, w, p) = (Answered out, w, p)"

section \<open>A handler that is not interrupted\<close>

text \<open>The stages one after the other are the handler.\<close>

fun advances :: "nat \<Rightarrow> ('lvl, unit) handler_env \<Rightarrow> 'c network \<Rightarrow> addr list result \<Rightarrow> request \<Rightarrow> time \<Rightarrow>
    'lvl stage \<times> writer \<times> Proxy \<Rightarrow> 'lvl stage \<times> writer \<times> Proxy" where
  "advances 0 env net ans r now s = s"
| "advances (Suc n) env net ans r now s = advances n env net ans r now (advance env net ans r now s)"

lemma advances_Answered: "advances n env net ans r now (Answered out, w, p) = (Answered out, w, p)"
  by (induction n) simp_all

lemma proxy_check_stages:
  assumes "check_target r = Some (host, port)" "he_resolver env = (\<lambda>_ _ _ st. (ans, st))"
    and "proxy_check env r host port now w p () = (vo, w', p', st')"
  shows "advances 3 env net ans r now (Loaded (he_config env), w, p) =
      (case vo of
         None \<Rightarrow> (Answered Refused, w', p')
       | Some v \<Rightarrow> (Approved (he_config env) v ans, w', p')) \<or>
    advances 2 env net ans r now (Loaded (he_config env), w, p) = (Answered Refused, w', p') \<and> vo = None"
proof -
  let ?cfg = "he_config env"
  obtain ok t where a: "Allow (px_clients p) (clientAddr r) (ClientLimits ?cfg (SubnetOf (c_Policy ?cfg) (clientAddr r))) now = (ok, t)" by fastforce
  show ?thesis
  proof (cases ok)
    case False
    then show ?thesis using assms a
      by (auto simp: numeral_eq_Suc proxy_check_def Let_def reason_decision_def subnet_name_def)
  next
    case True
    then show ?thesis using assms a
      by (cases "SubnetOf (c_Policy ?cfg) (clientAddr r)")
        (auto simp: numeral_eq_Suc proxy_check_def Let_def decide_def reason_decision_def split: prod.splits if_splits)
  qed
qed

lemma advances_add: "advances (m + n) env net ans r now s = advances n env net ans r now (advances m env net ans r now s)"
  by (induction m arbitrary: s) simp_all

lemma check_stages:
  assumes "check_target r = Some (host, port)" "he_resolver env = (\<lambda>_ _ _ st. (ans, st))"
    and "proxy_check env r host port now w p () = (vo, w', p', st')"
  shows "advances 6 env net ans r now (Arrived, w, p) =
    (case vo of None \<Rightarrow> (Answered Refused, w', p') | Some v \<Rightarrow> advances 2 env net ans r now (Approved (he_config env) v ans, w', p'))"
proof -
  let ?l = "(Loaded (he_config env), w, p)"
  have "advances 6 env net ans r now (Arrived, w, p) = advances 5 env net ans r now ?l"
    using advances_add [of 1 5 env net ans r now "(Arrived, w, p)"] assms(1) by simp
  also have "\<dots> = advances 2 env net ans r now (advances 3 env net ans r now ?l)"
    using advances_add [of 3 2] by simp
  also have "\<dots> = (case vo of None \<Rightarrow> (Answered Refused, w', p') | Some v \<Rightarrow> advances 2 env net ans r now (Approved (he_config env) v ans, w', p'))"
    using proxy_check_stages [OF assms, of net]
  proof
    assume two: "advances 2 env net ans r now ?l = (Answered Refused, w', p') \<and> vo = None"
    then have "advances 3 env net ans r now ?l = (Answered Refused, w', p')"
      using advances_add [of 2 1 env net ans r now ?l] by (simp add: advances_Answered)
    then show ?thesis using two by (simp add: advances_Answered)
  qed (auto simp: advances_Answered split: option.splits)
  finally show ?thesis .
qed

lemma check_target_plain:
  assumes "rq_Method r \<noteq> ''CONNECT''" "check_target r = Some (host, port)"
  shows "rq_Scheme r = ''http'' \<or> rq_Scheme r = ''https''" "host = url_Hostname r"
    "port = (if url_Port r = [] then (if rq_Scheme r = ''http'' then ''80'' else ''443'') else url_Port r)"
  using assms by (auto simp: check_target_def split: if_splits)

lemma serveRequest_check:
  assumes "rq_Method r \<noteq> ''CONNECT''" "check_target r = Some (host, port)"
  shows "ServeHTTP env net r now w p st =
    (case proxy_check env r (url_Hostname r) port now w p st of
       (None, w1, p1, st1) \<Rightarrow> (Refused, w1, p1, st1)
     | (Some v, w1, p1, st1) \<Rightarrow>
         (case roundTrip (\<lambda>tr. nw_RoundTrip net tr (outbound r)) (px_upstream p1) (rq_Scheme r) (Some v) now (nw_order net) of
            (Inl e, u) \<Rightarrow>
              (case badGateway env r (url_Hostname r) e now w1 (p1\<lparr>px_upstream := u\<rparr>) of (w2, p2) \<Rightarrow> (Forwarded v, w2, p2, st1))
          | (Inr resp, u) \<Rightarrow>
              if rs_StatusCode resp = 101
              then (case badGateway env r (url_Hostname r) errUpgradeNotSupported now w1 (p1\<lparr>px_upstream := u\<rparr>) of (w2, p2) \<Rightarrow> (Forwarded v, w2, p2, st1))
              else
                (case forward_response env (url_Hostname r) resp (nw_body net) (nw_bodyErr net) w1 (p1\<lparr>px_upstream := u\<rparr>) of
                   (w2, p2) \<Rightarrow> (Forwarded v, w2, p2, st1))))"
proof -
  note t = check_target_plain [OF assms]
  have serve: "ServeHTTP env net r now w p st = serveRequest env net r now w p st"
    using t(1) assms(1) by (auto simp: ServeHTTP_def)
  have "\<not> (rq_Scheme r \<noteq> ''http'' \<and> rq_Scheme r \<noteq> ''https'')" using t(1) by blast
  then show ?thesis unfolding serve serveRequest_def Let_def t(3) by (simp only: if_False)
qed

text \<open>
  The stages are the handler.  A request that goes through its stages without interruption, with the answer that the resolver
  gives as the answer of its lookup, ends after at most six of them with the outcome, the response and the state of the proxy that
  \<^verbatim>\<open>ServeHTTP\<close> gives, whatever the network does.
\<close>

lemma ServeHTTP_stages:
  assumes "he_resolver env = (\<lambda>_ _ _ st. (ans, st))" "ServeHTTP env net r now w p () = (out, w', p', st')"
  shows "advances 6 env net ans r now (Arrived, w, p) = (Answered out, w', p')"
proof (cases "check_target r")
  case None
  then have t: "rq_Method r \<noteq> ''CONNECT''" "rq_Scheme r \<noteq> ''http''" "rq_Scheme r \<noteq> ''https''"
    by (auto simp: check_target_def split: if_splits)
  have "advance env net ans r now (Arrived, w, p) = (Answered out, w', p')"
    using assms(2) None t by (auto simp: ServeHTTP_def serveRequest_def Let_def split: prod.splits if_splits)
  then show ?thesis using advances_add [of 1 5 env net ans r now] by (simp add: advances_Answered)
next
  case (Some hp)
  obtain host port where hp: "hp = (host, port)" by (cases hp)
  obtain vo w1 p1 st1 where c: "proxy_check env r host port now w p () = (vo, w1, p1, st1)" by (metis prod_cases4)
  note stages = check_stages [OF Some [unfolded hp] assms(1) c, of net]
  show ?thesis
  proof (cases "rq_Method r = ''CONNECT''")
    case True
    then have "(case SplitHostPort (rq_URLHost r) of Inl _ \<Rightarrow> (rq_URLHost r, []) | Inr hp \<Rightarrow> hp) = (host, port)"
      using Some hp by (simp add: check_target_def)
    then show ?thesis using assms(2) True c stages
      by (cases vo) (auto simp: ServeHTTP_def serveConnect_def Let_def numeral_eq_Suc split: prod.splits sum.splits)
  next
    case False
    note run = assms(2) [unfolded serveRequest_check [OF False Some [unfolded hp]]]
    have host: "host = url_Hostname r" by (rule check_target_plain(2) [OF False Some [unfolded hp]])
    show ?thesis
    proof (cases vo)
      case None
      then show ?thesis using run stages c host by simp
    next
      case (Some v)
      obtain tr u where t: "transport (px_upstream p1) (rq_Scheme r) v now (nw_order net) = (tr, u)" by fastforce
      have two: "advances 2 env net ans r now (Approved (he_config env) v ans, w1, p1) = (Answered out, w', p')"
        using run c host Some t False
        by (cases "v_addrs v = []"; cases "nw_RoundTrip net tr (outbound r)")
          (auto simp: numeral_eq_Suc roundTrip_def split: prod.splits if_splits)
      then show ?thesis using stages Some by simp
    qed
  qed
qed

end
