(* ===== verification/System.thy ===== *)
theory System
  imports Store Stages
begin

text \<open>
  \<^verbatim>\<open>cmd/proxy-acl/main.go\<close> and the running program: the store that reloads the configuration, the listener, the handlers of
  concurrent requests, the DNS cache behind them and the maintenance loop over one state.
\<close>

section \<open>Starting\<close>

text \<open>\<^verbatim>\<open>filepath.Dir\<close>\<close>

definition filepath_Dir :: "string \<Rightarrow> string" where
  "filepath_Dir p = Clean (rev (dropWhile (\<lambda>c. c \<noteq> CHR ''/'') (rev p)))"

text \<open>
  \<^verbatim>\<open>Store.Watch\<close>: given the results of making the watcher and of adding the directory, the error,
  whether the watcher was closed again, and the loop that was started.
\<close>

definition Store_Watch :: "error option \<Rightarrow> (string \<Rightarrow> error option) \<Rightarrow> 'lvl Store \<Rightarrow> error option \<times> bool \<times> 'lvl watch option" where
  "Store_Watch newWatcher add s =
     (case newWatcher of
        Some err \<Rightarrow> (Some err, False, None)
      | None \<Rightarrow>
          (case add (filepath_Dir (st_path s)) of
             Some err \<Rightarrow> (Some err, True, None)
           | None \<Rightarrow> (None, False, Some (watch_init s))))"

record flags =
  fl_config :: string
  fl_listen :: string
  fl_logFormat :: string
  fl_version :: bool

text \<open>What the system gives while the program starts.\<close>

record 'lvl start_env =
  se_load :: "'lvl loader"
  se_Getwd :: "string result"
  se_contents :: "string result"
  se_NewWatcher :: "error option"
  se_Add :: "string \<Rightarrow> error option"
  se_Listen :: "string \<Rightarrow> error option"

datatype 'lvl started = PrintedVersion | Exited error | NilStore | Serving "'lvl watch"

definition run :: "flags \<Rightarrow> 'lvl start_env \<Rightarrow> 'lvl started" where
  "run fl se =
     (if fl_version fl then PrintedVersion
      else if fl_logFormat fl \<noteq> ''json'' \<and> fl_logFormat fl \<noteq> ''console''
      then Exited (ErrFmt ''unknown log format %q'' [fl_logFormat fl])
      else
        (case NewStore (se_load se) (se_Getwd se) (fl_config fl) True (se_contents se) of
           (Some err, _) \<Rightarrow> Exited (ErrWrap ''load config %s: %w'' [fl_config fl] err)
         | (None, None) \<Rightarrow> NilStore
         | (None, Some store) \<Rightarrow>
             (case Store_Watch (se_NewWatcher se) (se_Add se) store of
                (Some err, _, _) \<Rightarrow> Exited (ErrWrap ''watch config: %w'' [] err)
              | (None, _, None) \<Rightarrow> NilStore
              | (None, _, Some w) \<Rightarrow>
                  (case se_Listen se (fl_listen fl) of
                     Some err \<Rightarrow> Exited (ErrWrap ''listen on %s: %w'' [fl_listen fl] err)
                   | None \<Rightarrow> Serving w))))"

text \<open>The exit status of \<^verbatim>\<open>main\<close>, given the error that the server ends with.\<close>

definition main_exit :: "'lvl started \<Rightarrow> error \<Rightarrow> nat" where
  "main_exit r err =
     (case r of
        PrintedVersion \<Rightarrow> 0
      | Exited _ \<Rightarrow> 1
      | NilStore \<Rightarrow> 2
      | Serving _ \<Rightarrow> (case Serve_result err of None \<Rightarrow> 0 | Some _ \<Rightarrow> 1))"

section \<open>Running\<close>

text \<open>
  The parameters of a running program: how it loads, what each level writes, the context of its requests, which errors of the
  resolver behind the cache mean a missing name, and the answers it may give.
\<close>

record ('lvl, 'op) program =
  pg_load :: "'lvl loader"
  pg_Chmod :: 'op
  pg_enabled :: "'lvl \<Rightarrow> log_level \<Rightarrow> bool"
  pg_ctx :: ctx
  pg_NotFound :: "error \<Rightarrow> bool"
  pg_answers :: "string \<Rightarrow> string \<Rightarrow> addr list \<Rightarrow> error option \<Rightarrow> bool"

record 'lvl handling =
  ha_request :: request
  ha_stage :: "'lvl stage"
  ha_writer :: writer

text \<open>
  The state of the running program; \<open>rn_sent\<close> records the destinations that were contacted, with the configuration that
  approved them, the request and the answer of the lookup.
\<close>

record 'lvl running =
  rn_watch :: "'lvl watch"
  rn_conns :: conns
  rn_dns :: Resolver
  rn_handlers :: "'lvl handling list"
  rn_sent :: "('lvl Config \<times> request \<times> addr list result \<times> vetted) list"

definition system_start :: "'lvl watch \<Rightarrow> time \<Rightarrow> 'lvl running" where
  "system_start w now =
     \<lparr>rn_watch = w, rn_conns = \<lparr>cn_proxy = proxy_New, cn_admitted = [], cn_closed = []\<rparr>, rn_dns = dns_New now, rn_handlers = [], rn_sent = []\<rparr>"

abbreviation current :: "'lvl running \<Rightarrow> 'lvl Config option" where
  "current s \<equiv> Current (w_store (rn_watch s))"

abbreviation proxy :: "'lvl running \<Rightarrow> Proxy" where
  "proxy s \<equiv> cn_proxy (rn_conns s)"

text \<open>The environment of a handler, with the answer of its lookup as its resolver.\<close>

definition stage_env :: "('lvl, 'op) program \<Rightarrow> 'lvl Config \<Rightarrow> addr list result \<Rightarrow> ('lvl, unit) handler_env" where
  "stage_env pg cfg ans =
     \<lparr>he_enabled = pg_enabled pg (c_LogLevel cfg), he_config = cfg, he_resolver = (\<lambda>_ _ _ st. (ans, st)), he_ctx = pg_ctx pg\<rparr>"

definition no_answer :: "addr list result" where "no_answer = Inl (ErrNew [])"

text \<open>The lookup that a handler is about to make.\<close>

definition pending_lookup :: "ctx \<Rightarrow> 'lvl handling \<Rightarrow> (string \<times> string) list" where
  "pending_lookup c h =
     (case ha_stage h of
        Limited cfg \<Rightarrow> (case the (check_target (ha_request h)) of (host, port) \<Rightarrow> lookups cfg c (ha_request h) host port)
      | _ \<Rightarrow> [])"

fun is_waiting :: "'lvl stage \<Rightarrow> bool" where
  "is_waiting (Waiting _ _) = True"
| "is_waiting _ = False"

text \<open>The destination that a stage contacts, unless the client's connection could not be taken over.\<close>

fun contacts :: "request \<Rightarrow> 'lvl stage \<Rightarrow> 'lvl stage \<Rightarrow> ('lvl Config \<times> request \<times> addr list result \<times> vetted) list" where
  "contacts r (Approved cfg v a) (Answered (HijackFailed _)) = []"
| "contacts r (Approved cfg v a) _ = [(cfg, r, a, v)]"
| "contacts r _ _ = []"

definition returned :: "addr list \<Rightarrow> error option \<Rightarrow> addr list result" where
  "returned as er = (case er of None \<Rightarrow> Inr as | Some e \<Rightarrow> Inl e)"

text \<open>A handler after a stage, in the state of the program.\<close>

definition put :: "nat \<Rightarrow> 'lvl handling \<Rightarrow> 'lvl stage \<times> writer \<times> Proxy \<Rightarrow> 'lvl running \<Rightarrow> 'lvl running" where
  "put j h res s =
     (case res of (stg, w, p) \<Rightarrow>
        s\<lparr>rn_conns := (rn_conns s)\<lparr>cn_proxy := p\<rparr>, rn_handlers := (rn_handlers s)[j := h\<lparr>ha_stage := stg, ha_writer := w\<rparr>],
          rn_sent := rn_sent s @ contacts (ha_request h) (ha_stage h) stg\<rparr>)"

inductive run_step ::
  "('lvl, 'op) program \<Rightarrow> 'lvl running \<Rightarrow> 'lvl running \<Rightarrow> bool" for pg where
  watch: "watch_enabled ev now (rn_watch s) \<Longrightarrow>
    run_step pg s (s\<lparr>rn_watch := watch_handle (pg_load pg) (pg_Chmod pg) ev now contents (rn_watch s)\<rparr>)"
| accept: "current s = Some cfg \<Longrightarrow> admit (pg_enabled pg (c_LogLevel cfg)) cfg c now (rn_conns s) = (r, cn) \<Longrightarrow>
    run_step pg s (s\<lparr>rn_conns := cn\<rparr>)"
| close: "i < length (cn_admitted (rn_conns s)) \<Longrightarrow> run_step pg s (s\<lparr>rn_conns := clientConn_Close i now (rn_conns s)\<rparr>)"
| tick: "current s = Some cfg \<Longrightarrow>
    run_step pg s (s\<lparr>rn_conns := (rn_conns s)\<lparr>cn_proxy := maintain_tick (stage_env pg cfg no_answer) now (proxy s)\<rparr>\<rparr>)"
| resolver: "i < length (dr_threads (rn_dns s)) \<Longrightarrow> dr_clock (rn_dns s) \<le> now \<Longrightarrow>
    thread_step (pg_NotFound pg) (pg_answers pg) now (rn_dns s) (dr_threads (rn_dns s) ! i) d t sp \<Longrightarrow>
    run_step pg s (s\<lparr>rn_dns := d\<lparr>dr_threads := (dr_threads (rn_dns s))[i := t] @ sp, dr_clock := now\<rparr>\<rparr>)"
| arrive: "w_status w = None \<Longrightarrow>
    run_step pg s (s\<lparr>rn_handlers := rn_handlers s @ [\<lparr>ha_request = r, ha_stage = Arrived, ha_writer = w\<rparr>]\<rparr>)"
| stage: "j < length (rn_handlers s) \<Longrightarrow> rn_handlers s ! j = h \<Longrightarrow> current s = Some cfg \<Longrightarrow>
    \<not> is_waiting (ha_stage h) \<Longrightarrow> pending_lookup (pg_ctx pg) h = [] \<Longrightarrow>
    mset (nw_order (net :: net_conn network)) = mset (up_pools (px_upstream (proxy s))) \<Longrightarrow>
    run_step pg s
      (put j h (advance (stage_env pg cfg no_answer) net no_answer (ha_request h) now (ha_stage h, ha_writer h, proxy s)) s)"
| ask: "j < length (rn_handlers s) \<Longrightarrow> rn_handlers s ! j = h \<Longrightarrow> ha_stage h = Limited cfg \<Longrightarrow>
    pending_lookup (pg_ctx pg) h = (network, name) # qs \<Longrightarrow>
    run_step pg s
      (s\<lparr>rn_dns := (rn_dns s)\<lparr>dr_threads := dr_threads (rn_dns s) @ [Call (Some (clientAddr (ha_request h))) network name CStart]\<rparr>,
         rn_handlers := (rn_handlers s)[j := h\<lparr>ha_stage := Waiting cfg (length (dr_threads (rn_dns s)))\<rparr>]\<rparr>)"
| answer: "j < length (rn_handlers s) \<Longrightarrow> rn_handlers s ! j = h \<Longrightarrow> current s = Some cfg \<Longrightarrow>
    ha_stage h = Waiting cfg' k \<Longrightarrow> dr_threads (rn_dns s) ! k = Call cl network name (CReturned as er) \<Longrightarrow>
    run_step pg s
      (put j h (advance (stage_env pg cfg no_answer) (net :: net_conn network) (returned as er) (ha_request h) now
         (ha_stage h, ha_writer h, proxy s)) s)"

section \<open>Shared lemmas\<close>

lemma logRejected_upstream [simp]: "px_upstream (logRejected enabled p client subnet reason now) = px_upstream p"
  by (auto simp: logRejected_def emit_def Let_def split: prod.splits if_splits)

lemma admit_upstream: "admit enabled cfg c now s = (r, s') \<Longrightarrow> px_upstream (cn_proxy s') = px_upstream (cn_proxy s)"
  by (auto simp: admit_def Let_def split: option.splits prod.splits sum.splits)

lemma close_upstream: "px_upstream (cn_proxy (clientConn_Close i now s)) = px_upstream (cn_proxy s)"
  by (simp add: clientConn_Close_def Let_def split: prod.splits)

lemma foldl_upstream: "px_upstream (foldl (\<lambda>q s. emit_line enabled (summary_line cfg s) q) p out) = px_upstream p"
  by (induction out arbitrary: p) (simp_all add: emit_line_def)

text \<open>The rules that a configuration was compiled from, in a file that was read.\<close>

definition rules_of :: "re_engine \<Rightarrow> yaml_decoder \<Rightarrow> 'lvl Config \<Rightarrow> SubnetSpec list \<Rightarrow> bool" where
  "rules_of re yaml cfg specs \<longleftrightarrow>
     (\<exists>data f. yaml list_UnmarshalYAML duration_UnmarshalYAML data = (DecOk f, DecEOF) \<and> specs = map subnet_spec (f_Subnets f)) \<and>
     Policy_New re specs = Inr (c_Policy cfg)"

lemma Config_Load_rules: "Config_Load re zl yaml contents = Inr cfg \<Longrightarrow> \<exists>specs. rules_of re yaml cfg specs"
  unfolding rules_of_def Config_Load_def rbind_Inr_iff using Config_of_file_Inr(4) by (metis Config_Parse_Inr)

lemma watch_handle_cur:
  assumes "st_cur (w_store (watch_handle load chmod ev now contents w)) = Some cfg" "\<And>c. load contents = Inr c \<Longrightarrow> P c" "\<And>c. st_cur (w_store w) = Some c \<Longrightarrow> P c"
  shows "P cfg"
  using assms by (cases ev) (auto simp: watch_handle_def Reload_def split: if_splits sum.splits)

lemma watch_handle_cur_Some: "st_cur (w_store w) \<noteq> None \<Longrightarrow> st_cur (w_store (watch_handle load chmod ev now contents w)) \<noteq> None"
  by (cases ev) (auto simp: watch_handle_def Reload_def split: sum.splits)

lemma run_serving:
  assumes "run fl se = Serving w"
  obtains s where "NewStore (se_load se) (se_Getwd se) (fl_config fl) True (se_contents se) = (None, Some s)" "w = watch_init s"
  using assms by (auto simp: run_def Store_Watch_def split: if_splits prod.splits option.splits)

lemma run_not_nil: "run fl se \<noteq> NilStore"
  by (auto simp: run_def NewStore_def Store_Watch_def split: if_splits prod.splits option.splits sum.splits)

section \<open>What the stages keep\<close>

lemma lookups_name:
  assumes "lookups cfg c r host port = (network, name) # qs"
  shows "network = ''ip''" "\<exists>dst. parseHost host = Inr dst \<and> name = dst_name dst"
  using assms
  by (auto simp: lookups_def Subnet_Check_def resolve_def Let_def split: option.splits sum.splits if_splits prod.splits)

text \<open>
  A destination that may be contacted: the rules of the configuration allow it, it is the one the request names, and its
  addresses are the literal one or those of an answer of the resolver for exactly this name.
\<close>

definition from_answer :: "(string \<Rightarrow> string \<Rightarrow> addr list \<Rightarrow> error option \<Rightarrow> bool) \<Rightarrow> vetted \<Rightarrow> bool" where
  "from_answer answers v \<longleftrightarrow>
     (\<exists>dst. parseHost (v_host v) = Inr dst \<and>
        (if dst_name dst = [] then v_addrs v = [dst_addr dst]
         else \<exists>as. answers ''ip'' (dst_name dst) as None \<and> mapM usable_addr as = Inr (v_addrs v)))"

definition contact_ok ::
  "re_engine \<Rightarrow> yaml_decoder \<Rightarrow> ('lvl, 'op) program \<Rightarrow>
   'lvl Config \<times> request \<times> addr list result \<times> vetted \<Rightarrow> bool" where
  "contact_ok re yaml pg x =
     (case x of (cfg, r, a, v) \<Rightarrow>
        (\<exists>specs. rules_of re yaml cfg specs \<and> approved specs (stage_env pg cfg a) r () v) \<and>
        check_target r = Some (v_host v, itoa (unat (v_port v))) \<and> vetted_wf v \<and> from_answer (pg_answers pg) v)"

text \<open>An answer for the name of a request, if it has one.\<close>

definition answer_for :: "(string \<Rightarrow> string \<Rightarrow> addr list \<Rightarrow> error option \<Rightarrow> bool) \<Rightarrow> string \<Rightarrow> addr list result \<Rightarrow> bool" where
  "answer_for answers host a \<longleftrightarrow>
     (\<forall>dst as. parseHost host = Inr dst \<longrightarrow> a = Inr as \<longrightarrow> answers ''ip'' (dst_name dst) as None)"

lemma decide_contact:
  assumes "rules_of re yaml cfg specs" "check_target r = Some (host, port)" "d_Allow (decide cfg (pg_ctx pg) a r host port)"
    and "d = decide cfg (pg_ctx pg) a r host port" "answer_for (pg_answers pg) host a"
  shows "contact_ok re yaml pg (cfg, r, a, \<lparr>v_host = host, v_port = d_Port d, v_addrs = d_Addrs d, v_idle = idle\<rparr>)"
proof -
  let ?v = "\<lparr>v_host = host, v_port = d_Port d, v_addrs = d_Addrs d, v_idle = idle\<rparr>" and ?env = "stage_env pg cfg a"
  obtain i where i: "SubnetOf (c_Policy (he_config ?env)) (clientAddr r) = Some i"
    using assms(3) by (cases "SubnetOf (c_Policy cfg) (clientAddr r)") (auto simp: decide_def reason_decision_def stage_env_def)
  have pol: "Policy_New re specs = Inr (c_Policy (he_config ?env))" using assms(1) by (simp add: rules_of_def stage_env_def)
  obtain st' where chk: "Subnet_Check (p_subnets (c_Policy (he_config ?env)) ! i) (WithClient (he_ctx ?env) (clientAddr r)) (he_resolver ?env) host port () = (d, st')"
    using assms(4) i by (cases "Subnet_Check (p_subnets (c_Policy cfg) ! i) (WithClient (pg_ctx pg) (clientAddr r)) (\<lambda>_ _ _ st. (a, st)) host port ()")
      (auto simp: decide_def stage_env_def)
  have al: "d_Allow d" using assms(3,4) by simp
  note v = Subnet_Check_vetted [OF pol i chk al refl, where idle = idle]
  from v(5) obtain dst where dst: "parseHost host = Inr dst"
    "dest_addrs (WithClient (he_ctx ?env) (clientAddr r)) (he_resolver ?env) dst () = (Inr (d_Addrs d), st')" by auto
  have "if dst_name dst = [] then d_Addrs d = [dst_addr dst] else \<exists>as. a = Inr as \<and> mapM usable_addr as = Inr (d_Addrs d)"
    using dst(2) by (auto simp: dest_addrs_def resolve_def stage_env_def split: sum.splits if_splits)
  then have "from_answer (pg_answers pg) ?v" using dst(1) assms(5) by (auto simp: from_answer_def answer_for_def split: if_splits)
  then show ?thesis using v(1-3) assms(1,2) by (auto simp: contact_ok_def)
qed

section \<open>Threads of the cache\<close>

fun thread_net :: "thread \<Rightarrow> string" where
  "thread_net (Call _ net _ _) = net"
| "thread_net (Run _ net _ _ _ _) = net"

definition ip_answers :: "(string \<Rightarrow> string \<Rightarrow> addr list \<Rightarrow> error option \<Rightarrow> bool) \<Rightarrow> string \<Rightarrow> string \<Rightarrow> addr list \<Rightarrow> error option \<Rightarrow> bool" where
  "ip_answers answers net host as er \<longleftrightarrow> net = ''ip'' \<and> answers net host as er"

lemma thread_step_ip:
  "thread_step nf answers now r t r' t' sp \<Longrightarrow> thread_net t = ''ip'' \<Longrightarrow> thread_step nf (ip_answers answers) now r t r' t' sp"
proof (induction rule: thread_step.induct)
  case (run_answer net host addrs err key f s)
  then show ?case by (intro thread_step.run_answer) (simp add: ip_answers_def)
qed (blast intro: thread_step.intros)+

lemma thread_step_net:
  "thread_step nf answers now r t r' t' sp \<Longrightarrow> thread_net t = ''ip'' \<Longrightarrow> thread_net t' = ''ip'' \<and> list_all (\<lambda>u. thread_net u = ''ip'') sp"
  by (induction rule: thread_step.induct) auto

text \<open>A call stays the call it is.\<close>

fun call_of :: "thread \<Rightarrow> (string \<times> string) option" where
  "call_of (Call _ net host _) = Some (net, host)"
| "call_of (Run _ _ _ _ _ _) = None"

lemma thread_step_call: "thread_step nf answers now r t r' t' sp \<Longrightarrow> call_of t' = call_of t"
  by (induction rule: thread_step.induct) auto

section \<open>The invariant\<close>

fun stage_ok ::
  "re_engine \<Rightarrow> yaml_decoder \<Rightarrow> ('lvl, 'op) program \<Rightarrow>
   thread list \<Rightarrow> request \<Rightarrow> 'lvl stage \<Rightarrow> bool" where
  "stage_ok re yaml pg ts r Arrived \<longleftrightarrow> True"
| "stage_ok re yaml pg ts r (Loaded cfg) \<longleftrightarrow> check_target r \<noteq> None \<and> (\<exists>specs. rules_of re yaml cfg specs)"
| "stage_ok re yaml pg ts r (Limited cfg) \<longleftrightarrow> check_target r \<noteq> None \<and> (\<exists>specs. rules_of re yaml cfg specs)"
| "stage_ok re yaml pg ts r (Waiting cfg k) \<longleftrightarrow> (\<exists>specs. rules_of re yaml cfg specs) \<and> k < length ts \<and>
     (\<exists>host port dst. check_target r = Some (host, port) \<and> parseHost host = Inr dst \<and> call_of (ts ! k) = Some (''ip'', dst_name dst))"
| "stage_ok re yaml pg ts r (Decided cfg d ref a) \<longleftrightarrow>
     (\<exists>host port. check_target r = Some (host, port) \<and>
        (d_Allow d \<longrightarrow> (\<forall>idle. contact_ok re yaml pg (cfg, r, a, \<lparr>v_host = host, v_port = d_Port d, v_addrs = d_Addrs d, v_idle = idle\<rparr>))))"
| "stage_ok re yaml pg ts r (Approved cfg v a) \<longleftrightarrow> contact_ok re yaml pg (cfg, r, a, v)"
| "stage_ok re yaml pg ts r (Sending cfg v tr a) \<longleftrightarrow> contact_ok re yaml pg (cfg, r, a, v)"
| "stage_ok re yaml pg ts r (Answered out) \<longleftrightarrow> True"

lemma stage_ok_threads:
  assumes "stage_ok re yaml pg ts r stg" "length ts \<le> length ts'" "\<And>k. k < length ts \<Longrightarrow> call_of (ts' ! k) = call_of (ts ! k)"
  shows "stage_ok re yaml pg ts' r stg"
  using assms by (cases stg) auto

text \<open>The answer fits the request whenever the stage uses it.\<close>

definition answer_ok :: "(string \<Rightarrow> string \<Rightarrow> addr list \<Rightarrow> error option \<Rightarrow> bool) \<Rightarrow> request \<Rightarrow> addr list result \<Rightarrow> bool" where
  "answer_ok answers r a \<longleftrightarrow> (\<forall>host port. check_target r = Some (host, port) \<longrightarrow> answer_for answers host a)"

lemma no_answer_ok: "answer_ok answers r no_answer"
  by (simp add: answer_ok_def answer_for_def no_answer_def)

lemma decide_ok:
  assumes "rules_of re yaml cfg specs" "check_target r = Some (host, port)" "answer_ok (pg_answers pg) r ans"
  shows "stage_ok re yaml pg ts r (Decided cfg (decide cfg (pg_ctx pg) ans r host port) Blocked ans)"
  using assms decide_contact [OF assms(1,2), of pg ans] by (simp add: answer_ok_def)

lemma advance_ok:
  assumes "stage_ok re yaml pg ts r stg" "rules_of re yaml (he_config env) specs" "he_ctx env = pg_ctx pg" "answer_ok (pg_answers pg) r ans"
    and "advance env net ans r now (stg, w, p) = (stg', w', p')"
  shows "stage_ok re yaml pg ts r stg' \<and> list_all (contact_ok re yaml pg) (contacts r stg stg')"
proof (cases stg)
  case Arrived
  then show ?thesis using assms(2,5) by (auto split: if_splits prod.splits)
next
  case (Loaded cfg)
  then show ?thesis using assms(1,5) by (auto simp: reason_decision_def split: prod.splits)
next
  case (Limited cfg)
  then show ?thesis using assms(1,3,5) decide_ok [OF _ _ assms(4), where cfg = cfg] by auto
next
  case (Waiting cfg k)
  then show ?thesis using assms(1,3,5) decide_ok [OF _ _ assms(4), where cfg = cfg] by auto
next
  case (Decided cfg d ref a)
  then show ?thesis using assms(1,5) by (auto simp: Let_def split: if_splits)
next
  case (Approved cfg v a)
  then show ?thesis using assms(1,5) by (auto split: if_splits prod.splits sum.splits)
next
  case (Sending cfg v tr a)
  then show ?thesis using assms(5) by (auto split: prod.splits)
qed (use assms(5) in auto)

lemma advance_limits:
  assumes "advance env net ans r now (stg, w, p) = (stg', w', p')" "limits_inv (px_clients p, fs)"
  shows "limits_inv (px_clients p', fs)"
  using assms
  by (cases stg) (auto simp: serveOther_def proxy_tunnel_def badGateway_def forward_response_def Let_def
      intro: Allow_inv intro!: logDecision_inv logUpstreamError_inv split: if_splits prod.splits sum.splits option.splits)

lemma advance_pools:
  assumes "advance env net ans r now (stg, w, p) = (stg', w', p')" "stage_ok re yaml pg ts r stg"
    and "pools_reach (px_upstream p)" "is_waiting stg \<or> mset (nw_order net) = mset (up_pools (px_upstream p))"
  shows "pools_reach (px_upstream p')"
proof (cases stg)
  case (Approved cfg v a)
  show ?thesis
  proof (cases "rq_Method r = ''CONNECT'' \<or> v_addrs v = []")
    case True
    then show ?thesis using assms(1,3) Approved
      by (auto simp: proxy_tunnel_def badGateway_def Let_def split: if_splits prod.splits sum.splits)
  next
    case False
    have v: "vetted_wf v" "check_target r = Some (v_host v, itoa (unat (v_port v)))" using assms(2) Approved by (simp_all add: contact_ok_def)
    have "CHR ''|'' \<notin> set (rq_Scheme r)" using check_target_plain(1) [OF _ v(2)] False by auto
    from pools_reach.use [OF assms(3) v(1) this, of "nw_order net" now] show ?thesis
      using assms(1,4) Approved False by (auto split: prod.splits)
  qed
qed (use assms(1,3) in \<open>auto simp: serveOther_def badGateway_def forward_response_def Let_def split: if_splits prod.splits sum.splits option.splits\<close>)

definition system_inv :: "re_engine \<Rightarrow> yaml_decoder \<Rightarrow> ('lvl, 'op) program \<Rightarrow> 'lvl running \<Rightarrow> bool" where
  "system_inv re yaml pg s \<longleftrightarrow>
     current s \<noteq> None \<and> (\<forall>cfg. current s = Some cfg \<longrightarrow> (\<exists>specs. rules_of re yaml cfg specs)) \<and>
     conns_inv (rn_conns s) \<and> pools_reach (px_upstream (proxy s)) \<and>
     dns_inv (pg_NotFound pg) (ip_answers (pg_answers pg)) (rn_dns s) \<and> list_all (\<lambda>t. thread_net t = ''ip'') (dr_threads (rn_dns s)) \<and>
     list_all (\<lambda>h. stage_ok re yaml pg (dr_threads (rn_dns s)) (ha_request h) (ha_stage h)) (rn_handlers s) \<and>
     list_all (contact_ok re yaml pg) (rn_sent s)"

lemma list_all_update: "list_all P xs \<Longrightarrow> P x \<Longrightarrow> list_all P (xs[i := x])"
  by (auto simp: list_all_iff dest!: set_update_subset_insert [THEN subsetD])

text \<open>A stage keeps the invariant, given an answer that fits.\<close>

lemma put_inv:
  assumes "system_inv re yaml pg s" "j < length (rn_handlers s)" "rn_handlers s ! j = h" "current s = Some cfg"
    and "answer_ok (pg_answers pg) (ha_request h) ans"
    and "is_waiting (ha_stage h) \<or> mset (nw_order net) = mset (up_pools (px_upstream (proxy s)))"
  shows "system_inv re yaml pg
    (put j h (advance (stage_env pg cfg no_answer) net ans (ha_request h) now (ha_stage h, ha_writer h, proxy s)) s)"
proof -
  let ?r = "ha_request h" and ?ts = "dr_threads (rn_dns s)"
  obtain stg w p where a: "advance (stage_env pg cfg no_answer) net ans ?r now (ha_stage h, ha_writer h, proxy s) = (stg, w, p)"
    by (metis prod_cases3)
  obtain specs where sp: "rules_of re yaml (he_config (stage_env pg cfg no_answer)) specs"
    using assms(1,4) by (auto simp: system_inv_def stage_env_def)
  have ok: "stage_ok re yaml pg ?ts ?r (ha_stage h)"
    using assms(1-3) by (auto simp: system_inv_def list_all_length)
  note keep = advance_ok [OF ok sp _ assms(5) a] advance_limits [OF a] advance_pools [OF a ok _ assms(6)]
  show ?thesis using assms(1) keep(1) keep(2) [of "map cc_release (cn_admitted (rn_conns s))"] keep(3)
    unfolding a put_def by (simp add: system_inv_def stage_env_def conns_inv_def list_all_update)
qed

text \<open>What the call of a waiting handler returned fits its request.\<close>

lemma returned_ok:
  assumes "system_inv re yaml pg s" "j < length (rn_handlers s)" "rn_handlers s ! j = h" "ha_stage h = Waiting cfg k"
    and "dr_threads (rn_dns s) ! k = Call cl network name (CReturned as er)"
  shows "answer_ok (pg_answers pg) (ha_request h) (returned as er)"
proof -
  have "stage_ok re yaml pg (dr_threads (rn_dns s)) (ha_request h) (ha_stage h)"
    using assms(1-3) by (auto simp: system_inv_def list_all_length)
  then obtain host port dst where t: "check_target (ha_request h) = Some (host, port)" "parseHost host = Inr dst"
      "network = ''ip''" "name = dst_name dst" "k < length (dr_threads (rn_dns s))"
    using assms(4,5) by auto
  have mem: "Call cl ''ip'' name (CReturned as er) \<in> set (dr_threads (rn_dns s))" using t(3,5) assms(5) nth_mem by metis
  have "pg_answers pg ''ip'' name as None" if "er = None"
    using returned_answer [OF _ mem] assms(1) that dns_key_inject [of "''ip''" "''ip''"]
    by (fastforce simp: system_inv_def ip_answers_def)
  then show ?thesis using t by (auto simp: answer_ok_def answer_for_def returned_def split: option.splits)
qed

lemma ask_inv:
  assumes "system_inv re yaml pg s" "j < length (rn_handlers s)" "rn_handlers s ! j = h" "ha_stage h = Limited cfg"
    and "pending_lookup (pg_ctx pg) h = (network, name) # qs"
  shows "system_inv re yaml pg
    (s\<lparr>rn_dns := (rn_dns s)\<lparr>dr_threads := dr_threads (rn_dns s) @ [Call c network name CStart]\<rparr>,
       rn_handlers := (rn_handlers s)[j := h\<lparr>ha_stage := Waiting cfg (length (dr_threads (rn_dns s)))\<rparr>]\<rparr>)"
proof -
  let ?ts = "dr_threads (rn_dns s)" and ?ts' = "dr_threads (rn_dns s) @ [Call c network name CStart]"
  have "stage_ok re yaml pg ?ts (ha_request h) (ha_stage h)" using assms(1-3) by (auto simp: system_inv_def list_all_length)
  then obtain host port where t: "check_target (ha_request h) = Some (host, port)" "\<exists>specs. rules_of re yaml cfg specs"
    using assms(4) by auto
  have "lookups cfg (pg_ctx pg) (ha_request h) host port = (network, name) # qs"
    using assms(4,5) t(1) by (simp add: pending_lookup_def)
  note q = lookups_name [OF this]
  have "stage_ok re yaml pg ?ts' (ha_request h) (Waiting cfg (length ?ts))" using t q by auto
  moreover have "list_all (\<lambda>h. stage_ok re yaml pg ?ts' (ha_request h) (ha_stage h)) (rn_handlers s)"
    using assms(1) by (auto simp: system_inv_def list_all_iff nth_append intro: stage_ok_threads)
  moreover have "dns_inv (pg_NotFound pg) (ip_answers (pg_answers pg)) ((rn_dns s)\<lparr>dr_threads := ?ts'\<rparr>)"
    using assms(1) by (intro dns_inv_step [OF dns_step.lookup]) (simp add: system_inv_def)
  ultimately show ?thesis using assms(1) q(1) by (simp add: system_inv_def list_all_update)
qed

lemma resolver_inv:
  assumes "system_inv re yaml pg s" "i < length (dr_threads (rn_dns s))" "dr_clock (rn_dns s) \<le> now"
    and "thread_step (pg_NotFound pg) (pg_answers pg) now (rn_dns s) (dr_threads (rn_dns s) ! i) d t sp"
  shows "system_inv re yaml pg (s\<lparr>rn_dns := d\<lparr>dr_threads := (dr_threads (rn_dns s))[i := t] @ sp, dr_clock := now\<rparr>\<rparr>)"
proof -
  let ?ts = "dr_threads (rn_dns s)"
  have net: "thread_net (?ts ! i) = ''ip''" using assms(1,2) by (auto simp: system_inv_def list_all_length)
  have "dns_inv (pg_NotFound pg) (ip_answers (pg_answers pg)) (d\<lparr>dr_threads := ?ts[i := t] @ sp, dr_clock := now\<rparr>)"
    using assms(1) by (intro dns_inv_step [OF dns_step.thread [OF assms(2,3) thread_step_ip [OF assms(4) net]]]) (simp add: system_inv_def)
  moreover have "call_of ((?ts[i := t] @ sp) ! k) = call_of (?ts ! k)" if "k < length ?ts" for k
    using that thread_step_call [OF assms(4)] by (cases "k = i") (simp_all add: nth_append)
  then have "list_all (\<lambda>h. stage_ok re yaml pg (?ts[i := t] @ sp) (ha_request h) (ha_stage h)) (rn_handlers s)"
    using assms(1) by (auto simp: system_inv_def list_all_iff intro: stage_ok_threads)
  ultimately show ?thesis using assms(1) thread_step_net [OF assms(4) net] by (simp add: system_inv_def list_all_update)
qed

lemma watch_inv:
  assumes "system_inv re yaml pg s" "pg_load pg = Config_Load re zl yaml"
  shows "system_inv re yaml pg (s\<lparr>rn_watch := watch_handle (pg_load pg) (pg_Chmod pg) ev now contents (rn_watch s)\<rparr>)"
proof -
  let ?w = "watch_handle (pg_load pg) (pg_Chmod pg) ev now contents (rn_watch s)"
  have "st_cur (w_store ?w) \<noteq> None" using assms(1) by (intro watch_handle_cur_Some) (auto simp: system_inv_def Current_def)
  moreover have "\<exists>specs. rules_of re yaml cfg specs" if "st_cur (w_store ?w) = Some cfg" for cfg
    using that Config_Load_rules assms
    by (elim watch_handle_cur [where P = "\<lambda>cfg. \<exists>specs. rules_of re yaml cfg specs"]) (auto simp: system_inv_def Current_def)
  ultimately show ?thesis using assms(1) by (auto simp: system_inv_def Current_def)
qed

lemma tick_inv:
  assumes "system_inv re yaml pg s"
  shows "system_inv re yaml pg (s\<lparr>rn_conns := (rn_conns s)\<lparr>cn_proxy := maintain_tick env now (proxy s)\<rparr>\<rparr>)"
proof -
  have "px_upstream (maintain_tick env now p) = upstream_sweep now (px_upstream p)" for p
    by (simp add: maintain_tick_def proxy_sweep_def foldl_upstream Let_def split: prod.splits)
  moreover have "px_clients (maintain_tick env now p) = px_clients (proxy_sweep (he_enabled env) (he_config env) p now)" for p
    by (simp add: maintain_tick_def Let_def)
  ultimately show ?thesis using assms by (simp add: system_inv_def conns_inv_def proxy_sweep_inv pools_reach.swept)
qed

lemma run_step_inv:
  assumes "run_step pg s s'" "system_inv re yaml pg s" "pg_load pg = Config_Load re zl yaml"
  shows "system_inv re yaml pg s'"
  using assms(1)
proof (cases rule: run_step.cases)
  case (watch ev now contents)
  then show ?thesis using watch_inv assms(2,3) by blast
next
  case (accept cfg c now r cn)
  then show ?thesis using assms(2) admit_inv admit_upstream by (fastforce simp: system_inv_def)
next
  case (close i now)
  then show ?thesis using assms(2) close_inv close_upstream by (simp add: system_inv_def)
next
  case (tick cfg now)
  then show ?thesis using tick_inv assms(2) by blast
next
  case (resolver i now d t sp)
  then show ?thesis using resolver_inv assms(2) by blast
next
  case (arrive w r)
  then show ?thesis using assms(2) by (simp add: system_inv_def)
next
  case (stage j h cfg net now)
  then show ?thesis using put_inv [OF assms(2) stage(2-4) no_answer_ok] by blast
next
  case (ask j h cfg network name qs)
  then show ?thesis using ask_inv assms(2) by blast
next
  case (answer j h cfg cfg' k cl network name as er net now)
  then show ?thesis using put_inv [OF assms(2) answer(2-4) returned_ok [OF assms(2) answer(2,3,5,6)]] by simp
qed

lemma system_start_inv:
  assumes "run fl se = Serving w" "se_load se = Config_Load re zl yaml"
  shows "system_inv re yaml pg (system_start w now)"
proof -
  obtain s where s: "NewStore (se_load se) (se_Getwd se) (fl_config fl) True (se_contents se) = (None, Some s)" "w = watch_init s"
    using assms(1) by (rule run_serving)
  then obtain cfg where "se_load se (se_contents se) = Inr cfg" "st_cur s = Some cfg"
    by (auto simp: NewStore_def Reload_def split: sum.splits)
  moreover have "dr_threads (dns_New now) = []" by (simp add: dns_New_def)
  ultimately show ?thesis using Config_Load_rules assms(2) s(2) pools_reach.new dns_inv_New
    by (auto simp: system_inv_def system_start_def watch_init_def Current_def conns_inv_def proxy_New_def limits_inv_init)
qed

text \<open>The states from which a program that loads this way may serve.\<close>

definition serving :: "('lvl, 'op) program \<Rightarrow> 'lvl running \<Rightarrow> bool" where
  "serving pg s \<longleftrightarrow> (\<exists>fl se w now. run fl se = Serving w \<and> se_load se = pg_load pg \<and> s = system_start w now)"

interpretation program_machine: step_invariant "run_step pg" "serving pg" "\<lambda>s. pg_load pg = Config_Load re zl yaml \<longrightarrow> system_inv re yaml pg s"
  for pg re zl yaml
  by unfold_locales (auto simp: serving_def intro: system_start_inv run_step_inv)

section \<open>Properties\<close>

text \<open>
  C1.  The running program, from its start and under any interleaving.  It serves only when its flags are valid, the file compiled, the
  watcher is set up and the listener is open, and starting it never panics on a missing store.  However reloads (of good and
  bad files), accepted and closed connections, the stages of concurrent requests, the threads of the DNS cache and maintenance ticks
  are interleaved: some configuration is active, and its policy is compiled from the rules of a file that was read; every
  destination that was ever contacted is the host and port that its request names, and was allowed by the rules of the configuration
  that the request loaded, with only undenied addresses that are public or explicitly allowed; these addresses are the
  literal one of the request, or exactly those of an answer that the resolver behind the cache gave for this name; the number of slots
  taken is the number of open connections; and there are at most 1024 pools, with distinct keys, and 10000 cached names.
\<close>

theorem system_sound:
  assumes "run fl se = Serving w" "se_load se = Config_Load re zl yaml" "pg_load pg = se_load se"
    and "(run_step pg)\<^sup>*\<^sup>* (system_start w now0) s"
  shows "(\<exists>cfg specs. current s = Some cfg \<and> rules_of re yaml cfg specs) \<and>
    (\<forall>(cfg, r, a, v) \<in> set (rn_sent s).
       (\<exists>specs. rules_of re yaml cfg specs \<and> approved specs (stage_env pg cfg a) r () v) \<and>
       check_target r = Some (v_host v, itoa (unat (v_port v))) \<and>
       (\<exists>dst. parseHost (v_host v) = Inr dst \<and>
          (if dst_name dst = [] then v_addrs v = [dst_addr dst]
           else \<exists>as. pg_answers pg ''ip'' (dst_name dst) as None \<and> mapM usable_addr as = Inr (v_addrs v)))) \<and>
    tr_total (px_clients (proxy s)) = int (length (open_conns (rn_conns s))) \<and>
    length (up_pools (px_upstream (proxy s))) \<le> 1024 \<and> distinct (map fst (up_pools (px_upstream (proxy s)))) \<and>
    length (dr_entries (rn_dns s)) \<le> 10000 \<and>
    \<not> fl_version fl \<and> fl_logFormat fl \<in> {''json'', ''console''} \<and> se_NewWatcher se = None \<and> se_Listen se (fl_listen fl) = None \<and>
    main_exit (run fl' (se' :: 'lvl start_env)) err \<le> 1"
proof -
  have load: "pg_load pg = Config_Load re zl yaml" using assms(2,3) by simp
  have "serving pg (system_start w now0)" using assms(1,3) by (auto simp: serving_def)
  then have "system_inv re yaml pg s" using program_machine.holds_after [OF assms(4)] load by blast
  then have inv: "current s \<noteq> None" "\<forall>cfg. current s = Some cfg \<longrightarrow> (\<exists>specs. rules_of re yaml cfg specs)"
      "limits_inv (px_clients (proxy s), map cc_release (cn_admitted (rn_conns s)))"
      "pools_inv (px_upstream (proxy s))" "cache_inv (pg_NotFound pg) (rn_dns s)" "list_all (contact_ok re yaml pg) (rn_sent s)"
    using pools_reach_inv by (auto simp: system_inv_def conns_inv_def dns_inv_def)
  have "tr_total (px_clients (proxy s)) = int (length (open_conns (rn_conns s)))"
    using tracker_slots.total [OF inv(3)] by (simp add: filter_map o_def open_conns_def)
  moreover have "\<not> fl_version fl \<and> fl_logFormat fl \<in> {''json'', ''console''} \<and> se_NewWatcher se = None \<and> se_Listen se (fl_listen fl) = None"
    using assms(1) by (auto simp: run_def Store_Watch_def split: if_splits prod.splits option.splits)
  moreover have "main_exit (run fl' se') err \<le> 1"
    using run_not_nil [of fl' se'] by (cases "run fl' se'") (auto simp: main_exit_def split: option.splits)
  moreover have "length (up_pools (px_upstream (proxy s))) \<le> 1024 \<and> distinct (map fst (up_pools (px_upstream (proxy s)))) \<and> length (dr_entries (rn_dns s)) \<le> 10000"
    using inv(4,5) by (simp add: pools_inv_def maxUpstreamPools_def cache_inv_def maxEntries_def)
  moreover have "\<forall>(cfg, r, a, v) \<in> set (rn_sent s).
       (\<exists>specs. rules_of re yaml cfg specs \<and> approved specs (stage_env pg cfg a) r () v) \<and>
       check_target r = Some (v_host v, itoa (unat (v_port v))) \<and>
       (\<exists>dst. parseHost (v_host v) = Inr dst \<and>
          (if dst_name dst = [] then v_addrs v = [dst_addr dst]
           else \<exists>as. pg_answers pg ''ip'' (dst_name dst) as None \<and> mapM usable_addr as = Inr (v_addrs v)))"
    using inv(6) by (fastforce simp: list_all_iff contact_ok_def from_answer_def)
  ultimately show ?thesis using inv(1,2) by auto
qed

text \<open>The example configuration, one tunnel to a name that is looked up.\<close>

definition demo_start :: "int start_env" where
  "demo_start = \<lparr>se_load = demo_load, se_Getwd = Inr ''/'', se_contents = Inr [], se_NewWatcher = None, se_Add = (\<lambda>_. None), se_Listen = (\<lambda>_. None)\<rparr>"

definition demo_flags :: flags where
  "demo_flags = \<lparr>fl_config = ''/etc//x/../proxy.yml'', fl_listen = '':3128'', fl_logFormat = ''json'', fl_version = False\<rparr>"

definition demo_program :: "(int, char) program" where
  "demo_program = \<lparr>pg_load = demo_load, pg_Chmod = CHR ''m'', pg_enabled = (\<lambda>_ _. True), pg_ctx = demo_ctx, pg_NotFound = (\<lambda>_. False), pg_answers = demo_answers\<rparr>"

lemma demo_started: "run demo_flags demo_start = Serving (watch_init demo_store)"
  using demo_store_new by (simp add: run_def demo_flags_def demo_start_def Store_Watch_def)

text \<open>The states of the run: one handler, and the cache.\<close>

definition demo_handler :: "int stage \<Rightarrow> int handling" where
  "demo_handler stg = \<lparr>ha_request = demo_request, ha_stage = stg, ha_writer = demo_writer\<rparr>"

definition demo_running :: "Proxy \<Rightarrow> Resolver \<Rightarrow> int stage \<Rightarrow> (int Config \<times> request \<times> addr list result \<times> vetted) list \<Rightarrow> int running" where
  "demo_running p r stg sent =
     \<lparr>rn_watch = watch_init demo_store, rn_conns = \<lparr>cn_proxy = p, cn_admitted = [], cn_closed = []\<rparr>, rn_dns = r,
      rn_handlers = [demo_handler stg], rn_sent = sent\<rparr>"

definition demo_reached :: "Proxy \<Rightarrow> Resolver \<Rightarrow> int stage \<Rightarrow> (int Config \<times> request \<times> addr list result \<times> vetted) list \<Rightarrow> bool" where
  "demo_reached p r stg sent \<longleftrightarrow>
     (run_step demo_program)\<^sup>*\<^sup>* (system_start (watch_init demo_store) 0) (demo_running p r stg sent)"

definition demo_net :: "net_conn network" where
  "demo_net = \<lparr>nw_Hijacker = True, nw_Hijack = Inr 0, nw_buffered = Inr [], nw_dial = (\<lambda>v a. Inl errNotVetted),
     nw_err200 = None, nw_errEarly = None, nw_RoundTrip = (\<lambda>_ _. Inl errNotVetted), nw_order = [], nw_body = [], nw_bodyErr = None\<rparr>"

lemma demo_current: "current (demo_running p r stg sent) = Some demo_config"
  by (simp add: demo_running_def watch_init_def Current_def demo_store_def)

lemma demo_arrives: "demo_reached proxy_New (dns_New 0) Arrived []"
  using run_step.arrive [of demo_writer demo_program "system_start (watch_init demo_store) 0" demo_request]
  by (auto simp: demo_reached_def demo_running_def system_start_def demo_writer_def demo_handler_def)

lemma demo_stage:
  assumes "demo_reached p r stg sent" "\<not> is_waiting stg" "pending_lookup demo_ctx (demo_handler stg) = []" "up_pools (px_upstream p) = []"
    and "advance (stage_env demo_program demo_config no_answer) demo_net no_answer demo_request 0 (stg, demo_writer, p) = (stg', demo_writer, p')"
  shows "demo_reached p' r stg' (sent @ contacts demo_request stg stg')"
  using run_step.stage [of 0 "demo_running p r stg sent" "demo_handler stg" demo_config demo_program demo_net 0] assms demo_current [of p r stg sent]
  by (auto simp: demo_reached_def demo_running_def demo_handler_def demo_program_def demo_net_def put_def intro: rtranclp.rtrancl_into_rtrancl)

lemma demo_thread:
  assumes "demo_reached p r stg sent" "thread_step (\<lambda>_. False) demo_answers 0 r (dr_threads r ! i) d t sp" "i < length (dr_threads r)" "dr_clock r \<le> 0"
  shows "demo_reached p (d\<lparr>dr_threads := (dr_threads r)[i := t] @ sp, dr_clock := 0\<rparr>) stg sent"
  using run_step.resolver [of i "demo_running p r stg sent" 0 demo_program d t sp] assms
  by (auto simp: demo_reached_def demo_running_def demo_program_def intro: rtranclp.rtrancl_into_rtrancl)

lemma demo_asks:
  assumes "demo_reached p r (Limited cfg) sent" "pending_lookup demo_ctx (demo_handler (Limited cfg)) = [(network, name)]"
  shows "demo_reached p (r\<lparr>dr_threads := dr_threads r @ [Call (Some (clientAddr demo_request)) network name CStart]\<rparr>) (Waiting cfg (length (dr_threads r))) sent"
  using run_step.ask [of 0 "demo_running p r (Limited cfg) sent" "demo_handler (Limited cfg)" cfg demo_program network name "[]"] assms
  by (auto simp: demo_reached_def demo_running_def demo_handler_def demo_program_def intro: rtranclp.rtrancl_into_rtrancl)

lemma demo_answered:
  assumes "demo_reached p r (Waiting demo_config k) sent" "dr_threads r ! k = Call cl network name (CReturned as er)"
    and "advance (stage_env demo_program demo_config no_answer) demo_net (returned as er) demo_request 0 (Waiting demo_config k, demo_writer, p) = (stg', demo_writer, p')"
  shows "demo_reached p' r stg' sent"
  using run_step.answer [of 0 "demo_running p r (Waiting demo_config k) sent" "demo_handler (Waiting demo_config k)" demo_config demo_config k cl network name as er demo_program demo_net 0]
    assms demo_current [of p r "Waiting demo_config k" sent]
  by (auto simp: demo_reached_def demo_running_def demo_handler_def demo_program_def demo_net_def put_def intro: rtranclp.rtrancl_into_rtrancl)

lemmas dns_eval = dns_New_def findLocked_def found_def dns_key_def enter_client_def sem_send_def maxPerClient_def start_flight_def set_flight_def
  maxConcurrent_def dns_store_def entry_of_def make_space_def maxEntries_def demo_answers_def

text \<open>A lookup by the only client, from its call to its return.\<close>

lemma demo_lookup:
  assumes "demo_reached p ((dns_New 0)\<lparr>dr_threads := [Call (Some c) ''ip'' name CStart]\<rparr>) stg sent"
  obtains r where "demo_reached p r stg sent" "dr_threads r ! 0 = Call (Some c) ''ip'' name (CReturned [Addr4 0x08080808] None)"
proof -
  note q1 = assms [unfolded dns_eval, simplified]
  note q2 = demo_thread [OF q1, where i = 0, simplified, OF thread_step.find, simplified dns_eval, simplified]
  note q3 = demo_thread [OF q2, where i = 0, simplified, OF thread_step.enter [OF surjective_pairing], simplified dns_eval Let_def, simplified]
  note q4 = demo_thread [OF q3, where i = 0, simplified, OF thread_step.acquired, simplified dns_eval Let_def, simplified]
  note q5 = demo_thread [OF q4, where i = 0, simplified, OF thread_step.start [OF _ surjective_pairing], simplified dns_eval Let_def, simplified]
  note q6 = demo_thread [OF q5, where i = 1, simplified, OF thread_step.run_slot, simplified dns_eval Let_def, simplified]
  note q7 = demo_thread [OF q6, where i = 1, simplified, OF thread_step.run_answer [of demo_answers _ _ "[Addr4 0x08080808]" None], simplified dns_eval Let_def, simplified]
  note q8 = demo_thread [OF q7, where i = 1, simplified, OF thread_step.run_free, simplified dns_eval Let_def, simplified]
  note q9 = demo_thread [OF q8, where i = 1, simplified, OF thread_step.run_store [of 0 0 _ "[]"], simplified dns_eval Let_def, simplified]
  note q10 = demo_thread [OF q9, where i = 1, simplified, OF thread_step.run_delete, simplified dns_eval Let_def, simplified]
  note q11 = demo_thread [OF q10, where i = 1, simplified, OF thread_step.run_close, simplified dns_eval Let_def, simplified]
  note q12 = demo_thread [OF q11, where i = 0, simplified, OF thread_step.wait_done, simplified dns_eval Let_def, simplified]
  show thesis by (rule that [OF q12]) simp
qed


lemma demo_target: "check_target demo_request = Some (''www.example.com'', ''443'')"
  by (simp add: check_target_def demo_request_def eval_simps)

lemma demo_pending: "pending_lookup demo_ctx (demo_handler (Limited demo_config)) = [(''ip'', ''www.example.com'')]"
  by (simp add: pending_lookup_def demo_handler_def demo_target lookups_def demo_config_def demo_client demo_subnet)
    (simp add: WithClient_def demo_policy_def eval_simps)

lemma demo_decide: "decide demo_config demo_ctx (Inr [Addr4 0x08080808]) demo_request ''www.example.com'' ''443'' = demo_allowed"
  by (simp add: decide_def demo_config_def demo_client demo_subnet)
    (simp add: WithClient_def demo_policy_def demo_allowed_def isPublic_dns eval_simps)

lemma demo_limits: "ClientLimits demo_config (SubnetOf (c_Policy demo_config) (Addr4 0xc0a80107)) = DefaultClientLimits\<lparr>MaxConnections := 8\<rparr>"
  by (simp add: ClientLimits_def demo_config_def demo_subnet)

lemma demo_admitted: "\<exists>t. Allow NewTracker (Addr4 0xc0a80107) (DefaultClientLimits\<lparr>MaxConnections := 8\<rparr>) 0 = (True, t)"
proof -
  have "1 \<le> rnd 1000" by (rule rnd_ge) auto
  then show ?thesis
    by (simp add: Allow_def NewTracker_def tr_get_def tr_find_def new_client_def update_client_def maxClients_def client_zero_def
      DefaultClientLimits_def bucket_take_def bucket_zero_def float_of_int_def to_float_def rnd_float Let_def split: prod.splits)
qed

lemma demo_system:
  obtains p r out where "demo_reached p r (Answered out) [(demo_config, demo_request, Inr [Addr4 0x08080808], demo_tunnelled)]"
proof -
  let ?as = "[Addr4 0x08080808]" and ?pend = "pending_lookup demo_ctx"
  note defs = stage_env_def demo_program_def demo_target demo_client demo_limits
  have pools: "up_pools (px_upstream proxy_New) = []" by (simp add: proxy_New_def newUpstreamPools_def)
  have loaded: "demo_reached proxy_New (dns_New 0) (Loaded demo_config) []"
    using demo_stage [OF demo_arrives _ _ pools] by (simp add: defs pending_lookup_def demo_handler_def)
  obtain t where t: "Allow NewTracker (Addr4 0xc0a80107) (DefaultClientLimits\<lparr>MaxConnections := 8\<rparr>) 0 = (True, t)"
    using demo_admitted by blast
  let ?p = "proxy_New\<lparr>px_clients := t\<rparr>"
  have "px_clients proxy_New = NewTracker" by (simp add: proxy_New_def)
  then have "demo_reached ?p (dns_New 0) (Limited demo_config) []"
    using demo_stage [OF loaded _ _ pools, of "Limited demo_config" ?p] t by (simp add: defs pending_lookup_def demo_handler_def)
  from demo_asks [OF this demo_pending] obtain r where
    r: "demo_reached ?p r (Waiting demo_config 0) []" "dr_threads r ! 0 = Call (Some (Addr4 0xc0a80107)) ''ip'' ''www.example.com'' (CReturned ?as None)"
    by (auto simp: demo_client dns_New_def [THEN arg_cong [of _ _ dr_threads]] elim: demo_lookup)
  have decided: "demo_reached ?p r (Decided demo_config demo_allowed Blocked (Inr ?as)) []"
    using demo_answered [OF r] by (simp add: defs demo_decide returned_def)
  let ?p1 = "logDecision (\<lambda>_. True) ?p (rq_Method demo_request) (Addr4 0xc0a80107) ''www.example.com'' ''443'' demo_allowed 0"
  have approved: "demo_reached ?p1 r (Approved demo_config demo_tunnelled (Inr ?as)) []"
    using demo_stage [OF decided, of "Approved demo_config demo_tunnelled (Inr ?as)" ?p1] pools
    by (simp add: defs pending_lookup_def demo_handler_def Let_def demo_allowed_def demo_tunnelled_def)
  obtain io p2 where "proxy_tunnel (stage_env demo_program demo_config no_answer) demo_request [] demo_tunnelled (Inl errNotVetted :: net_conn result) None None 0 ?p1 = (io, p2)"
    by fastforce
  moreover have "rq_Method demo_request = ''CONNECT''" by (simp add: demo_request_def)
  ultimately have "advance (stage_env demo_program demo_config no_answer) demo_net no_answer demo_request 0
      (Approved demo_config demo_tunnelled (Inr ?as), demo_writer, ?p1) = (Answered (Tunnelled demo_tunnelled io), demo_writer, p2)"
    by (simp add: demo_net_def hijack_def)
  from demo_stage [OF approved _ _ _ this] pools show thesis
    by (intro that) (simp add: pending_lookup_def demo_handler_def)
qed

theorem system_sound_witness:
  "\<exists>specs. rules_of MustCompile demo_yaml demo_config specs \<and>
     approved specs (stage_env demo_program demo_config (Inr [Addr4 0x08080808])) demo_request () demo_tunnelled"
proof -
  obtain p r out where s: "demo_reached p r (Answered out) [(demo_config, demo_request, Inr [Addr4 0x08080808], demo_tunnelled)]"
    by (rule demo_system)
  have "se_load demo_start = Config_Load MustCompile demo_levels demo_yaml" "pg_load demo_program = se_load demo_start"
    by (simp_all add: demo_start_def demo_program_def demo_load_def)
  from system_sound [OF demo_started this s [unfolded demo_reached_def], of demo_flags demo_start "ErrNew []"]
  show ?thesis by (simp add: demo_running_def)
qed

end
