(* ===== verification/Serve.thy ===== *)
theory Serve
  imports Handler
begin

text \<open>
  \<^verbatim>\<open>Proxy.Serve\<close> (\<^verbatim>\<open>internal/proxy/proxy.go\<close>): the HTTP server, its shutdown when the context is cancelled, and what
  \<^verbatim>\<open>Serve\<close> returns.

  Time passes only while every goroutine waits: for a connection, for the context, for the deadline of the shutdown.  What the
  goroutines do in between takes no time, and a deadline wakes the one that waits for it when it is due.
\<close>

section \<open>The server\<close>

definition shutdownGrace :: int where "shutdownGrace = 5 * 10 ^ 9"

record server_config =
  srv_ReadHeaderTimeout :: int
  srv_IdleTimeout :: int
  srv_MaxHeaderBytes :: int

definition srv :: server_config where
  "srv = \<lparr>srv_ReadHeaderTimeout = 10 * 10 ^ 9, srv_IdleTimeout = 60 * 10 ^ 9, srv_MaxHeaderBytes = push_bit 10 64\<rparr>"

text \<open>
  A connection that \<^verbatim>\<open>http.Server\<close> tracks: new since some time, with a request, or between requests.  A closed or hijacked one is
  not tracked.
\<close>

datatype conn_state = StateNew time | StateActive | StateIdle | Untracked

text \<open>The goroutine that serves: in \<^verbatim>\<open>Accept\<close>, with a connection it accepted and does not track yet, or after the loop.\<close>

datatype serve_pc = Accepting | Tracking | Ended error

text \<open>
  The goroutine that shuts down: before \<^verbatim>\<open>Shutdown\<close>, waiting there for the loops that accept to end (\<^verbatim>\<open>listenerGroup.Wait\<close>), in the
  loop that waits for the connections, and after it; with the deadline of its context.
\<close>

datatype shutdown_pc = NotCalled | Closing time | Draining time | Drained "error option"

text \<open>\<open>sr_cancelled\<close> and \<open>sr_called\<close> are the times of cancelling and of calling \<^verbatim>\<open>Shutdown\<close>.\<close>

record server =
  sr_cancelled :: "time option"
  sr_called :: "time option"
  sr_inShutdown :: bool
  sr_open :: bool
  sr_conns :: "conn_state list"
  sr_serve :: serve_pc
  sr_shutdown :: shutdown_pc
  sr_result :: "error option option"
  sr_clock :: time

definition serve_start :: "time \<Rightarrow> server" where
  "serve_start now =
     \<lparr>sr_cancelled = None, sr_called = None, sr_inShutdown = False, sr_open = True, sr_conns = [], sr_serve = Accepting,
      sr_shutdown = NotCalled, sr_result = None, sr_clock = now\<rparr>"

text \<open>
  \<^verbatim>\<open>http.Server.closeIdleConns\<close>: an idle connection, and one that is new for more than five seconds, is closed; whether no
  other was left.
\<close>

definition closes :: "time \<Rightarrow> conn_state \<Rightarrow> bool" where
  "closes now c = (case c of StateIdle \<Rightarrow> True | StateNew t \<Rightarrow> t div 10 ^ 9 < now div 10 ^ 9 - 5 | _ \<Rightarrow> False)"

definition closeIdleConns :: "time \<Rightarrow> conn_state list \<Rightarrow> bool \<times> conn_state list" where
  "closeIdleConns now cs =
     (list_all (\<lambda>c. c = Untracked \<or> closes now c) cs, map (\<lambda>c. if closes now c then Untracked else c) cs)"

text \<open>How a tracked connection changes.\<close>

fun conn_next :: "conn_state \<Rightarrow> conn_state \<Rightarrow> bool" where
  "conn_next (StateNew _) c \<longleftrightarrow> c = StateActive \<or> c = Untracked"
| "conn_next StateActive c \<longleftrightarrow> c = StateIdle \<or> c = Untracked"
| "conn_next StateIdle c \<longleftrightarrow> c = StateActive \<or> c = Untracked"
| "conn_next Untracked c \<longleftrightarrow> False"

text \<open>
  Until when time can pass: not at all while a goroutine has something to do (a shutdown to begin or to go on with, a closed
  listener to return from, a result to return), and not past the deadline that the shutdown waits for.
\<close>

definition busy :: "server \<Rightarrow> bool" where
  "busy s \<longleftrightarrow>
     sr_cancelled s \<noteq> None \<and> sr_shutdown s = NotCalled \<or>
     (\<exists>d err. sr_shutdown s = Closing d \<and> sr_serve s = Ended err) \<or>
     sr_serve s = Tracking \<or> sr_serve s = Accepting \<and> \<not> sr_open s \<or>
     (\<exists>err. sr_serve s = Ended err) \<and> sr_result s = None"

definition can_wait :: "server \<Rightarrow> time \<Rightarrow> bool" where
  "can_wait s now \<longleftrightarrow> \<not> busy s \<and> (\<forall>d. sr_shutdown s = Draining d \<longrightarrow> now \<le> d)"

text \<open>
  The steps of the goroutines of \<^verbatim>\<open>Serve\<close> and of the server.  \<open>accept_err\<close> are the errors, other than the temporary ones which the
  server retries, that accepting on the open listener may give; accepting on the closed one gives any.
\<close>

inductive serve_step :: "(error \<Rightarrow> bool) \<Rightarrow> server \<Rightarrow> server \<Rightarrow> bool" for accept_err where
  time: "sr_clock s \<le> now \<Longrightarrow> can_wait s now \<Longrightarrow> serve_step accept_err s (s\<lparr>sr_clock := now\<rparr>)"
| cancel: "sr_cancelled s = None \<Longrightarrow> serve_step accept_err s (s\<lparr>sr_cancelled := Some (sr_clock s)\<rparr>)"
| accepted: "sr_serve s = Accepting \<Longrightarrow> sr_open s \<Longrightarrow> serve_step accept_err s (s\<lparr>sr_serve := Tracking\<rparr>)"
| tracked: "sr_serve s = Tracking \<Longrightarrow>
    serve_step accept_err s (s\<lparr>sr_serve := Accepting, sr_conns := sr_conns s @ [StateNew (sr_clock s)]\<rparr>)"
| failed: "sr_serve s = Accepting \<Longrightarrow> sr_open s \<longrightarrow> accept_err err \<Longrightarrow>
    serve_step accept_err s (s\<lparr>sr_serve := Ended (if sr_inShutdown s then http_ErrServerClosed else err), sr_open := False\<rparr>)"
| connection: "i < length (sr_conns s) \<Longrightarrow> conn_next (sr_conns s ! i) c \<Longrightarrow> serve_step accept_err s (s\<lparr>sr_conns := (sr_conns s)[i := c]\<rparr>)"
| shutdown: "sr_cancelled s \<noteq> None \<Longrightarrow> sr_shutdown s = NotCalled \<Longrightarrow>
    serve_step accept_err s (s\<lparr>sr_called := Some (sr_clock s), sr_inShutdown := True, sr_open := False,
      sr_shutdown := Closing (sr_clock s + shutdownGrace)\<rparr>)"
| waited: "sr_shutdown s = Closing d \<Longrightarrow> sr_serve s = Ended err \<Longrightarrow> serve_step accept_err s (s\<lparr>sr_shutdown := Draining d\<rparr>)"
| poll: "sr_shutdown s = Draining d \<Longrightarrow> closeIdleConns (sr_clock s) (sr_conns s) = (quiescent, cs) \<Longrightarrow>
    serve_step accept_err s (s\<lparr>sr_conns := cs, sr_shutdown := if quiescent then Drained None else Draining d\<rparr>)"
| expired: "sr_shutdown s = Draining d \<Longrightarrow> d \<le> sr_clock s \<Longrightarrow>
    serve_step accept_err s (s\<lparr>sr_shutdown := Drained (Some ctx_DeadlineExceeded)\<rparr>)"
| returns: "sr_serve s = Ended err \<Longrightarrow> sr_result s = None \<Longrightarrow> serve_step accept_err s (s\<lparr>sr_result := Some (Serve_result err)\<rparr>)"

section \<open>The invariant\<close>

definition serve_inv :: "(error \<Rightarrow> bool) \<Rightarrow> server \<Rightarrow> bool" where
  "serve_inv accept_err s \<longleftrightarrow>
     (sr_inShutdown s \<longleftrightarrow> sr_shutdown s \<noteq> NotCalled) \<and> (sr_inShutdown s \<longleftrightarrow> sr_called s \<noteq> None) \<and> (sr_inShutdown s \<longrightarrow> \<not> sr_open s) \<and>
     (\<forall>t. sr_called s = Some t \<longrightarrow> sr_cancelled s = Some t \<and> t \<le> sr_clock s) \<and>
     (\<forall>c. sr_cancelled s = Some c \<longrightarrow> c \<le> sr_clock s \<and>
        (c < sr_clock s \<longrightarrow> sr_inShutdown s \<and> sr_result s \<noteq> None \<and> (\<forall>d. sr_shutdown s \<noteq> Closing d))) \<and>
     (\<not> sr_open s \<longrightarrow> sr_inShutdown s \<or> (\<exists>err. sr_serve s = Ended err)) \<and>
     (\<forall>err. sr_serve s = Ended err \<longrightarrow> \<not> sr_open s \<and> (sr_inShutdown s \<and> err = http_ErrServerClosed \<or> accept_err err)) \<and>
     (\<forall>res. sr_result s = Some res \<longrightarrow> (\<exists>err. sr_serve s = Ended err \<and> res = Serve_result err)) \<and>
     (\<forall>d. sr_shutdown s = Closing d \<or> sr_shutdown s = Draining d \<longrightarrow> sr_clock s \<le> d \<and> (\<exists>t. sr_called s = Some t \<and> d = t + shutdownGrace)) \<and>
     (\<forall>e. sr_shutdown s = Drained (Some e) \<longrightarrow> (\<exists>t. sr_called s = Some t \<and> t + shutdownGrace \<le> sr_clock s))"

lemma serve_inv_conns: "serve_inv accept_err (s\<lparr>sr_conns := cs\<rparr>) = serve_inv accept_err s"
  by (simp add: serve_inv_def)

text \<open>When time can pass after cancelling, \<^verbatim>\<open>Shutdown\<close> was called, the loop that accepts has ended and \<^verbatim>\<open>Serve\<close> returned.\<close>

lemma waiting_cancelled:
  assumes "can_wait s now" "serve_inv accept_err s" "sr_cancelled s \<noteq> None"
  shows "sr_inShutdown s" "sr_result s \<noteq> None" "\<And>d. sr_shutdown s \<noteq> Closing d"
proof -
  have nb: "\<not> busy s" using assms(1) by (simp add: can_wait_def)
  show shut: "sr_inShutdown s" using nb assms(2,3) by (simp add: busy_def serve_inv_def)
  then have "\<not> sr_open s" using assms(2) by (simp add: serve_inv_def)
  then obtain err where "sr_serve s = Ended err" using nb by (cases "sr_serve s") (auto simp: busy_def)
  then show "sr_result s \<noteq> None" "\<And>d. sr_shutdown s \<noteq> Closing d" using nb by (auto simp: busy_def)
qed

lemma time_inv:
  assumes "sr_clock s \<le> now" "can_wait s now" "serve_inv accept_err s"
  shows "serve_inv accept_err (s\<lparr>sr_clock := now\<rparr>)"
proof (cases "sr_cancelled s")
  case None
  then have "sr_shutdown s = NotCalled" "sr_called s = None" using assms(3) by (auto simp: serve_inv_def)
  then show ?thesis using assms None by (auto simp: serve_inv_def)
next
  case (Some c)
  then have "sr_inShutdown s" "sr_result s \<noteq> None" "\<And>d. sr_shutdown s \<noteq> Closing d" using waiting_cancelled assms(2,3) by blast+
  then show ?thesis using assms by (fastforce simp: serve_inv_def can_wait_def)
qed

lemma shutdown_inv:
  assumes "sr_cancelled s \<noteq> None" "sr_shutdown s = NotCalled" "serve_inv accept_err s"
  shows "serve_inv accept_err (s\<lparr>sr_called := Some (sr_clock s), sr_inShutdown := True, sr_open := False, sr_shutdown := Closing (sr_clock s + shutdownGrace)\<rparr>)"
proof -
  have "\<not> sr_inShutdown s" using assms(2,3) by (simp add: serve_inv_def)
  then have "sr_cancelled s = Some (sr_clock s)" using assms(1,3) by (fastforce simp: serve_inv_def)
  then show ?thesis using assms by (auto simp: serve_inv_def shutdownGrace_def)
qed

lemma serve_step_inv: "serve_step accept_err s s' \<Longrightarrow> serve_inv accept_err s \<Longrightarrow> serve_inv accept_err s'"
proof (induction rule: serve_step.induct)
  case (time s now)
  then show ?case by (intro time_inv)
next
  case (shutdown s)
  then show ?case by (intro shutdown_inv)
next
  case (cancel s)
  then show ?case by (auto simp: serve_inv_def)
next
  case (expired s d)
  then show ?case by (auto simp: serve_inv_def)
next
  case (accepted s)
  then show ?case by (auto simp: serve_inv_def)
next
  case (tracked s)
  then show ?case by (auto simp: serve_inv_def)
next
  case (failed s err)
  then show ?case by (auto simp: serve_inv_def)
next
  case (connection i s c)
  then show ?case by (simp only: serve_inv_conns)
next
  case (waited s d err)
  then show ?case by (auto simp: serve_inv_def)
next
  case (poll s d quiescent cs)
  then show ?case by (auto simp: serve_inv_def)
next
  case (returns s err)
  then show ?case by (auto simp: serve_inv_def)
qed

lemma serve_start_inv: "serve_inv accept_err (serve_start now)"
  by (simp add: serve_inv_def serve_start_def)

interpretation serve_machine: step_invariant "serve_step accept_err" "\<lambda>s. \<exists>now. s = serve_start now" "serve_inv accept_err" for accept_err
  by unfold_locales (auto intro: serve_step_inv serve_start_inv)

lemmas serve_into = converse_rtranclp_into_rtranclp [of "serve_step _"]

section \<open>Time is never stuck\<close>

text \<open>What is left to do before time can pass.\<close>

definition work :: "server \<Rightarrow> nat" where
  "work s = (case sr_shutdown s of NotCalled \<Rightarrow> 2 | Closing _ \<Rightarrow> 1 | _ \<Rightarrow> 0) + (case sr_serve s of Tracking \<Rightarrow> 2 | Accepting \<Rightarrow> 1 | Ended _ \<Rightarrow> 0) +
     (if sr_result s = None then 1 else 0)"

lemma busy_step:
  assumes "busy s"
  shows "\<exists>s'. serve_step accept_err s s' \<and> work s' < work s \<and> sr_clock s' = sr_clock s"
proof -
  consider "sr_cancelled s \<noteq> None" "sr_shutdown s = NotCalled" | d err where "sr_shutdown s = Closing d" "sr_serve s = Ended err" |
    "sr_serve s = Tracking" | "sr_serve s = Accepting" "\<not> sr_open s" | err where "sr_serve s = Ended err" "sr_result s = None"
    using assms by (auto simp: busy_def)
  then show ?thesis
  proof cases
    case 1
    show ?thesis using serve_step.shutdown [OF 1] 1 by (intro exI conjI) (assumption, simp_all add: work_def)
  next
    case 2
    show ?thesis using serve_step.waited [OF 2] 2 by (intro exI conjI) (assumption, simp_all add: work_def)
  next
    case 3
    show ?thesis using serve_step.tracked [OF 3] 3 by (intro exI conjI) (assumption, simp_all add: work_def)
  next
    case 4
    then have "serve_step accept_err s (s\<lparr>sr_serve := Ended (if sr_inShutdown s then http_ErrServerClosed else http_ErrServerClosed), sr_open := False\<rparr>)"
      by (intro serve_step.failed) simp_all
    then show ?thesis using 4 by (intro exI conjI) (assumption, simp_all add: work_def)
  next
    case 5
    show ?thesis using serve_step.returns [OF 5] 5 by (intro exI conjI) (assumption, simp_all add: work_def)
  qed
qed

lemma settles: "\<exists>s'. (serve_step accept_err)\<^sup>*\<^sup>* s s' \<and> \<not> busy s' \<and> sr_clock s' = sr_clock s"
proof (induction "work s" arbitrary: s rule: less_induct)
  case less
  show ?case
  proof (cases "busy s")
    case True
    then obtain s1 where s1: "serve_step accept_err s s1" "work s1 < work s" "sr_clock s1 = sr_clock s" using busy_step by blast
    then obtain s' where "(serve_step accept_err)\<^sup>*\<^sup>* s1 s'" "\<not> busy s'" "sr_clock s' = sr_clock s1" using less by blast
    then show ?thesis using s1 serve_into by metis
  qed auto
qed

lemma time_passes:
  assumes "serve_inv accept_err s" "sr_clock s \<le> now"
  shows "\<exists>s'. (serve_step accept_err)\<^sup>*\<^sup>* s s' \<and> sr_clock s' = now"
proof -
  obtain s1 where s1: "(serve_step accept_err)\<^sup>*\<^sup>* s s1" "\<not> busy s1" "sr_clock s1 = sr_clock s" using settles by blast
  have inv: "serve_inv accept_err s1" using serve_machine.steps_keep [OF s1(1) assms(1)] .
  have go: "serve_step accept_err s2 (s2\<lparr>sr_clock := now\<rparr>)" if "can_wait s2 now" "sr_clock s2 \<le> now" for s2
    using that by (intro serve_step.time)
  show ?thesis
  proof (cases "can_wait s1 now")
    case True
    then show ?thesis using s1 go [OF True] assms(2) rtranclp.rtrancl_into_rtrancl [OF s1(1)] by fastforce
  next
    case False
    then obtain d where d: "sr_shutdown s1 = Draining d" "d < now" using s1(2) by (auto simp: can_wait_def)
    let ?s2 = "s1\<lparr>sr_clock := d\<rparr>" and ?s3 = "s1\<lparr>sr_clock := d, sr_shutdown := Drained (Some ctx_DeadlineExceeded)\<rparr>"
    have le: "sr_clock s1 \<le> d" using inv d(1) by (simp add: serve_inv_def)
    have "can_wait s1 d" using s1(2) d(1) by (auto simp: can_wait_def)
    with le have "serve_step accept_err s1 ?s2" by (intro serve_step.time)
    moreover have "serve_step accept_err ?s2 (?s2\<lparr>sr_shutdown := Drained (Some ctx_DeadlineExceeded)\<rparr>)"
      using d(1) by (intro serve_step.expired [of _ d]) simp_all
    moreover have "\<not> busy ?s3" using s1(2) d(1) by (auto simp: busy_def)
    then have "can_wait ?s3 now" by (simp add: can_wait_def)
    then have "serve_step accept_err ?s3 (?s3\<lparr>sr_clock := now\<rparr>)" using d(2) by (intro go) simp_all
    ultimately have "(serve_step accept_err)\<^sup>*\<^sup>* s (?s3\<lparr>sr_clock := now\<rparr>)"
      using s1(1) by (simp add: rtranclp.rtrancl_into_rtrancl)
    then show ?thesis by (intro exI [of _ "?s3\<lparr>sr_clock := now\<rparr>"]) simp
  qed
qed

section \<open>Properties\<close>

text \<open>
  C18.  How \<^verbatim>\<open>Serve\<close> ends.  However the goroutines of the server, its connections and the cancelling of the context are interleaved:
  \<^verbatim>\<open>Serve\<close> returns no error only after the context was cancelled and \<^verbatim>\<open>Shutdown\<close> was called, an error it returns is one of
  accepting, and once it returned the listener is closed.  As soon as time has passed since the cancelling, \<^verbatim>\<open>Shutdown\<close> was
  called at that moment and \<^verbatim>\<open>Serve\<close> has returned; a shutdown that was called more than five seconds ago is over, and it gave up on
  connections only after five seconds.  And time is never stuck: every later moment can be reached.
\<close>

theorem Serve_ends:
  assumes "(serve_step accept_err)\<^sup>*\<^sup>* (serve_start now0) s" "\<And>err. accept_err err \<Longrightarrow> \<not> errors_Is err http_ErrServerClosed"
  shows "(sr_result s = Some None \<longrightarrow> sr_cancelled s \<noteq> None \<and> sr_called s = sr_cancelled s) \<and>
    (\<forall>err. sr_result s = Some (Some err) \<longrightarrow> accept_err err) \<and> (sr_result s \<noteq> None \<longrightarrow> \<not> sr_open s) \<and>
    (\<forall>c. sr_cancelled s = Some c \<and> c < sr_clock s \<longrightarrow> sr_result s \<noteq> None \<and> sr_called s = Some c) \<and>
    (\<forall>t. sr_called s = Some t \<and> t + 5 * 10 ^ 9 < sr_clock s \<longrightarrow> (\<exists>e. sr_shutdown s = Drained e)) \<and>
    (\<forall>t e. sr_called s = Some t \<and> sr_shutdown s = Drained (Some e) \<longrightarrow> t + 5 * 10 ^ 9 \<le> sr_clock s) \<and>
    (\<forall>now \<ge> sr_clock s. \<exists>s'. (serve_step accept_err)\<^sup>*\<^sup>* s s' \<and> sr_clock s' = now)"
proof -
  have inv: "serve_inv accept_err s" using serve_machine.holds_after [OF assms(1)] by blast
  have called: "sr_called s = sr_cancelled s" if "sr_inShutdown s" using inv that by (auto simp: serve_inv_def)
  have "sr_cancelled s \<noteq> None \<and> sr_called s = sr_cancelled s" if "sr_result s = Some None"
  proof -
    have "sr_inShutdown s" using inv that assms(2) by (auto simp: serve_inv_def Serve_result_def split: if_splits)
    then show ?thesis using inv called by (auto simp: serve_inv_def)
  qed
  moreover have "accept_err err" if "sr_result s = Some (Some err)" for err
    using inv that by (auto simp: serve_inv_def Serve_result_def http_ErrServerClosed_def split: if_splits)
  moreover have "sr_result s \<noteq> None \<longrightarrow> \<not> sr_open s" using inv by (auto simp: serve_inv_def)
  moreover have "sr_result s \<noteq> None \<and> sr_called s = Some c" if "sr_cancelled s = Some c \<and> c < sr_clock s" for c
    using inv called that by (auto simp: serve_inv_def)
  moreover have "\<exists>e. sr_shutdown s = Drained e" if "sr_called s = Some t \<and> t + 5 * 10 ^ 9 < sr_clock s" for t
    using inv that by (cases "sr_shutdown s") (auto simp: serve_inv_def shutdownGrace_def)
  moreover have "t + 5 * 10 ^ 9 \<le> sr_clock s" if "sr_called s = Some t \<and> sr_shutdown s = Drained (Some e)" for t e
    using inv that by (auto simp: serve_inv_def shutdownGrace_def)
  ultimately show ?thesis using time_passes [OF inv] by blast
qed

definition demo_server :: "time \<Rightarrow> server" where
  "demo_server now = \<lparr>sr_cancelled = Some now, sr_called = Some now, sr_inShutdown = True, sr_open = False, sr_conns = [StateActive],
     sr_serve = Ended http_ErrServerClosed, sr_shutdown = Draining (now + shutdownGrace), sr_result = Some None, sr_clock = now\<rparr>"

lemma demo_server_reached: "(serve_step accept_err)\<^sup>*\<^sup>* (serve_start now) (demo_server now)"
proof -
  let ?st = "serve_step accept_err"
  note r = rtranclp.rtrancl_into_rtrancl [of ?st]
  have s1: "?st\<^sup>*\<^sup>* (serve_start now) (serve_start now)" by simp
  note s2 = r [OF s1 serve_step.accepted, unfolded serve_start_def, simplified]
  note s3 = r [OF s2 serve_step.tracked, simplified]
  note s4 = r [OF s3 serve_step.connection [of 0 _ StateActive], simplified]
  note s5 = r [OF s4 serve_step.cancel, simplified]
  note s6 = r [OF s5 serve_step.shutdown, simplified]
  note s7 = r [OF s6 serve_step.failed, simplified]
  note s8 = r [OF s7 serve_step.waited, simplified]
  note s9 = r [OF s8 serve_step.returns, simplified]
  have "Serve_result http_ErrServerClosed = None" by (simp add: Serve_result_def http_ErrServerClosed_def)
  then show ?thesis using s9 by (simp add: demo_server_def serve_start_def)
qed

theorem Serve_ends_witness:
  "\<exists>s. (serve_step (\<lambda>_. False))\<^sup>*\<^sup>* (demo_server 0) s \<and> sr_clock s = 6 * 10 ^ 9 \<and> sr_called (demo_server 0) = Some 0"
  using Serve_ends [OF demo_server_reached, of "\<lambda>_. False" 0] by (simp add: demo_server_def)

text \<open>
  C40.  The grace period is not waited for.  \<^verbatim>\<open>http.Server.Serve\<close> returns when \<^verbatim>\<open>Shutdown\<close> is called, not when it returns, and
  \<^verbatim>\<open>Serve\<close> does not wait either: whatever errors accepting may give, it can return no error, which ends the program, at the moment of
  cancelling, with a request being served and all of the five seconds of the shutdown left.
\<close>

theorem Serve_returns_early:
  "\<exists>s. (serve_step accept_err)\<^sup>*\<^sup>* (serve_start now) s \<and> sr_result s = Some None \<and> sr_clock s = now \<and>
     StateActive \<in> set (sr_conns s) \<and> sr_shutdown s = Draining (now + shutdownGrace)"
  using demo_server_reached by (intro exI [of _ "demo_server now"]) (simp add: demo_server_def)

end
