(* ===== verification/Spec2Isabelle.thy ===== *)
theory Spec2Isabelle
  imports System Serve
begin

text \<open>
  A verification library for proxy-acl, a forward HTTP and HTTPS proxy that enforces destination rules per
  subnet of clients, loaded from a YAML file that is reloaded while the proxy runs.

  \<^bold>\<open>The program.\<close>  A client connection is accepted by the listener (\<^verbatim>\<open>internal/proxy/listener.go\<close>), which drops
  clients outside every subnet and takes a connection slot of the tracker (\<^verbatim>\<open>internal/limits\<close>).  Every
  request goes through the handler (\<^verbatim>\<open>internal/proxy/proxy.go\<close>): the rate limit of the tracker, then the policy
  (\<^verbatim>\<open>internal/acl\<close>), which parses the destination, matches the rules, resolves a name through the DNS cache
  (\<^verbatim>\<open>internal/dnscache\<close>) and checks every address.  An approved destination is a vetted one: a \<^verbatim>\<open>CONNECT\<close> dials its
  addresses (\<^verbatim>\<open>dial.go\<close>) and copies bytes both ways (\<^verbatim>\<open>tunnel.go\<close>), a plain request goes to the pool of
  connections kept for exactly this destination (\<^verbatim>\<open>upstream.go\<close>).  Decisions are logged under a budget
  (\<^verbatim>\<open>log.go\<close>).  The active configuration (\<^verbatim>\<open>internal/config\<close>) is swapped by the store when the
  file changes; \<^verbatim>\<open>cmd/proxy-acl/main.go\<close> puts the parts together.

  \<^bold>\<open>The language and its library.\<close>
  \<^item> \<open>Prelude\<close>: errors as values, fallible results, the functions of \<^verbatim>\<open>strings\<close> and \<^verbatim>\<open>strconv\<close> that the sources
    call, and the locale \<open>step_invariant\<close>, the contract of every part that runs as a step relation.
  \<^item> \<open>Netip\<close>, \<open>Netip_Text\<close>, \<open>Host_Text\<close>: addresses as 32 and 128 bit words with their zones, prefixes,
    the parsers and printers of \<^verbatim>\<open>net/netip\<close> and \<^verbatim>\<open>net\<close>; printing is injective on the addresses a check lets through,
    and joining host and port is undone by splitting.
  \<^item> \<open>Regexp\<close>: the fragment of \<^verbatim>\<open>regexp\<close> that wildcard patterns compile to, with its semantics.
  \<^item> \<open>Float64\<close>, \<open>Go_Time\<close>: binary64 arithmetic with rounding to nearest even, times and durations in nanoseconds
    with the saturation of \<^verbatim>\<open>Time.Sub\<close>, \<^verbatim>\<open>time.ParseDuration\<close>.
  \<^item> \<open>Go_Map\<close>: maps as association lists with distinct keys.

  \<^bold>\<open>The components\<close>, each with its state, its operations under the names of the source, its invariant and its
  properties:
  \<^item> \<open>Rules\<close> (\<^verbatim>\<open>acl/rules.go\<close>): patterns, rule sets, hosts, prefixes, ports, non-public ranges.  A compiled rule list
    matches exactly what some pattern stands for; the locale \<open>rule_list\<close> states this contract once and is
    interpreted for names and for addresses.
  \<^item> \<open>Policy\<close> (\<^verbatim>\<open>acl/policy.go\<close>): compiling subnets, the subnet of a client, the decision.  Requests are allowed
    exactly when the specification of the rules allows them, and an allowed one carries only checked addresses.
  \<^item> \<open>Client_Limits\<close> (\<^verbatim>\<open>limits/limits.go\<close>): token buckets, the tracker, release functions, sweeping.  Entries live in a store
    because a release function keeps its entry alive.  The locale \<open>connection_slots\<close> is what the listener relies on.
  \<^item> \<open>Config\<close>, \<open>Store\<close> (\<^verbatim>\<open>config/config.go\<close>, \<^verbatim>\<open>config/store.go\<close>): parsing and validating the file, the active
    configuration, the watch loop with its debounce timer.
  \<^item> \<open>Dial\<close> (\<^verbatim>\<open>proxy/dial.go\<close>): the vetted destination, serial dialling with shares of the deadline, and the race of the
    two address families with its goroutines, channel and timer.  The locale \<open>dial_contract\<close> carries what every
    call of the dialer keeps.
  \<^item> \<open>Upstream\<close> (\<^verbatim>\<open>proxy/upstream.go\<close>): pools keyed by the approved destination, least recently used eviction.
  \<^item> \<open>Dns_Cache\<close> (\<^verbatim>\<open>dnscache/dnscache.go\<close>): callers and lookup goroutines as threads over the shared maps,
    flights, slots and semaphores.
  \<^item> \<open>Access_Log\<close> (\<^verbatim>\<open>proxy/log.go\<close>): log lines under the budget of a client, summaries.
  \<^item> \<open>Listener\<close> (\<^verbatim>\<open>proxy/listener.go\<close>): admitting and closing connections; every open connection holds one slot, and
    no decision goes unrecorded in the log.
  \<^item> \<open>Tunnel\<close> (\<^verbatim>\<open>proxy/tunnel.go\<close>): both directions of a tunnel step by step, every piece of data with the time it is carried, the idle
    timeout, half closes.  What the idle check guarantees is less than the comments of the source say: data of a copy under way
    is not seen by the other direction, and a run shows a tunnel closed as idle a minute after it carried data.
  \<^item> \<open>Handler\<close> (\<^verbatim>\<open>proxy/proxy.go\<close>): the check, tunnels, plain requests, headers, answers.  Whatever the network does,
    only approved destinations are reached.
  \<^item> \<open>Stages\<close> (\<^verbatim>\<open>proxy/proxy.go\<close>): the same handler cut into the stages that other goroutines can come between, where it
    loads the configuration, takes a token of the tracker, looks a name up, logs and answers, uses a pool.  A lemma shows that
    the stages, run without interruption, are \<open>ServeHTTP\<close>, so the two translations of the handler agree.
  \<^item> \<open>Serve\<close> (\<^verbatim>\<open>Proxy.Serve\<close>): the goroutines that serve and shut down, over the accept loop and the \<^verbatim>\<open>Shutdown\<close> of
    \<^verbatim>\<open>http.Server\<close>; when \<^verbatim>\<open>Serve\<close> returns and what.  Time passes there only while every goroutine waits, and never past a deadline that
    one of them waits for.  Its last property is a run in which it returns, and the program ends, while a
    request is in flight and the grace period has just begun.
  \<^item> \<open>System\<close> (\<^verbatim>\<open>cmd/proxy-acl/main.go\<close> and \<^verbatim>\<open>Store.Watch\<close>): starting, and the running program as one step relation over the
    watch loop, the connections, the stages of every request, the threads of the DNS cache and the maintenance loop.  A
    handler that has to look a name up starts a call of the cache and waits until this call returned.

  \<^bold>\<open>State and concurrency.\<close>  Functions that run under a lock, and handlers, are functions from state to state.
  Where goroutines interleave (the race of a dial, the DNS cache, the two directions of a tunnel, the watch loop, the
  tracker, the running program) they are step relations, and the properties are invariants of all
  reachable states, proved through \<open>step_invariant\<close> and its interpretations.  In \<open>System\<close> requests interleave stage by stage: a
  configuration may be replaced, a bucket drained and a pool evicted between two stages, and what is shown of every
  contacted destination is about the configuration that its own request loaded.

  \<^bold>\<open>Parameters.\<close>  Code outside the sources is an argument: the resolver, the dialer of one address, the \<^verbatim>\<open>RoundTrip\<close> of a
  transport, the YAML decoder, zerolog's level parser and which levels it writes, the file system and its
  watcher, the clock, and \<^verbatim>\<open>regexp.Compile\<close> on the expressions an operator writes (on those that wildcard patterns
  produce it is the parser of \<open>Regexp\<close>).  Properties hold for all of them; the witnesses use concrete ones.

  \<^bold>\<open>Bounds.\<close>  The loops of the sources are structural recursions or have termination proofs.  Two functions carry fuel:
  trimming spaces, whose fuel is the length of the text, of which every round drops a byte; and the parser of
  regular expressions, whose fuel is linear in the length of the expression, shown enough for every expression
  a wildcard pattern produces.  Machine integers keep their width where it matters (addresses, ports,
  the saturating difference of times); counters of connections and lines are unbounded integers, which their
  own limits keep far below 64 bits.  The floating point of the buckets is binary64 without fused operations.

  \<^bold>\<open>Not modelled.\<close>  Parsing the command line flags, the format of log output, the log lines of a reload, and the registration of
  signals: they call libraries and keep no state of the program.  HTTP parsing, the timeouts of the HTTP server, connection
  pooling inside a transport and TLS are the standard library; of \<^verbatim>\<open>http.Server\<close> only accepting, tracking connections and shutting
  down are modelled.
\<close>

end
